(* ===== verification/Prelude.thy ===== *)
theory Prelude
  imports Main "HOL-Library.List_Lexorder" "HOL-Library.Char_ord" "HOL-Library.Monad_Syntax"
begin

section \<open>Prelude: shared types, constants and lemmas\<close>

text \<open>
  What every component of the messenger shares: the constants of
  \<open>include/util/definitions.hpp\<close> and of the headers that fix a limit, the list functions the
  model needs (the last \<open>n\<close> entries of a list, removal by index), the one loop that two
  components of the program have in common (erasing from a vector while a range-based
  \<open>for\<close> runs over it), the collection \<open>bind_iff\<close> for inverting computations, and the
  contracts of machines that take events.

  Convention of the whole development: a function whose C++ body can leave defined behaviour
  (a read past the live elements of a vector, a C string without terminator, a \<open>strcpy\<close> that
  does not fit) returns an \<open>option\<close>, and \<open>None\<close> is that undefined behaviour.
\<close>

named_theorems bind_iff \<open>inversion of option-monad computations\<close>

type_synonym socket = int
type_synonym timestamp = int

subsection \<open>Constants\<close>

definition DEFAULT_NUMBER_OF_RECORDED_MESSAGES :: int where
  "DEFAULT_NUMBER_OF_RECORDED_MESSAGES = 10"

definition USERNAME_MAX_SIZE :: nat where
  "USERNAME_MAX_SIZE = 20"

definition UUID_SIZE :: nat where
  "UUID_SIZE = 37"

definition GROUP_MAX_SIZE :: nat where
  "GROUP_MAX_SIZE = 20"

definition MESSAGE_MAX_SIZE :: nat where
  "MESSAGE_MAX_SIZE = 255"

definition JOINED_MESSAGE :: string where
  "JOINED_MESSAGE = ''<Joined the group>''"

definition LEFT_GROUP_MESSAGE :: string where
  "LEFT_GROUP_MESSAGE = ''<Left the group>''"

definition KEEP_ALIVE_TIMEOUT :: int where
  "KEEP_ALIVE_TIMEOUT = 10"

definition KEEP_ALIVE_INTERVAL :: int where
  "KEEP_ALIVE_INTERVAL = 2"

definition ERROR_SENDING :: int where
  "ERROR_SENDING = 0"

definition MAX_RM :: int where
  "MAX_RM = 3"

definition RM_BASE_PORT_NUMBER :: int where
  "RM_BASE_PORT_NUMBER = 9990"

definition USER_SESSIONS_LIMIT_REACHED :: int where
  "USER_SESSIONS_LIMIT_REACHED = -2"

definition MAX_NUMBER_OF_SIMULTANEOUS_CONNECTIONS :: nat where
  "MAX_NUMBER_OF_SIMULTANEOUS_CONNECTIONS = 2"

lemmas size_defs = USERNAME_MAX_SIZE_def UUID_SIZE_def GROUP_MAX_SIZE_def MESSAGE_MAX_SIZE_def

subsection \<open>Inverting computations in the option monad\<close>

lemma bind_Some_iff [bind_iff]:
  "(Option.bind m f = Some y) \<longleftrightarrow> (\<exists>x. m = Some x \<and> f x = Some y)"
  by (cases m) auto

lemma if_None_Some_iff [bind_iff]:
  "((if b then None else m) = Some y) \<longleftrightarrow> \<not> b \<and> m = Some y"
  "((if b then m else None) = Some y) \<longleftrightarrow> b \<and> m = Some y"
  by auto

text \<open>A loop that threads a state through a list and may leave defined behaviour.\<close>

fun foldM :: "('a \<Rightarrow> 's \<Rightarrow> 's option) \<Rightarrow> 'a list \<Rightarrow> 's \<Rightarrow> 's option" where
  "foldM f [] s = Some s"
| "foldM f (x # xs) s = Option.bind (f x s) (foldM f xs)"

lemma bind_foldM_Nil [simp]: "Option.bind m (foldM f []) = m"
  by (cases m) simp_all

lemma foldM_map: "foldM f (map g xs) s = foldM (\<lambda>x. f (g x)) xs s"
  by (induction xs arbitrary: s) (auto split: bind_split)

lemma foldM_append: "foldM f (xs @ ys) s = Option.bind (foldM f xs s) (foldM f ys)"
  by (induction xs arbitrary: s) (auto split: bind_split)

lemma foldM_invariant:
  assumes "foldM f xs s = Some s'" and "P s"
    and "\<And>x s s'. x \<in> set xs \<Longrightarrow> P s \<Longrightarrow> f x s = Some s' \<Longrightarrow> P s'"
  shows "P s'"
  using assms
proof (induction xs arbitrary: s)
  case Nil
  then show ?case by simp
next
  case (Cons x xs)
  from Cons.prems(1) obtain t where t: "f x s = Some t" "foldM f xs t = Some s'"
    by (auto simp: bind_iff)
  have "P t" using Cons.prems(3) [OF _ Cons.prems(2) t(1)] by simp
  then show ?case
    using Cons.IH [OF t(2)] Cons.prems(3) by (meson list.set_intros(2))
qed

lemma foldM_progress:
  assumes "P s"
    and "\<And>x s. x \<in> set xs \<Longrightarrow> P s \<Longrightarrow> \<exists>s'. f x s = Some s' \<and> P s'"
  shows "\<exists>s'. foldM f xs s = Some s' \<and> P s'"
  using assms
proof (induction xs arbitrary: s)
  case Nil
  then show ?case by simp
next
  case (Cons x xs)
  from Cons.prems obtain t where t: "f x s = Some t" "P t"
    by (meson list.set_intros(1))
  then have "\<exists>s'. foldM f xs t = Some s' \<and> P s'"
    using Cons.IH Cons.prems(2) by (meson list.set_intros(2))
  with t show ?case by simp
qed

subsection \<open>Event machines\<close>

text \<open>
  The processes of the system react to events: a step takes an event and the state to the next
  state, or leaves defined behaviour. What every process is asked is the same, that its steps
  keep an invariant under acceptable events, and what follows for whole runs is proved once.
\<close>

locale event_machine =
  fixes step :: "'e \<Rightarrow> 's \<Rightarrow> 's option"
    and ok :: "'e \<Rightarrow> bool"
    and inv :: "'s \<Rightarrow> bool"
  assumes step_inv: "inv s \<Longrightarrow> ok e \<Longrightarrow> step e s = Some s' \<Longrightarrow> inv s'"
begin

lemma run_inv: "foldM step es s = Some s' \<Longrightarrow> \<forall>e\<in>set es. ok e \<Longrightarrow> inv s \<Longrightarrow> inv s'"
  by (erule foldM_invariant) (auto intro: step_inv)

lemma run_prefix_inv:
  assumes "foldM step (es @ fs) s = Some s'" and "\<forall>e\<in>set es. ok e" and "inv s"
  shows "\<exists>t. foldM step es s = Some t \<and> inv t \<and> foldM step fs t = Some s'"
  using assms run_inv by (auto simp: foldM_append bind_iff)

end

text \<open>
  A machine whose state has an abstract view that every step changes as an abstract step says:
  the view of a whole run is then the run of the abstract steps.
\<close>

locale refined_machine = event_machine step ok inv
  for step :: "'e \<Rightarrow> 's \<Rightarrow> 's option" and ok :: "'e \<Rightarrow> bool" and inv :: "'s \<Rightarrow> bool" +
  fixes view :: "'s \<Rightarrow> 'a"
    and astep :: "'e \<Rightarrow> 'a \<Rightarrow> 'a"
  assumes step_view: "inv s \<Longrightarrow> ok e \<Longrightarrow> step e s = Some s' \<Longrightarrow> view s' = astep e (view s)"
begin

lemma run_view:
  "foldM step es s = Some s' \<Longrightarrow> \<forall>e\<in>set es. ok e \<Longrightarrow> inv s \<Longrightarrow> view s' = fold astep es (view s)"
proof (induction es arbitrary: s)
  case Nil
  then show ?case by simp
next
  case (Cons e es)
  then obtain t where t: "step e s = Some t" "foldM step es t = Some s'" by (auto simp: bind_iff)
  have "view t = astep e (view s)" "inv t" using step_view step_inv t(1) Cons.prems by auto
  then show ?case using Cons.IH [OF t(2)] Cons.prems(2) by simp
qed

end

text \<open>A step taken only when the environment may take it in the current state.\<close>

definition guarded :: "('e \<Rightarrow> 's \<Rightarrow> bool) \<Rightarrow> ('e \<Rightarrow> 's \<Rightarrow> 's option) \<Rightarrow> 'e \<Rightarrow> 's \<Rightarrow> 's option" where
  "guarded may step e s = (if may e s then step e s else None)"

lemma guarded_Some [bind_iff]: "guarded may step e s = Some s' \<longleftrightarrow> may e s \<and> step e s = Some s'"
  by (simp add: guarded_def)

text \<open>
  Progress and preservation: a typed event that may happen in a typed state has a step, to a typed
  state. A run through such events is then never stuck.
\<close>

locale typed_machine =
  fixes step :: "'e \<Rightarrow> 's \<Rightarrow> 's option"
    and typed_event :: "'e \<Rightarrow> bool"
    and may :: "'e \<Rightarrow> 's \<Rightarrow> bool"
    and typed :: "'s \<Rightarrow> bool"
  assumes progress: "typed s \<Longrightarrow> typed_event e \<Longrightarrow> may e s \<Longrightarrow> \<exists>s'. step e s = Some s' \<and> typed s'"
begin

lemma run_typed:
  "foldM (guarded may step) es s = Some s' \<Longrightarrow> \<forall>e\<in>set es. typed_event e \<Longrightarrow> typed s \<Longrightarrow> typed s'"
  by (erule foldM_invariant) (use progress in \<open>fastforce simp: guarded_Some\<close>)+

lemma never_stuck:
  assumes "foldM (guarded may step) es s = Some s'" and "\<forall>e\<in>set es. typed_event e" and "typed s"
    and "typed_event e" and "may e s'"
  shows "\<exists>s''. step e s' = Some s'' \<and> typed s''"
  using progress run_typed assms by blast

lemma run_total:
  assumes "typed s" and "\<forall>e\<in>set es. typed_event e \<and> (\<forall>s. typed s \<longrightarrow> may e s)"
  shows "\<exists>s'. foldM step es s = Some s' \<and> typed s'"
  using assms by (intro foldM_progress) (auto intro: progress)

end

subsection \<open>The last entries of a list\<close>

definition last_n :: "nat \<Rightarrow> 'a list \<Rightarrow> 'a list" where
  "last_n n xs = drop (length xs - n) xs"

lemma length_last_n [simp]: "length (last_n n xs) = min n (length xs)"
  by (simp add: last_n_def min_def)

lemma last_n_all [simp]: "length xs \<le> n \<Longrightarrow> last_n n xs = xs"
  by (simp add: last_n_def)

lemma last_n_last_n: "m \<le> n \<Longrightarrow> last_n m (last_n n xs) = last_n m xs"
  by (auto simp: last_n_def intro: arg_cong [where f = "\<lambda>k. drop k xs"])

lemma last_n_snoc: "last_n n xs @ [x] = last_n (Suc n) (xs @ [x])"
  by (simp add: last_n_def)

lemma set_last_n: "set (last_n n xs) \<subseteq> set xs"
  by (simp add: last_n_def set_drop_subset)

lemma last_n_map: "last_n n (map f xs) = map f (last_n n xs)"
  by (simp add: last_n_def drop_map)

subsection \<open>Removal by index\<close>

definition remove_nth :: "nat \<Rightarrow> 'a list \<Rightarrow> 'a list" where
  "remove_nth i xs = take i xs @ drop (Suc i) xs"

lemma length_remove_nth: "i < length xs \<Longrightarrow> length (remove_nth i xs) = length xs - 1"
  by (simp add: remove_nth_def)

lemma remove_nth_last: "xs \<noteq> [] \<Longrightarrow> remove_nth (length xs - 1) xs = butlast xs"
  by (simp add: remove_nth_def butlast_conv_take)

lemma remove_nth_split [simp]: "remove_nth (length xs) (xs @ y # ys) = xs @ ys"
  by (simp add: remove_nth_def)

lemma mset_remove_nth_set: "set (remove_nth i xs) \<subseteq> set xs"
  by (auto simp: remove_nth_def dest: in_set_takeD in_set_dropD)

text \<open>The index of the first element with a property.\<close>

fun find_index :: "('a \<Rightarrow> bool) \<Rightarrow> 'a list \<Rightarrow> nat option" where
  "find_index P [] = None"
| "find_index P (x # xs) = (if P x then Some 0 else map_option Suc (find_index P xs))"

lemma find_index_None_iff: "find_index P xs = None \<longleftrightarrow> (\<forall>x\<in>set xs. \<not> P x)"
  by (induction xs) auto

lemma find_index_SomeD:
  assumes "find_index P xs = Some i"
  shows "i < length xs \<and> P (xs ! i) \<and> (\<forall>j<i. \<not> P (xs ! j))"
  using assms
proof (induction xs arbitrary: i)
  case Nil
  then show ?case by simp
next
  case (Cons x xs)
  show ?case
  proof (cases "P x")
    case True
    with Cons.prems show ?thesis by simp
  next
    case False
    with Cons.prems obtain k where "find_index P xs = Some k" "i = Suc k"
      by auto
    with Cons.IH [of k] False show ?thesis
      by (auto simp: less_Suc_eq_0_disj)
  qed
qed

lemma find_index_split:
  assumes "find_index P xs = Some i"
  shows "\<exists>ys z zs. xs = ys @ z # zs \<and> length ys = i \<and> P z \<and> (\<forall>y\<in>set ys. \<not> P y)"
proof -
  from find_index_SomeD [OF assms] have i: "i < length xs" "P (xs ! i)" "\<forall>j<i. \<not> P (xs ! j)"
    by auto
  have "xs = take i xs @ xs ! i # drop (Suc i) xs"
    using i(1) by (simp add: id_take_nth_drop)
  moreover have "length (take i xs) = i" using i(1) by simp
  moreover have "\<forall>y\<in>set (take i xs). \<not> P y"
    using i(1,3) by (auto simp: in_set_conv_nth)
  ultimately show ?thesis using i(2) by blast
qed

subsection \<open>Counting in an updated list\<close>

lemma count_list_update:
  "i < length xs \<Longrightarrow> int (count_list (xs[i := y]) x) =
     int (count_list xs x) - (if xs ! i = x then 1 else 0) + (if y = x then 1 else 0)"
proof (induction xs arbitrary: i)
  case Nil
  then show ?case by simp
next
  case (Cons a xs)
  then show ?case by (cases i) force+
qed

lemma count_list_moved:
  assumes "i < length xs" and "xs ! i = a" and "a \<noteq> b"
  shows "Suc (count_list (xs[i := b]) a) = count_list xs a"
    and "count_list (xs[i := b]) b = Suc (count_list xs b)"
    and "c \<noteq> a \<Longrightarrow> c \<noteq> b \<Longrightarrow> count_list (xs[i := b]) c = count_list xs c"
  using count_list_update [OF assms(1), of b a] count_list_update [OF assms(1), of b b]
    count_list_update [OF assms(1), of b c] assms(2,3) by simp_all

lemma count_list_pos: "i < length xs \<Longrightarrow> 0 < count_list xs (xs ! i)"
  by (metis count_list_0_iff gr0I nth_mem)

lemma count_list_replicate: "count_list (replicate n y) x = (if x = y then n else 0)"
  by (induction n) auto

subsection \<open>Erasing from a vector inside a range-based for\<close>

text \<open>
  \<open>User::releaseSession\<close> and \<open>Server::purgeFeConnection\<close> share one loop shape:
  \<^verbatim>\<open>
    int deletion_index = 0;  auto begin = v.begin();
    for (auto x : v) {
        if (P(x)) v.erase(begin + deletion_index);
        deletion_index += 1;
    }
  \<close>
  The range-based \<open>for\<close> fixes its end at the start: it visits as many slots as the vector
  had, and reads slot \<open>i\<close> of the vector as it is by then. Once an element has been erased the
  vector is shorter, and the last slot holds a destroyed object: reading it is undefined
  behaviour, \<open>None\<close> here. The arguments are the slots still to visit, the current index and
  the vector. The vector's iterators are taken to be what they are in the compilers the build
  names: pointers into the array.
\<close>

fun erase_loop :: "('a \<Rightarrow> bool) \<Rightarrow> nat \<Rightarrow> nat \<Rightarrow> 'a list \<Rightarrow> 'a list option" where
  "erase_loop P 0 i v = Some v"
| "erase_loop P (Suc k) i v =
     (if i < length v
      then erase_loop P k (Suc i) (if P (v ! i) then remove_nth i v else v)
      else None)"

definition erase_in_range_for :: "('a \<Rightarrow> bool) \<Rightarrow> 'a list \<Rightarrow> 'a list option" where
  "erase_in_range_for P v = erase_loop P (length v) 0 v"

lemma erase_loop_short:
  "length v < i + k \<Longrightarrow> 0 < k \<Longrightarrow> erase_loop P k i v = None"
proof (induction P k i v rule: erase_loop.induct)
  case (1 P i v)
  then show ?case by simp
next
  case (2 P k i v)
  show ?case
  proof (cases "i < length v")
    case True
    with "2.prems" have "0 < k" by simp
    moreover have "length (if P (v ! i) then remove_nth i v else v) < Suc i + k"
      using True "2.prems" by (auto simp: length_remove_nth)
    ultimately show ?thesis using "2.IH" [OF True] True by simp
  next
    case False
    then show ?thesis by simp
  qed
qed

lemma erase_loop_char:
  "length v = i + k \<Longrightarrow>
   erase_loop P k i v =
     (if \<exists>x\<in>set (butlast (drop i v)). P x then None
      else if 0 < k \<and> P (last v) then Some (butlast v) else Some v)"
proof (induction k arbitrary: i v)
  case 0
  then show ?case by simp
next
  case (Suc k)
  then have i: "i < length v" by simp
  then have dr: "drop i v = v ! i # drop (Suc i) v" by (simp add: Cons_nth_drop_Suc)
  show ?case
  proof (cases "P (v ! i)")
    case True
    show ?thesis
    proof (cases k)
      case 0
      with Suc.prems have len: "i = length v - 1" and ne: "v \<noteq> []" by auto
      with True 0 dr show ?thesis
        using remove_nth_last [OF ne] by (simp add: last_conv_nth)
    next
      case (Suc k')
      have "length (remove_nth i v) < Suc i + k" and "0 < k"
        using i Suc.prems Suc by (simp_all add: length_remove_nth)
      then have "erase_loop P (Suc k) i v = None"
        using i True by (simp add: erase_loop_short)
      moreover have "drop (Suc i) v \<noteq> []" using Suc.prems Suc by simp
      ultimately show ?thesis using True dr by simp
    qed
  next
    case False
    have "erase_loop P (Suc k) i v = erase_loop P k (Suc i) v"
      using False i by simp
    also have "\<dots> = (if \<exists>x\<in>set (butlast (drop (Suc i) v)). P x then None
        else if 0 < k \<and> P (last v) then Some (butlast v) else Some v)"
      using Suc.prems by (intro Suc.IH) simp
    also have "\<dots> = (if \<exists>x\<in>set (butlast (drop i v)). P x then None
        else if 0 < Suc k \<and> P (last v) then Some (butlast v) else Some v)"
    proof (cases "k = 0")
      case True
      with Suc.prems have "i = length v - 1" and "v \<noteq> []" by auto
      with False True dr show ?thesis by (simp add: last_conv_nth)
    next
      case nz: False
      with Suc.prems have "drop (Suc i) v \<noteq> []" by simp
      with nz False dr show ?thesis by simp
    qed
    finally show ?thesis .
  qed
qed

text \<open>
  What the loop really does: it is defined exactly when no element before the last one matches,
  and then it drops the last element if that one matches.
\<close>

lemma erase_in_range_for_char:
  "erase_in_range_for P v =
     (if \<exists>x\<in>set (butlast v). P x then None
      else if v \<noteq> [] \<and> P (last v) then Some (butlast v) else Some v)"
  by (simp add: erase_in_range_for_def erase_loop_char)

lemma erase_in_range_for_none: "\<forall>x\<in>set v. \<not> P x \<Longrightarrow> erase_in_range_for P v = Some v"
  by (auto simp: erase_in_range_for_char dest: in_set_butlastD)

lemma erase_in_range_for_filter:
  assumes "erase_in_range_for P v = Some v'"
  shows "v' = filter (\<lambda>x. \<not> P x) v"
proof (cases v rule: rev_cases)
  case Nil
  with assms show ?thesis by (simp add: erase_in_range_for_char)
next
  case (snoc xs x)
  with assms show ?thesis
    by (auto simp: erase_in_range_for_char filter_id_conv split: if_splits)
qed

end
