(* ===== verification/Std_Map.thy ===== *)
theory Std_Map
  imports Prelude
begin

section \<open>The std::map container\<close>

text \<open>
  The program keeps all its tables in \<open>std::map\<close>: the FE address book, the keep-alive
  times, the users and sockets of the front end, the groups, the connection counts and the
  replication sockets. The model of the container is an association list in strictly
  increasing key order, which is the order in which the container iterates. The operations are
  the ones the program uses: \<open>find\<close>, assignment through \<open>operator[]\<close>, reading through
  \<open>operator[]\<close> (which stores a default value for a missing key), \<open>insert\<close> and
  \<open>erase\<close>. The locale \<open>map_table\<close> is the contract the clients rely on; the interpretation
  at the end of the theory discharges it for the association lists.
\<close>

type_synonym ('k, 'v) cmap = "('k \<times> 'v) list"

fun map_find :: "('k::linorder, 'v) cmap \<Rightarrow> 'k \<Rightarrow> 'v option" where
  "map_find [] k = None"
| "map_find ((k', v) # m) k = (if k' = k then Some v else map_find m k)"

fun map_assign :: "('k::linorder, 'v) cmap \<Rightarrow> 'k \<Rightarrow> 'v \<Rightarrow> ('k, 'v) cmap" where
  "map_assign [] k v = [(k, v)]"
| "map_assign ((k', v') # m) k v =
     (if k = k' then (k, v) # m
      else if k < k' then (k, v) # (k', v') # m
      else (k', v') # map_assign m k v)"

fun map_erase :: "('k::linorder, 'v) cmap \<Rightarrow> 'k \<Rightarrow> ('k, 'v) cmap" where
  "map_erase [] k = []"
| "map_erase ((k', v') # m) k = (if k = k' then m else (k', v') # map_erase m k)"

definition map_index :: "'v \<Rightarrow> ('k::linorder, 'v) cmap \<Rightarrow> 'k \<Rightarrow> 'v \<times> ('k, 'v) cmap" where
  \<comment> \<open>reading through \<open>operator[]\<close>: a missing key is stored with the default value\<close>
  "map_index d m k =
     (case map_find m k of Some v \<Rightarrow> (v, m) | None \<Rightarrow> (d, map_assign m k d))"

definition map_insert :: "('k::linorder, 'v) cmap \<Rightarrow> 'k \<Rightarrow> 'v \<Rightarrow> ('k, 'v) cmap" where
  \<comment> \<open>\<open>insert({k, v})\<close> keeps an existing entry\<close>
  "map_insert m k v = (case map_find m k of Some _ \<Rightarrow> m | None \<Rightarrow> map_assign m k v)"

definition map_wf :: "('k::linorder, 'v) cmap \<Rightarrow> bool" where
  "map_wf m \<longleftrightarrow> sorted_wrt (<) (map fst m)"

definition map_keys :: "('k::linorder, 'v) cmap \<Rightarrow> 'k set" where
  "map_keys m = fst ` set m"

lemma map_wf_Nil [simp]: "map_wf []"
  by (simp add: map_wf_def)

lemma map_wf_Cons: "map_wf (e # m) \<longleftrightarrow> (\<forall>k\<in>fst ` set m. fst e < k) \<and> map_wf m"
  by (auto simp: map_wf_def)

lemma map_find_None_iff: "map_find m k = None \<longleftrightarrow> k \<notin> fst ` set m"
  by (induction m k rule: map_find.induct) auto

lemma map_find_in_set: "map_find m k = Some v \<Longrightarrow> (k, v) \<in> set m"
  by (induction m k rule: map_find.induct) (auto split: if_splits)

lemma map_find_set_iff:
  assumes "map_wf m" shows "map_find m k = Some v \<longleftrightarrow> (k, v) \<in> set m"
  using assms
proof (induction m)
  case Nil
  then show ?case by simp
next
  case (Cons e m)
  have le: "\<forall>x\<in>fst ` set m. fst e < x" and wf: "map_wf m"
    using Cons.prems by (simp_all add: map_wf_Cons)
  have "(fst e, v) \<notin> set m" using le by force
  then show ?case using Cons.IH [OF wf] by (cases e) auto
qed

lemma map_assign_keys [simp]: "fst ` set (map_assign m k v) = insert k (fst ` set m)"
  by (induction m k v rule: map_assign.induct) auto

lemma map_assign_wf [simp, intro]: "map_wf m \<Longrightarrow> map_wf (map_assign m k v)"
proof (induction m k v rule: map_assign.induct)
  case (1 k v)
  then show ?case by (simp add: map_wf_Cons)
next
  case (2 k' v' m k v)
  then show ?case
    using map_assign_keys [of m k v] by (auto simp: map_wf_Cons)
qed

lemma map_find_assign [simp]:
  "map_find (map_assign m k v) x = (if x = k then Some v else map_find m x)"
  by (induction m k v rule: map_assign.induct) auto

lemma map_erase_keys: "set (map_erase m k) \<subseteq> set m"
  by (induction m k rule: map_erase.induct) auto

lemma map_erase_wf [simp, intro]: "map_wf m \<Longrightarrow> map_wf (map_erase m k)"
proof (induction m k rule: map_erase.induct)
  case (1 k)
  then show ?case by simp
next
  case (2 k' v' m k)
  then show ?case
    using map_erase_keys [of m k] by (auto simp: map_wf_Cons)
qed

lemma map_find_erase [simp]:
  "map_wf m \<Longrightarrow> map_find (map_erase m k) x = (if x = k then None else map_find m x)"
proof (induction m k rule: map_erase.induct)
  case (1 k)
  then show ?case by simp
next
  case (2 k' v' m k)
  have le: "\<forall>x\<in>fst ` set m. k' < x" and wf: "map_wf m"
    using "2.prems" by (simp_all add: map_wf_Cons)
  have "map_find m k' = None" using le by (auto simp: map_find_None_iff)
  then show ?case using "2.IH" wf by auto
qed

lemma map_ext:
  assumes "map_wf m" and "map_wf m'" and "\<And>k. map_find m k = map_find m' k"
  shows "m = m'"
  using assms
proof (induction m arbitrary: m')
  case Nil
  show ?case
  proof (cases m')
    case (Cons e es)
    then show ?thesis using Nil.prems(3) [of "fst e"] by (cases e) simp
  qed simp
next
  case (Cons e m)
  obtain k v where e: "e = (k, v)" by (cases e)
  have km: "\<forall>x\<in>fst ` set m. k < x" and wf: "map_wf m"
    using Cons.prems(1) e by (auto simp: map_wf_Cons)
  obtain k' v' n where m': "m' = (k', v') # n"
    using Cons.prems(3) [of k] e by (cases m') auto
  have kn: "\<forall>x\<in>fst ` set n. k' < x" and wfn: "map_wf n"
    using Cons.prems(2) m' by (auto simp: map_wf_Cons)
  have mk: "map_find m k = None" using km by (auto simp: map_find_None_iff)
  have nk: "map_find n k' = None" using kn by (auto simp: map_find_None_iff)
  have kk: "k = k'"
  proof (rule ccontr)
    assume ne: "k \<noteq> k'"
    then have "Some v = map_find n k" using Cons.prems(3) [of k] e m' by simp
    then have "map_find n k \<noteq> None" by (metis option.simps(3))
    then have "k' < k" using kn by (auto simp: map_find_None_iff)
    moreover have "map_find m k' \<noteq> None" using Cons.prems(3) [of k'] e m' ne by auto
    then have "k < k'" using km by (auto simp: map_find_None_iff)
    ultimately show False by simp
  qed
  have "v = v'" using Cons.prems(3) [of k] e m' kk by simp
  moreover have "m = n"
  proof (rule Cons.IH [OF wf wfn])
    fix x
    show "map_find m x = map_find n x"
      using Cons.prems(3) [of x] e m' kk mk nk by (cases "x = k") auto
  qed
  ultimately show ?case using e m' kk by simp
qed

text \<open>A function applied to all values.\<close>

lemma map_find_map: "map_find (map (\<lambda>(k, p). (k, f p)) m) k = map_option f (map_find m k)"
  by (induction m k rule: map_find.induct) auto

lemma map_wf_map [simp]: "map_wf (map (\<lambda>(k, p). (k, f p)) m) = map_wf m"
  by (simp add: map_wf_def comp_def case_prod_beta)

lemma map_index_value: "fst (map_index d m k) = (case map_find m k of Some v \<Rightarrow> v | None \<Rightarrow> d)"
  by (simp add: map_index_def split: option.split)

lemma map_index_wf [simp, intro]: "map_wf m \<Longrightarrow> map_wf (snd (map_index d m k))"
  by (simp add: map_index_def split: option.split)

lemma map_find_index:
  "map_find (snd (map_index d m k)) x =
     (if x = k then Some (fst (map_index d m k)) else map_find m x)"
  by (auto simp: map_index_def split: option.split)

lemma map_insert_wf [simp, intro]: "map_wf m \<Longrightarrow> map_wf (map_insert m k v)"
  by (simp add: map_insert_def split: option.split)

lemma map_find_insert:
  "map_find (map_insert m k v) x =
     (if x = k \<and> map_find m k = None then Some v else map_find m x)"
  by (auto simp: map_insert_def split: option.split)

subsection \<open>Replacing the value of an existing key keeps the order of iteration\<close>

lemma map_assign_existing:
  assumes "map_wf (xs @ (k, v) # ys)"
  shows "map_assign (xs @ (k, v) # ys) k w = xs @ (k, w) # ys"
  using assms
proof (induction xs)
  case Nil
  then show ?case by simp
next
  case (Cons e xs)
  obtain a b where e: "e = (a, b)" by (cases e)
  have "a < k" using Cons.prems e by (auto simp: map_wf_Cons)
  then show ?case using Cons e by (auto simp: map_wf_Cons)
qed

subsection \<open>The contract of a table\<close>

locale map_table =
  fixes empty :: "'m"
    and lookup :: "'m \<Rightarrow> 'k \<Rightarrow> 'v option"
    and store :: "'m \<Rightarrow> 'k \<Rightarrow> 'v \<Rightarrow> 'm"
    and remove :: "'m \<Rightarrow> 'k \<Rightarrow> 'm"
    and wf :: "'m \<Rightarrow> bool"
  assumes lookup_empty: "lookup empty k = None"
    and lookup_store: "wf m \<Longrightarrow> lookup (store m k v) x = (if x = k then Some v else lookup m x)"
    and lookup_remove: "wf m \<Longrightarrow> lookup (remove m k) x = (if x = k then None else lookup m x)"
    and wf_empty: "wf empty"
    and wf_store: "wf m \<Longrightarrow> wf (store m k v)"
    and wf_remove: "wf m \<Longrightarrow> wf (remove m k)"
begin

lemmas table_laws = lookup_empty lookup_store lookup_remove wf_empty wf_store wf_remove

lemma lookup_store_same: "wf m \<Longrightarrow> lookup (store m k v) k = Some v"
  by (simp add: lookup_store)

lemma lookup_remove_same: "wf m \<Longrightarrow> lookup (remove m k) k = None"
  by (simp add: lookup_remove)

lemma lookup_remove_store: "wf m \<Longrightarrow> lookup (remove (store m k v) k) x =
    (if x = k then None else lookup m x)"
  by (simp add: lookup_store lookup_remove wf_store)

end

interpretation std_map: map_table "[]" map_find map_assign map_erase map_wf
  by unfold_locales auto

end
