(* ===== verification/C_Text.thy ===== *)
theory C_Text
  imports Prelude
begin

section \<open>C strings, lines and decimal numbers\<close>

text \<open>
  The parts of the C and C++ standard libraries the program's text handling rests on: fixed
  character buffers with \<open>strncpy\<close>, \<open>strcpy\<close> and reading up to the terminator, splitting a
  stream with \<open>getline\<close>, reading a word with \<open>>>\<close>, printing integers with \<open>to_string\<close> and
  \<open><<\<close>, and reading them with \<open>stoi\<close> and \<open>>>\<close>. A C string argument is a \<open>string\<close>
  without the NUL character; a buffer is the list of all its bytes.
\<close>

abbreviation NUL :: char where
  "NUL \<equiv> CHR 0x00"

abbreviation LF :: char where
  "LF \<equiv> CHR 0x0A"

subsection \<open>Buffers\<close>

definition c_str :: "string \<Rightarrow> string option" where
  \<comment> \<open>reading a buffer as a C string; without terminator the read leaves the buffer\<close>
  "c_str buf = (if NUL \<in> set buf then Some (takeWhile (\<lambda>c. c \<noteq> NUL) buf) else None)"

definition strncpy :: "string \<Rightarrow> string \<Rightarrow> nat \<Rightarrow> string" where
  "strncpy dst src n = take n (src @ replicate n NUL) @ drop n dst"

definition strcpy :: "string \<Rightarrow> string \<Rightarrow> string option" where
  "strcpy dst src =
     (if length src < length dst then Some (src @ [NUL] @ drop (Suc (length src)) dst) else None)"

lemma takeWhile_no_NUL: "NUL \<notin> set s \<Longrightarrow> takeWhile (\<lambda>c. c \<noteq> NUL) (s @ NUL # r) = s"
  by (induction s) auto

lemma length_strncpy [simp]: "n \<le> length dst \<Longrightarrow> length (strncpy dst src n) = length dst"
  by (simp add: strncpy_def)

lemma length_strcpy: "strcpy dst src = Some b \<Longrightarrow> length b = length dst"
  by (auto simp: strcpy_def split: if_splits)

lemma c_str_strcpy:
  "strcpy dst src = Some b \<Longrightarrow> NUL \<notin> set src \<Longrightarrow> c_str b = Some src"
  by (auto simp: strcpy_def c_str_def takeWhile_no_NUL split: if_splits)

lemma strcpy_fits: "length src < length dst \<Longrightarrow> \<exists>b. strcpy dst src = Some b"
  by (simp add: strcpy_def)

lemma c_str_no_NUL: "c_str buf = Some s \<Longrightarrow> NUL \<notin> set s"
  by (auto simp: c_str_def dest: set_takeWhileD split: if_splits)

lemma c_str_SomeD: "c_str buf = Some s \<Longrightarrow> \<exists>r. buf = s @ NUL # r \<and> NUL \<notin> set s"
proof -
  assume a: "c_str buf = Some s"
  then have "NUL \<in> set buf" by (auto simp: c_str_def split: if_splits)
  then obtain xs ys where b: "buf = xs @ NUL # ys" "NUL \<notin> set xs"
    by (meson split_list_first)
  then have "s = xs" using a by (simp add: c_str_def takeWhile_no_NUL)
  with b show ?thesis by blast
qed

lemma c_str_length: "c_str buf = Some s \<Longrightarrow> length s < length buf"
  by (auto dest!: c_str_SomeD)

text \<open>A copy that leaves room for the terminator: what the buffer then reads as.\<close>

lemma c_str_strncpy_short:
  assumes "length src < n" and "NUL \<notin> set src"
  shows "c_str (strncpy dst src n) = Some src"
proof -
  obtain k where k: "n = length src + Suc k"
    using assms(1) by (metis add_Suc_right less_imp_Suc_add)
  have "strncpy dst src n = src @ NUL # (replicate k NUL @ drop n dst)"
    by (simp add: strncpy_def k)
  then show ?thesis
    using assms(2) by (simp add: c_str_def takeWhile_no_NUL)
qed

lemma c_str_update:
  assumes "c_str b = Some s" and "length s < i"
  shows "c_str (b[i := NUL]) = Some s"
proof -
  obtain r where b: "b = s @ NUL # r" "NUL \<notin> set s" using c_str_SomeD [OF assms(1)] by blast
  obtain k where "i = length s + Suc k"
    using assms(2) by (metis add_Suc_right less_imp_Suc_add)
  then have "b[i := NUL] = s @ NUL # r[k := NUL]" using b(1) by (simp add: list_update_append)
  with b(2) show ?thesis by (simp add: c_str_def takeWhile_no_NUL)
qed

text \<open>
  A copy that fills all of its \<open>n\<close> bytes writes no terminator: the buffer reads as the first
  \<open>n\<close> characters only if the byte after them happens to be NUL.
\<close>

lemma strncpy_full: "n \<le> length src \<Longrightarrow> strncpy dst src n = take n src @ drop n dst"
  by (simp add: strncpy_def)

lemma c_str_strncpy_full_terminated:
  assumes "n \<le> length src" and "NUL \<notin> set src" and "drop n dst = NUL # r"
  shows "c_str (strncpy dst src n) = Some (take n src)"
proof -
  have "NUL \<notin> set (take n src)" using assms(2) by (meson in_set_takeD)
  then show ?thesis
    using assms by (simp add: strncpy_full c_str_def takeWhile_no_NUL)
qed

lemma c_str_strncpy_full_unterminated:
  assumes "n \<le> length src" and "NUL \<notin> set src" and "NUL \<notin> set (drop n dst)"
  shows "c_str (strncpy dst src n) = None"
  using assms by (auto simp: strncpy_full c_str_def dest: in_set_takeD)

lemma c_str_strncpy:
  assumes "NUL \<notin> set src" and "drop n dst = NUL # r"
  shows "c_str (strncpy dst src n) = Some (take n src)"
proof (cases "length src < n")
  case True
  then show ?thesis using c_str_strncpy_short [OF True assms(1)] by simp
next
  case False
  then show ?thesis using c_str_strncpy_full_terminated assms by (metis linorder_not_less)
qed

subsection \<open>Lines and words\<close>

text \<open>
  The successive results of \<open>while (getline(stream, line, d))\<close> on a stream with the given
  content: the delimiter is removed, a last piece without delimiter still counts, and nothing
  is read after the end.
\<close>

fun getlines :: "char \<Rightarrow> string \<Rightarrow> string list" where
  "getlines d [] = []"
| "getlines d (c # cs) =
     (if c = d then [] # getlines d cs
      else (case getlines d cs of [] \<Rightarrow> [[c]] | l # ls \<Rightarrow> (c # l) # ls))"

lemma getlines_delim: "d \<notin> set l \<Longrightarrow> getlines d (l @ d # rest) = l # getlines d rest"
  by (induction l) auto

lemma getlines_last: "d \<notin> set l \<Longrightarrow> l \<noteq> [] \<Longrightarrow> getlines d l = [l]"
proof (induction l)
  case Nil
  then show ?case by simp
next
  case (Cons c l)
  then show ?case by (cases l) auto
qed

definition unlines :: "char \<Rightarrow> string list \<Rightarrow> string" where
  "unlines d ls = concat (map (\<lambda>l. l @ [d]) ls)"

lemma unlines_simps [simp]:
  "unlines d [] = []" "unlines d (l # ls) = l @ d # unlines d ls"
  "unlines d (ls @ ls') = unlines d ls @ unlines d ls'"
  by (simp_all add: unlines_def)

lemma getlines_unlines:
  "\<forall>l\<in>set ls. d \<notin> set l \<Longrightarrow> getlines d (unlines d ls) = ls"
  by (induction ls) (auto simp: getlines_delim)

definition isspace :: "char \<Rightarrow> bool" where
  "isspace c \<longleftrightarrow> of_char c = (32::nat) \<or> ((9::nat) \<le> of_char c \<and> of_char c \<le> (13::nat))"

definition next_word :: "string \<Rightarrow> string \<times> string" where
  \<comment> \<open>\<open>stream >> word\<close>: the word and what is left\<close>
  "next_word s = (let t = dropWhile isspace s in
     (takeWhile (\<lambda>c. \<not> isspace c) t, dropWhile (\<lambda>c. \<not> isspace c) t))"

lemma next_word_first:
  assumes "w \<noteq> []" and "\<forall>c\<in>set w. \<not> isspace c" and "isspace b"
  shows "next_word (w @ b # r) = (w, b # r)"
proof -
  have "dropWhile isspace (w @ b # r) = w @ b # r"
    using assms(1,2) by (cases w) auto
  moreover have "takeWhile (\<lambda>c. \<not> isspace c) (w @ b # r) = w"
    using assms(2,3) by (induction w) auto
  moreover have "dropWhile (\<lambda>c. \<not> isspace c) (w @ b # r) = b # r"
    using assms(2,3) by (induction w) auto
  ultimately show ?thesis by (simp add: next_word_def)
qed

lemma next_word_last:
  assumes "\<forall>c\<in>set w. \<not> isspace c" and "w \<noteq> []" and "isspace b"
  shows "next_word (b # w) = (w, [])"
proof -
  have "dropWhile isspace (b # w) = w"
    using assms by (cases w) auto
  moreover have "takeWhile (\<lambda>c. \<not> isspace c) w = w" "dropWhile (\<lambda>c. \<not> isspace c) w = []"
    using assms(1) by simp_all
  ultimately show ?thesis by (simp add: next_word_def)
qed

subsection \<open>Decimal numbers\<close>

definition digit :: "nat \<Rightarrow> char" where
  "digit d = char_of (48 + d)"

definition is_digit :: "char \<Rightarrow> bool" where
  "is_digit c \<longleftrightarrow> (48::nat) \<le> of_char c \<and> of_char c \<le> (57::nat)"

definition digit_val :: "char \<Rightarrow> nat" where
  "digit_val c = of_char c - 48"

fun show_nat :: "nat \<Rightarrow> string" where
  "show_nat n = (if n < 10 then [digit n] else show_nat (n div 10) @ [digit (n mod 10)])"

declare show_nat.simps [simp del]

definition to_string :: "int \<Rightarrow> string" where
  "to_string i = (if i < 0 then CHR ''-'' # show_nat (nat (- i)) else show_nat (nat i))"

definition digits_val :: "string \<Rightarrow> nat" where
  "digits_val ds = foldl (\<lambda>a c. 10 * a + digit_val c) 0 ds"

definition scan_int :: "string \<Rightarrow> int option" where
  \<comment> \<open>what \<open>strtol\<close> and \<open>>>\<close> have in common: blanks, a sign, then digits\<close>
  "scan_int s =
     (let t = dropWhile isspace s;
          neg = (t \<noteq> [] \<and> hd t = CHR ''-'');
          u = (if t \<noteq> [] \<and> (hd t = CHR ''-'' \<or> hd t = CHR ''+'') then tl t else t);
          ds = takeWhile is_digit u
      in if ds = [] then None
         else Some (if neg then - int (digits_val ds) else int (digits_val ds)))"

datatype stoi_error = Invalid_Argument | Out_Of_Range

definition stoi :: "string \<Rightarrow> stoi_error + int" where
  "stoi s = (case scan_int s of None \<Rightarrow> Inl Invalid_Argument
     | Some i \<Rightarrow> if - (2 ^ 31) \<le> i \<and> i < 2 ^ 31 then Inr i else Inl Out_Of_Range)"

definition stream_long :: "string \<Rightarrow> int" where
  \<comment> \<open>\<open>stream >> n\<close> for \<open>long int n = 0\<close>: 0 when no number is found, else clamped\<close>
  "stream_long s = (case scan_int s of None \<Rightarrow> 0
     | Some i \<Rightarrow> max (- (2 ^ 63)) (min (2 ^ 63 - 1) i))"

lemma of_char_digit: "d < 10 \<Longrightarrow> of_char (digit d) = 48 + d"
  by (simp add: digit_def)

lemma is_digit_digit [simp]: "d < 10 \<Longrightarrow> is_digit (digit d)"
  by (simp add: is_digit_def of_char_digit)

lemma digit_val_digit [simp]: "d < 10 \<Longrightarrow> digit_val (digit d) = d"
  by (simp add: digit_val_def of_char_digit)

lemma is_digit_not_space: "is_digit c \<Longrightarrow> \<not> isspace c"
  by (auto simp: is_digit_def isspace_def)

lemma show_nat_digits: "\<forall>c\<in>set (show_nat n). is_digit c"
proof (induction n rule: show_nat.induct)
  case (1 n)
  then show ?case
    by (subst show_nat.simps) auto
qed

lemma show_nat_nonempty [simp]: "show_nat n \<noteq> []"
  by (subst show_nat.simps) simp

lemma digits_val_snoc [simp]: "digits_val (ds @ [c]) = 10 * digits_val ds + digit_val c"
  by (simp add: digits_val_def)

lemma digits_val_show_nat [simp]: "digits_val (show_nat n) = n"
proof (induction n rule: show_nat.induct)
  case (1 n)
  show ?case
  proof (cases "n < 10")
    case True
    then show ?thesis by (subst show_nat.simps) (simp add: digits_val_def)
  next
    case False
    then have "digits_val (show_nat (n div 10)) = n div 10" using 1 by simp
    with False show ?thesis by (subst show_nat.simps) simp
  qed
qed

lemma is_digit_not_sign: "is_digit c \<Longrightarrow> c \<noteq> CHR ''-'' \<and> c \<noteq> CHR ''+''"
  by (auto simp: is_digit_def)

lemma sign_not_space: "\<not> isspace CHR ''-''"
  by (simp add: isspace_def)

lemma takeWhile_digits:
  assumes "\<forall>c\<in>set ds. is_digit c" and "r = [] \<or> \<not> is_digit (hd r)"
  shows "takeWhile is_digit (ds @ r) = ds"
  using assms by (induction ds) (cases r, auto)

text \<open>Reading back a printed number, whatever follows it.\<close>

lemma scan_int_to_string:
  assumes "r = [] \<or> \<not> is_digit (hd r)"
  shows "scan_int (to_string i @ r) = Some i"
proof (cases "i < 0")
  case True
  have tw: "takeWhile is_digit (show_nat (nat (- i)) @ r) = show_nat (nat (- i))"
    by (rule takeWhile_digits [OF show_nat_digits assms])
  have "to_string i @ r = CHR ''-'' # show_nat (nat (- i)) @ r"
    using True by (simp add: to_string_def)
  with tw True show ?thesis
    by (simp add: scan_int_def sign_not_space Let_def)
next
  case False
  let ?d = "show_nat (nat i)"
  have tw: "takeWhile is_digit (?d @ r) = ?d"
    by (rule takeWhile_digits [OF show_nat_digits assms])
  obtain c cs where d: "?d = c # cs" by (cases ?d) auto
  then have c: "is_digit c" using show_nat_digits [of "nat i"] by simp
  have "to_string i @ r = ?d @ r" using False by (simp add: to_string_def)
  moreover have "dropWhile isspace (?d @ r) = ?d @ r"
    using d c is_digit_not_space by simp
  moreover have "hd (?d @ r) \<noteq> CHR ''-''" "hd (?d @ r) \<noteq> CHR ''+''"
    using d is_digit_not_sign [OF c] by simp_all
  ultimately show ?thesis
    using tw False by (simp add: scan_int_def Let_def)
qed

lemma stream_long_to_string:
  assumes "- (2 ^ 63) \<le> i" and "i < 2 ^ 63"
  shows "stream_long (to_string i) = i"
  using scan_int_to_string [of "[]" i] assms by (simp add: stream_long_def)

lemma stoi_to_string:
  assumes "- (2 ^ 31) \<le> i" and "i < 2 ^ 31"
  shows "stoi (to_string i) = Inr i"
  using scan_int_to_string [of "[]" i] assms by (simp add: stoi_def)

lemma to_string_chars: "\<forall>c\<in>set (to_string i). is_digit c \<or> c = CHR ''-''"
  using show_nat_digits by (auto simp: to_string_def)

lemma to_string_not_space: "\<forall>c\<in>set (to_string i). \<not> isspace c"
  using to_string_chars is_digit_not_space sign_not_space by blast

lemma to_string_nonempty [simp]: "to_string i \<noteq> []"
  by (simp add: to_string_def)

lemma show_nat_length_mono: "length (show_nat n) \<le> length (show_nat (n div 10)) + 1"
  by (subst show_nat.simps) (auto simp: Suc_le_eq)

text \<open>A number of at most \<open>k\<close> decimal places prints in at most \<open>k\<close> characters.\<close>

lemma show_nat_length: "0 < k \<Longrightarrow> n < 10 ^ k \<Longrightarrow> length (show_nat n) \<le> k"
proof (induction k arbitrary: n)
  case 0
  then show ?case by simp
next
  case (Suc k)
  show ?case
  proof (cases "n < 10")
    case True
    then show ?thesis by (subst show_nat.simps) simp
  next
    case False
    with Suc.prems have "0 < k" by (cases k) auto
    moreover have "n div 10 < 10 ^ k" using Suc.prems(2) by (simp add: less_mult_imp_div_less)
    ultimately have "length (show_nat (n div 10)) \<le> k" by (rule Suc.IH)
    then show ?thesis using show_nat_length_mono [of n] by simp
  qed
qed

end
