(* ===== verification/Users.thy ===== *)
theory Users
  imports Prelude
begin

section \<open>Messages and users\<close>

text \<open>
  \<open>src/util/message.cpp\<close> and \<open>src/util/user.cpp\<close>: the message a group stores and sends,
  and the user of one group with the sessions he has in it. A session is the pair of the client
  identifier and the address of the front end the client came through. The methods of a user run
  between \<open>wait\<close> and \<open>post\<close> of the user's semaphore (theory \<open>Semaphores\<close>), so each is
  one function here.
\<close>

record message =
  m_text :: string
  m_user :: string
  m_group :: string
  m_time :: timestamp
  m_isNotification :: bool

definition Message :: "string \<Rightarrow> string \<Rightarrow> string \<Rightarrow> timestamp \<Rightarrow> message" where
  "Message text user grp time =
     \<lparr>m_text = text, m_user = user, m_group = grp, m_time = time, m_isNotification = False\<rparr>"

definition setIsNotification :: "message \<Rightarrow> bool \<Rightarrow> message" where
  "setIsNotification m v = m\<lparr>m_isNotification := v\<rparr>"

lemma Message_simps [simp]:
  "m_text (Message t u g n) = t" "m_user (Message t u g n) = u" "m_group (Message t u g n) = g"
  "m_time (Message t u g n) = n" "\<not> m_isNotification (Message t u g n)"
  by (simp_all add: Message_def)

lemma setIsNotification_simps [simp]:
  "m_text (setIsNotification m v) = m_text m" "m_user (setIsNotification m v) = m_user m"
  "m_group (setIsNotification m v) = m_group m" "m_time (setIsNotification m v) = m_time m"
  "m_isNotification (setIsNotification m v) = v"
  by (simp_all add: setIsNotification_def)

type_synonym session = "string \<times> string"  \<comment> \<open>clientID, feAddress\<close>

record user =
  u_username :: string
  u_clientIdentifiers :: "session list"

definition initSessionList :: "user \<Rightarrow> user" where
  "initSessionList u = u\<lparr>u_clientIdentifiers := []\<rparr>"

definition User :: "string \<Rightarrow> user" where
  "User name = \<lparr>u_username = name, u_clientIdentifiers = []\<rparr>"

definition getActiveConnections :: "user \<Rightarrow> session list" where
  "getActiveConnections u = u_clientIdentifiers u"

definition registerSession :: "user \<Rightarrow> string \<Rightarrow> string \<Rightarrow> int \<times> user" where
  "registerSession u clientID feAddress =
     (if length (u_clientIdentifiers u) < MAX_NUMBER_OF_SIMULTANEOUS_CONNECTIONS
      then (0, u\<lparr>u_clientIdentifiers := u_clientIdentifiers u @ [(clientID, feAddress)]\<rparr>)
      else (-1, u))"

definition releaseSession :: "user \<Rightarrow> string \<Rightarrow> string \<Rightarrow> user option" where
  \<comment> \<open>the second comparison is of \<open>userSession.first\<close> too, and asks for a difference\<close>
  "releaseSession u clientID feAddress =
     map_option (\<lambda>v. u\<lparr>u_clientIdentifiers := v\<rparr>)
       (erase_in_range_for (\<lambda>s. fst s = clientID \<and> fst s \<noteq> feAddress) (u_clientIdentifiers u))"

lemma User_simps [simp]:
  "u_username (User n) = n" "u_clientIdentifiers (User n) = []"
  by (simp_all add: User_def)

lemma registerSession_username [simp]: "u_username (snd (registerSession u c f)) = u_username u"
  by (simp add: registerSession_def)

lemma releaseSession_username:
  "releaseSession u c f = Some u' \<Longrightarrow> u_username u' = u_username u"
  by (auto simp: releaseSession_def)

text \<open>What a release leaves, when it is defined: every session with that client identifier goes.\<close>

lemma releaseSession_sessions:
  assumes "releaseSession u c f = Some u'" and "c \<noteq> f"
  shows "u_clientIdentifiers u' = filter (\<lambda>s. fst s \<noteq> c) (u_clientIdentifiers u)"
proof -
  from assms(1) obtain v where v: "u' = u\<lparr>u_clientIdentifiers := v\<rparr>"
    "erase_in_range_for (\<lambda>s. fst s = c \<and> fst s \<noteq> f) (u_clientIdentifiers u) = Some v"
    by (auto simp: releaseSession_def)
  have "(\<lambda>s. \<not> (fst s = c \<and> fst s \<noteq> f)) = (\<lambda>s::session. fst s \<noteq> c)"
    using assms(2) by auto
  with v erase_in_range_for_filter [OF v(2)] show ?thesis by simp
qed

text \<open>
  When it is defined: only the newest session of the user may be the one released. Releasing the
  older of two makes the loop read the destroyed slot at the end of the vector.
\<close>

lemma releaseSession_defined_iff:
  assumes "c \<noteq> f"
  shows "(\<exists>u'. releaseSession u c f = Some u') \<longleftrightarrow>
    c \<notin> fst ` set (butlast (u_clientIdentifiers u))"
proof -
  have "(\<exists>x\<in>set (butlast (u_clientIdentifiers u)). fst x = c \<and> fst x \<noteq> f) \<longleftrightarrow>
      c \<in> fst ` set (butlast (u_clientIdentifiers u))"
    using assms by force
  then show ?thesis
    unfolding releaseSession_def erase_in_range_for_char by simp
qed

lemma releaseSession_single:
  "c \<noteq> f \<Longrightarrow> u_clientIdentifiers u = [(c, g)] \<Longrightarrow>
   releaseSession u c f = Some (u\<lparr>u_clientIdentifiers := []\<rparr>)"
  by (simp add: releaseSession_def erase_in_range_for_char)

lemma releaseSession_newest:
  "c \<noteq> f \<Longrightarrow> u_clientIdentifiers u = xs @ [(c, g)] \<Longrightarrow> c \<notin> fst ` set xs \<Longrightarrow>
   releaseSession u c f = Some (u\<lparr>u_clientIdentifiers := xs\<rparr>)"
  by (force simp: releaseSession_def erase_in_range_for_char)

end
