(* ===== verification/History.thy ===== *)
theory History
  imports Std_Map C_Text Users
begin

section \<open>The history files\<close>

text \<open>
  \<open>src/util/file_system_manager.cpp\<close>: one file per group under \<open>messages/\<close>, one line per
  message, fields separated by the character 31. The file system is a map from paths to
  contents; input and output on existing directories is taken to succeed. A file that does
  not exist reads as empty, as a failed \<open>ifstream\<close> does.
\<close>

type_synonym files = "(string, string) cmap"

definition FILE_SEPARATOR :: char where
  "FILE_SEPARATOR = CHR 0x1F"

definition groupFile :: "string \<Rightarrow> string" where
  "groupFile grp = ''messages'' @ ''/'' @ grp @ ''.csv''"

definition tempGroupFile :: "string \<Rightarrow> string" where
  "tempGroupFile grp = groupFile grp @ ''_temp''"

definition file_content :: "files \<Rightarrow> string \<Rightarrow> string" where
  "file_content fs path = (case map_find fs path of None \<Rightarrow> [] | Some c \<Rightarrow> c)"

definition append_file :: "files \<Rightarrow> string \<Rightarrow> string \<Rightarrow> files" where
  \<comment> \<open>\<open>ofstream\<close> with \<open>app | out\<close>: the file is created when it is missing\<close>
  "append_file fs path txt = map_assign fs path (file_content fs path @ txt)"

definition remove_file :: "files \<Rightarrow> string \<Rightarrow> files" where
  "remove_file fs path = map_erase fs path"

definition rename_file :: "files \<Rightarrow> string \<Rightarrow> string \<Rightarrow> files" where
  "rename_file fs old new = (case map_find fs old of None \<Rightarrow> fs
     | Some c \<Rightarrow> map_assign (map_erase fs old) new c)"

definition getMaxNumberOfMessagesInHistory :: "int \<Rightarrow> int" where
  "getMaxNumberOfMessagesInHistory maxMessages =
     (if maxMessages \<le> 0 then DEFAULT_NUMBER_OF_RECORDED_MESSAGES else maxMessages)"

definition message_line :: "message \<Rightarrow> string" where
  "message_line m = m_user m @ [FILE_SEPARATOR] @ m_text m @ [FILE_SEPARATOR] @ to_string (m_time m)"

definition cropToFileHistoryLimit :: "int \<Rightarrow> string \<Rightarrow> bool \<Rightarrow> files \<Rightarrow> files" where
  "cropToFileHistoryLimit maxMessages grp isWrite fs =
     (let lines = getlines LF (file_content fs (groupFile grp));
          n = int (length lines);
          limit = getMaxNumberOfMessagesInHistory maxMessages;
          isWriteDiscount = (if isWrite then 1 else 0)
      in if n > limit then
           let out = concat (map (\<lambda>i. if i > 0 then lines ! nat i @ [LF] else [])
                       [n - (limit - isWriteDiscount)..n - 1]);
               written = append_file fs (tempGroupFile grp) out
           in rename_file (remove_file written (groupFile grp)) (tempGroupFile grp) (groupFile grp)
         else fs)"

definition appendGroupMessageToHistory :: "int \<Rightarrow> message \<Rightarrow> files \<Rightarrow> files" where
  "appendGroupMessageToHistory maxMessages m fs =
     (if m_isNotification m then fs
      else append_file (cropToFileHistoryLimit maxMessages (m_group m) True fs)
             (groupFile (m_group m)) (message_line m @ [LF]))"

definition parse_row :: "string \<Rightarrow> string \<Rightarrow> message option" where
  \<comment> \<open>\<open>parsedRow[0]\<close> to \<open>parsedRow[2]\<close> of a row with fewer cells are past its end\<close>
  "parse_row grp line =
     (let row = getlines FILE_SEPARATOR line
      in if length row < 3 then None
         else Some (Message (row ! 1) (row ! 0) grp (stream_long (row ! 2))))"

fun parse_rows :: "string \<Rightarrow> string list \<Rightarrow> message list option" where
  "parse_rows grp [] = Some []"
| "parse_rows grp (l # ls) = do {
     m \<leftarrow> parse_row grp l;
     ms \<leftarrow> parse_rows grp ls;
     Some (m # ms)
   }"

definition readGroupHistoryMessages :: "int \<Rightarrow> string \<Rightarrow> files \<Rightarrow> (message list \<times> files) option" where
  "readGroupHistoryMessages maxMessages grp fs =
     (let fs' = cropToFileHistoryLimit maxMessages grp False fs
      in map_option (\<lambda>ms. (ms, fs'))
           (parse_rows grp (getlines LF (file_content fs' (groupFile grp)))))"

subsection \<open>Paths\<close>

lemma groupFile_inject [simp]: "groupFile a = groupFile b \<longleftrightarrow> a = b"
  by (simp add: groupFile_def)

lemma groupFile_not_temp [simp]: "groupFile a \<noteq> tempGroupFile b" "tempGroupFile b \<noteq> groupFile a"
proof -
  have "last (groupFile a) = CHR ''v''" "last (tempGroupFile b) = CHR ''p''"
    by (simp_all add: groupFile_def tempGroupFile_def)
  then show "groupFile a \<noteq> tempGroupFile b" "tempGroupFile b \<noteq> groupFile a" by auto
qed

lemma tempGroupFile_inject [simp]: "tempGroupFile a = tempGroupFile b \<longleftrightarrow> a = b"
  by (simp add: tempGroupFile_def)

subsection \<open>One line per message\<close>

text \<open>A message whose fields do not contain the separator or a line break.\<close>

definition storable :: "message \<Rightarrow> bool" where
  "storable m \<longleftrightarrow> \<not> m_isNotification m \<and>
     FILE_SEPARATOR \<notin> set (m_user m) \<and> LF \<notin> set (m_user m) \<and>
     FILE_SEPARATOR \<notin> set (m_text m) \<and> LF \<notin> set (m_text m) \<and>
     - (2 ^ 63) \<le> m_time m \<and> m_time m < 2 ^ 63"

lemma separator_not_in_number: "FILE_SEPARATOR \<notin> set (to_string i)" "LF \<notin> set (to_string i)"
  using to_string_chars [of i] by (auto simp: FILE_SEPARATOR_def is_digit_def)

lemma message_line_no_LF: "storable m \<Longrightarrow> LF \<notin> set (message_line m)"
  using separator_not_in_number by (auto simp: storable_def message_line_def FILE_SEPARATOR_def)

lemma parse_row_message_line:
  assumes "storable m"
  shows "parse_row (m_group m) (message_line m) = Some m"
proof -
  have "getlines FILE_SEPARATOR (message_line m) = [m_user m, m_text m, to_string (m_time m)]"
    using assms by (simp add: storable_def message_line_def getlines_delim getlines_last
        separator_not_in_number)
  moreover have "stream_long (to_string (m_time m)) = m_time m"
    using assms by (intro stream_long_to_string) (simp_all add: storable_def)
  ultimately show ?thesis
    using assms by (simp add: parse_row_def Message_def storable_def)
qed

lemma parse_rows_message_lines:
  "\<forall>m\<in>set ms. storable m \<and> m_group m = grp \<Longrightarrow> parse_rows grp (map message_line ms) = Some ms"
  by (induction ms) (auto dest: parse_row_message_line)

lemma getlines_message_lines:
  "\<forall>m\<in>set ms. storable m \<Longrightarrow> getlines LF (unlines LF (map message_line ms)) = map message_line ms"
  by (intro getlines_unlines) (auto dest: message_line_no_LF)

end
