(* ===== verification/History_Log.thy ===== *)
theory History_Log
  imports History
begin

section \<open>The history file as a bounded log\<close>

text \<open>
  The abstract specification of the history of one group is the list of all messages ever
  appended; a read answers with the last \<open>limit\<close> of them. The file keeps fewer: the relation
  \<open>history_rep\<close> says that it holds the lines of at least the last \<open>limit\<close> messages and of at
  most one more. The locale \<open>history_store\<close> is the contract the groups rely on, and the
  interpretation \<open>csv\<close> discharges it for the file operations of \<open>History\<close>.
\<close>

definition history_limit :: "int \<Rightarrow> nat" where
  "history_limit maxMessages = nat (getMaxNumberOfMessagesInHistory maxMessages)"

lemma history_limit_pos [simp]: "0 < history_limit mx"
  by (simp add: history_limit_def getMaxNumberOfMessagesInHistory_def
      DEFAULT_NUMBER_OF_RECORDED_MESSAGES_def)

lemma getMax_history_limit: "getMaxNumberOfMessagesInHistory mx = int (history_limit mx)"
  by (simp add: history_limit_def getMaxNumberOfMessagesInHistory_def
      DEFAULT_NUMBER_OF_RECORDED_MESSAGES_def)

subsection \<open>What cropping leaves in a file\<close>

lemma crop_output:
  "0 < s \<Longrightarrow> concat (map (\<lambda>i. if i > 0 then lines ! nat i @ [LF] else [])
      [int s..int (length lines) - 1]) = unlines LF (drop s lines)"
proof (induction "length lines - s" arbitrary: s)
  case 0
  then have "[int s..int (length lines) - 1] = []" by simp
  with 0 show ?case by simp
next
  case (Suc k)
  then have s: "s < length lines" by simp
  then have "[int s..int (length lines) - 1] = int s # [int (Suc s)..int (length lines) - 1]"
    by (simp add: upto_rec1 add.commute)
  moreover have "concat (map (\<lambda>i. if i > 0 then lines ! nat i @ [LF] else [])
      [int (Suc s)..int (length lines) - 1]) = unlines LF (drop (Suc s) lines)"
    using Suc.hyps by (intro Suc.hyps(1)) simp_all
  moreover have "drop s lines = lines ! s # drop (Suc s) lines"
    using s by (simp add: Cons_nth_drop_Suc)
  ultimately show ?case using Suc.prems by simp
qed

lemma file_content_crop:
  fixes grp fs
  defines "ls \<equiv> getlines LF (file_content fs (groupFile grp))"
  assumes wf: "map_wf fs" and temp: "file_content fs (tempGroupFile grp) = []"
  shows "file_content (cropToFileHistoryLimit mx grp w fs) (groupFile grp) =
    (if history_limit mx < length ls
     then unlines LF (last_n (history_limit mx - (if w then 1 else 0)) ls)
     else file_content fs (groupFile grp))"
proof (cases "history_limit mx < length ls")
  case True
  let ?d = "if w then 1 else 0 :: nat"
  let ?s = "length ls - (history_limit mx - ?d)"
  have "?d \<le> history_limit mx" by (cases w) (simp_all add: Suc_le_eq)
  then have st: "int (length ls) - (int (history_limit mx) - (if w then 1 else 0)) = int ?s"
    using True by auto
  have "0 < ?s" using True by simp
  then have out: "concat (map (\<lambda>i. if i > 0 then ls ! nat i @ [LF] else [])
      [int (length ls) - (int (history_limit mx) - (if w then 1 else 0))..int (length ls) - 1]) =
      unlines LF (drop ?s ls)"
    by (simp only: st crop_output)
  have len: "int (history_limit mx) < int (length ls)" using True by simp
  show ?thesis
    using True temp wf unfolding cropToFileHistoryLimit_def Let_def getMax_history_limit
      ls_def [symmetric] if_P [OF len] out
    by (simp add: append_file_def remove_file_def rename_file_def file_content_def last_n_def)
next
  case False
  then show ?thesis
    by (simp add: cropToFileHistoryLimit_def Let_def getMax_history_limit ls_def [symmetric])
qed

lemma crop_wf: "map_wf fs \<Longrightarrow> map_wf (cropToFileHistoryLimit mx grp w fs)"
  by (auto simp: cropToFileHistoryLimit_def Let_def append_file_def remove_file_def
      rename_file_def split: option.split)

lemma crop_temp:
  assumes "map_wf fs" and "file_content fs (tempGroupFile grp) = []"
  shows "file_content (cropToFileHistoryLimit mx grp w fs) (tempGroupFile grp) = []"
  using assms
  by (simp add: cropToFileHistoryLimit_def Let_def append_file_def remove_file_def
      rename_file_def file_content_def)

text \<open>Files of other groups are not touched.\<close>

lemma crop_other:
  assumes "map_wf fs" and "path \<noteq> groupFile grp" and "path \<noteq> tempGroupFile grp"
  shows "file_content (cropToFileHistoryLimit mx grp w fs) path = file_content fs path"
  using assms
  by (simp add: cropToFileHistoryLimit_def Let_def append_file_def remove_file_def
      rename_file_def file_content_def)

lemma append_other:
  assumes "map_wf fs" and "path \<noteq> groupFile (m_group m)" and "path \<noteq> tempGroupFile (m_group m)"
  shows "file_content (appendGroupMessageToHistory mx m fs) path = file_content fs path"
  using assms crop_other [OF assms]
  by (simp add: appendGroupMessageToHistory_def append_file_def file_content_def)

subsection \<open>The representation\<close>

definition history_rep :: "int \<Rightarrow> string \<Rightarrow> message list \<Rightarrow> files \<Rightarrow> bool" where
  "history_rep mx grp log fs \<longleftrightarrow>
     map_wf fs \<and> file_content fs (tempGroupFile grp) = [] \<and>
     (\<forall>m\<in>set log. storable m \<and> m_group m = grp) \<and>
     (\<exists>k. (k = history_limit mx \<or> k = Suc (history_limit mx)) \<and>
        file_content fs (groupFile grp) = unlines LF (map message_line (last_n k log)))"

lemma history_rep_lines:
  assumes "history_rep mx grp log fs"
  shows "\<exists>k. (k = history_limit mx \<or> k = Suc (history_limit mx)) \<and>
    getlines LF (file_content fs (groupFile grp)) = map message_line (last_n k log)"
proof -
  obtain k where k: "k = history_limit mx \<or> k = Suc (history_limit mx)"
    "file_content fs (groupFile grp) = unlines LF (map message_line (last_n k log))"
    using assms by (auto simp: history_rep_def)
  have "\<forall>m\<in>set (last_n k log). storable m"
    using assms set_last_n [of k log] by (auto simp: history_rep_def)
  with k show ?thesis by (auto simp: getlines_message_lines)
qed

lemma history_rep_empty:
  "map_wf fs \<Longrightarrow> file_content fs (groupFile grp) = [] \<Longrightarrow>
   file_content fs (tempGroupFile grp) = [] \<Longrightarrow> history_rep mx grp [] fs"
  by (auto simp: history_rep_def)

lemma last_n_limit_Suc:
  "history_limit mx < length (last_n k log) \<Longrightarrow> k = history_limit mx \<or> k = Suc (history_limit mx) \<Longrightarrow>
   k = Suc (history_limit mx)"
  by auto

lemma history_rep_crop_content:
  assumes rep: "history_rep mx grp log fs"
  shows "file_content (cropToFileHistoryLimit mx grp w fs) (groupFile grp) =
    (if history_limit mx < length log \<and>
        getlines LF (file_content fs (groupFile grp)) =
          map message_line (last_n (Suc (history_limit mx)) log)
     then unlines LF (map message_line (last_n (history_limit mx - (if w then 1 else 0)) log))
     else unlines LF (map message_line (last_n (history_limit mx) log)))"
proof -
  let ?N = "history_limit mx"
  let ?ls = "getlines LF (file_content fs (groupFile grp))"
  have wf: "map_wf fs" and temp: "file_content fs (tempGroupFile grp) = []"
    using rep by (simp_all add: history_rep_def)
  obtain k where k: "k = ?N \<or> k = Suc ?N"
      "file_content fs (groupFile grp) = unlines LF (map message_line (last_n k log))"
    using rep by (auto simp: history_rep_def)
  have "\<forall>m\<in>set (last_n k log). storable m"
    using rep set_last_n [of k log] by (auto simp: history_rep_def)
  then have ls: "?ls = map message_line (last_n k log)"
    using k(2) by (simp add: getlines_message_lines)
  show ?thesis
  proof (cases "?N < length ?ls")
    case True
    then have K: "k = Suc ?N" and len: "?N < length log" using k(1) ls by auto
    have "last_n (?N - (if w then 1 else 0)) ?ls =
        map message_line (last_n (?N - (if w then 1 else 0)) log)"
      using K ls by (simp add: last_n_map last_n_last_n)
    with True K len ls show ?thesis
      by (simp add: file_content_crop [OF wf temp])
  next
    case False
    have short: "length (last_n k log) \<le> ?N" using False by (simp only: ls length_map not_less)
    have eq: "last_n k log = last_n ?N log"
      using k(1) short by (cases "length log \<le> ?N") auto
    have neg: "\<not> (?N < length log \<and> ?ls = map message_line (last_n (Suc ?N) log))"
    proof
      assume a: "?N < length log \<and> ?ls = map message_line (last_n (Suc ?N) log)"
      then have "length ?ls = Suc ?N" by simp
      with False show False by simp
    qed
    show ?thesis
      unfolding if_not_P [OF neg] file_content_crop [OF wf temp] if_not_P [OF False]
      using k(2) eq by simp
  qed
qed

text \<open>Cropping for a read leaves exactly the last messages up to the limit.\<close>

lemma history_rep_crop_read:
  assumes "history_rep mx grp log fs"
  shows "file_content (cropToFileHistoryLimit mx grp False fs) (groupFile grp) =
    unlines LF (map message_line (last_n (history_limit mx) log))"
  using history_rep_crop_content [OF assms, of False] by simp

lemma history_rep_append:
  assumes rep: "history_rep mx grp log fs" and m: "storable m" "m_group m = grp"
  shows "history_rep mx grp (log @ [m]) (appendGroupMessageToHistory mx m fs)"
proof -
  let ?N = "history_limit mx"
  let ?fs = "cropToFileHistoryLimit mx grp True fs"
  have wf: "map_wf fs" and temp: "file_content fs (tempGroupFile grp) = []"
    and ok: "\<forall>m\<in>set log. storable m \<and> m_group m = grp"
    using rep by (simp_all add: history_rep_def)
  have ap: "appendGroupMessageToHistory mx m fs =
      append_file ?fs (groupFile grp) (message_line m @ [LF])"
    using m by (simp add: appendGroupMessageToHistory_def storable_def)
  have content: "\<exists>k. (k = ?N \<or> k = Suc ?N) \<and>
      file_content ?fs (groupFile grp) @ message_line m @ [LF] =
      unlines LF (map message_line (last_n k (log @ [m])))"
  proof (cases "?N < length log \<and> getlines LF (file_content fs (groupFile grp)) =
          map message_line (last_n (Suc ?N) log)")
    case True
    have eq: "last_n ?N (log @ [m]) = last_n (?N - 1) log @ [m]"
      using last_n_snoc [of "?N - 1" log m] by (simp add: Suc_diff_Suc)
    have "unlines LF (map message_line (last_n ?N (log @ [m]))) =
        unlines LF (map message_line (last_n (?N - 1) log)) @ message_line m @ [LF]"
      by (simp add: eq)
    moreover have "file_content ?fs (groupFile grp) =
        unlines LF (map message_line (last_n (?N - 1) log))"
      unfolding history_rep_crop_content [OF rep] if_P [OF True] by simp
    ultimately show ?thesis by (intro exI [of _ ?N]) simp
  next
    case False
    have "unlines LF (map message_line (last_n (Suc ?N) (log @ [m]))) =
        unlines LF (map message_line (last_n ?N log)) @ message_line m @ [LF]"
      by (simp add: last_n_snoc [symmetric])
    moreover have "file_content ?fs (groupFile grp) =
        unlines LF (map message_line (last_n ?N log))"
      unfolding history_rep_crop_content [OF rep] if_not_P [OF False] by simp
    ultimately show ?thesis by (intro exI [of _ "Suc ?N"]) simp
  qed
  show ?thesis
    unfolding history_rep_def
  proof (intro conjI)
    show "map_wf (appendGroupMessageToHistory mx m fs)"
      using crop_wf [OF wf] by (simp add: ap append_file_def)
    show "file_content (appendGroupMessageToHistory mx m fs) (tempGroupFile grp) = []"
      using crop_temp [OF wf temp, of mx True] by (simp add: ap append_file_def file_content_def)
    show "\<forall>x\<in>set (log @ [m]). storable x \<and> m_group x = grp" using ok m by simp
    show "\<exists>k. (k = ?N \<or> k = Suc ?N) \<and>
        file_content (appendGroupMessageToHistory mx m fs) (groupFile grp) =
        unlines LF (map message_line (last_n k (log @ [m])))"
      using content by (simp add: ap append_file_def file_content_def)
  qed
qed

lemma history_rep_read:
  assumes rep: "history_rep mx grp log fs"
  shows "\<exists>fs'. readGroupHistoryMessages mx grp fs = Some (last_n (history_limit mx) log, fs') \<and>
    history_rep mx grp log fs'"
proof -
  let ?fs = "cropToFileHistoryLimit mx grp False fs"
  have wf: "map_wf fs" and temp: "file_content fs (tempGroupFile grp) = []"
    and ok: "\<forall>m\<in>set log. storable m \<and> m_group m = grp"
    using rep by (simp_all add: history_rep_def)
  have ok': "\<forall>m\<in>set (last_n (history_limit mx) log). storable m \<and> m_group m = grp"
    using ok set_last_n by fast
  have fc: "file_content ?fs (groupFile grp) =
      unlines LF (map message_line (last_n (history_limit mx) log))"
    by (rule history_rep_crop_read [OF rep])
  then have "readGroupHistoryMessages mx grp fs = Some (last_n (history_limit mx) log, ?fs)"
    using ok' by (simp add: readGroupHistoryMessages_def getlines_message_lines
        parse_rows_message_lines)
  moreover have "history_rep mx grp log ?fs"
    using crop_wf [OF wf] crop_temp [OF wf temp] ok fc by (auto simp: history_rep_def)
  ultimately show ?thesis by blast
qed

subsection \<open>The contract of a history store\<close>

datatype 'm history_op = Append_Msg 'm | Read_History

fun run_history :: "('m \<Rightarrow> 's \<Rightarrow> 's) \<Rightarrow> ('s \<Rightarrow> ('m list \<times> 's) option) \<Rightarrow>
    'm history_op list \<Rightarrow> 's \<Rightarrow> 's option" where
  "run_history app rd [] s = Some s"
| "run_history app rd (Append_Msg m # ops) s = run_history app rd ops (app m s)"
| "run_history app rd (Read_History # ops) s =
     (case rd s of None \<Rightarrow> None | Some (_, s') \<Rightarrow> run_history app rd ops s')"

fun appended :: "'m history_op list \<Rightarrow> 'm list" where
  "appended [] = []"
| "appended (Append_Msg m # ops) = m # appended ops"
| "appended (Read_History # ops) = appended ops"

locale history_store =
  fixes app :: "'m \<Rightarrow> 's \<Rightarrow> 's"
    and rd :: "'s \<Rightarrow> ('m list \<times> 's) option"
    and ok :: "'m \<Rightarrow> bool"
    and rep :: "'m list \<Rightarrow> 's \<Rightarrow> bool"
    and limit :: nat
  assumes append_law: "rep log s \<Longrightarrow> ok m \<Longrightarrow> rep (log @ [m]) (app m s)"
    and read_law: "rep log s \<Longrightarrow> \<exists>s'. rd s = Some (last_n limit log, s') \<and> rep log s'"
begin

lemma run_rep:
  "rep log s \<Longrightarrow> \<forall>m\<in>set (appended ops). ok m \<Longrightarrow>
   \<exists>s'. run_history app rd ops s = Some s' \<and> rep (log @ appended ops) s'"
proof (induction ops arbitrary: log s)
  case Nil
  then show ?case by simp
next
  case (Cons x ops)
  show ?case
  proof (cases x)
    case (Append_Msg m)
    then show ?thesis
      using Cons.IH [of "log @ [m]" "app m s"] append_law Cons.prems by simp
  next
    case Read_History
    then show ?thesis
      using read_law [OF Cons.prems(1)] Cons.IH Cons.prems(2) by fastforce
  qed
qed

lemma read_after_run:
  assumes "rep [] s" and "\<forall>m\<in>set (appended ops). ok m"
  shows "\<exists>s' s''. run_history app rd ops s = Some s' \<and>
    rd s' = Some (last_n limit (appended ops), s'')"
  using run_rep [OF assms] read_law by fastforce

end

interpretation csv: history_store
  "appendGroupMessageToHistory mx" "readGroupHistoryMessages mx grp"
  "\<lambda>m. storable m \<and> m_group m = grp" "history_rep mx grp" "history_limit mx"
  for mx :: int and grp :: string
  by unfold_locales (auto intro: history_rep_append history_rep_read)

end
