(* ===== verification/Packets.thy ===== *)
theory Packets
  imports C_Text "HOL-Library.Word"
begin

section \<open>Packets and identifiers\<close>

text \<open>
  \<open>include/util/Packet.hpp\<close>, the packet types of \<open>definitions.hpp\<close> and \<open>Uuid.cpp\<close>. A packet
  is modelled as the object the code has: fixed byte buffers for the texts, 32-bit integers
  and a 64-bit time. The constructors leave some members unwritten; the storage they are run
  on is the argument \<open>mem\<close>, so every statement about a fresh packet is for any earlier content
  of that storage. The random draws of \<open>generate_uuid_v4\<close> are an argument too. The second
  half of the theory is the image of the structure that \<open>write\<close> and \<open>read\<close> move between
  processes (the layout of the LP64 ABI, padding included).
\<close>

type_synonym c_int = "32 word"
type_synonym c_long = "64 word"

record packet =
  p_status :: c_int
  p_username :: string
  p_user_id :: string
  p_group :: string
  p_message :: string
  p_message_id :: string
  p_clientSocket :: c_int
  p_frontEndAddress :: string
  p_clientDispositiveIdentifier :: c_int
  p_timestamp :: c_long
  p_type :: c_int

definition MESSAGE_PACKET :: c_int where "MESSAGE_PACKET = 0"
definition ACK_PACKET :: c_int where "ACK_PACKET = 1"
definition JOIN_PACKET :: c_int where "JOIN_PACKET = 2"
definition ACCEPT_PACKET :: c_int where "ACCEPT_PACKET = 3"
definition KEEP_ALIVE_PACKET :: c_int where "KEEP_ALIVE_PACKET = 4"
definition CONNECTION_REFUSED_PACKET :: c_int where "CONNECTION_REFUSED_PACKET = 5"
definition DISCONNECT_PACKET :: c_int where "DISCONNECT_PACKET = 6"
definition ELECTION_PACKET :: c_int where "ELECTION_PACKET = 7"
definition REPLICATION_PACKET :: c_int where "REPLICATION_PACKET = 8"
definition REPLICATION_CONFIRMATION_PACKET :: c_int where "REPLICATION_CONFIRMATION_PACKET = 9"

lemmas packet_type_defs =
  MESSAGE_PACKET_def ACK_PACKET_def JOIN_PACKET_def ACCEPT_PACKET_def KEEP_ALIVE_PACKET_def
  CONNECTION_REFUSED_PACKET_def DISCONNECT_PACKET_def ELECTION_PACKET_def
  REPLICATION_PACKET_def REPLICATION_CONFIRMATION_PACKET_def

definition isKeepAlive :: "packet \<Rightarrow> bool" where
  "isKeepAlive p \<longleftrightarrow> p_type p = KEEP_ALIVE_PACKET"

definition isMessage :: "packet \<Rightarrow> bool" where
  "isMessage p \<longleftrightarrow> p_type p = MESSAGE_PACKET"

definition isElection :: "packet \<Rightarrow> bool" where
  "isElection p \<longleftrightarrow> p_type p = ELECTION_PACKET"

definition isDisconnect :: "packet \<Rightarrow> bool" where
  "isDisconnect p \<longleftrightarrow> p_type p = DISCONNECT_PACKET"

definition isAckPacket :: "packet \<Rightarrow> bool" where
  "isAckPacket p \<longleftrightarrow> p_type p = ACK_PACKET"

definition isJoinMessage :: "packet \<Rightarrow> bool" where
  "isJoinMessage p \<longleftrightarrow> p_type p = JOIN_PACKET"

definition isReplicationPacket :: "packet \<Rightarrow> bool" where
  "isReplicationPacket p \<longleftrightarrow> p_type p = REPLICATION_PACKET"

lemmas packet_kind_defs =
  isKeepAlive_def isMessage_def isElection_def isDisconnect_def isAckPacket_def
  isJoinMessage_def isReplicationPacket_def

text \<open>A packet object has buffers of the declared sizes.\<close>

definition packet_sized :: "packet \<Rightarrow> bool" where
  "packet_sized p \<longleftrightarrow>
     length (p_username p) = USERNAME_MAX_SIZE \<and> length (p_user_id p) = UUID_SIZE \<and>
     length (p_group p) = GROUP_MAX_SIZE \<and> length (p_message p) = MESSAGE_MAX_SIZE \<and>
     length (p_message_id p) = UUID_SIZE \<and> length (p_frontEndAddress p) = 100"

subsection \<open>Identifiers\<close>

definition hex_digit :: "nat \<Rightarrow> char" where
  "hex_digit d = (if d < 10 then char_of (48 + d) else char_of (87 + d))"

definition generate_uuid_v4 :: "(nat \<Rightarrow> nat) \<Rightarrow> string" where
  \<comment> \<open>\<open>draw i\<close> is the result of the \<open>i\<close>-th call of a distribution, in program order\<close>
  "generate_uuid_v4 draw =
     map (\<lambda>i. hex_digit (draw i)) [0..<8] @ ''-'' @
     map (\<lambda>i. hex_digit (draw i)) [8..<12] @ ''-4'' @
     map (\<lambda>i. hex_digit (draw i)) [12..<15] @ ''-'' @
     [hex_digit (draw 15)] @
     map (\<lambda>i. hex_digit (draw i)) [16..<19] @ ''-'' @
     map (\<lambda>i. hex_digit (draw i)) [19..<31]"

definition uuid_draws :: "(nat \<Rightarrow> nat) \<Rightarrow> bool" where
  \<comment> \<open>the ranges of \<open>uniform_int_distribution dis(0, 15)\<close> and \<open>dis2(8, 11)\<close>\<close>
  "uuid_draws draw \<longleftrightarrow> (\<forall>i<31. draw i \<le> 15) \<and> 8 \<le> draw 15 \<and> draw 15 \<le> 11"

lemma of_char_hex_digit:
  "d \<le> 15 \<Longrightarrow> of_char (hex_digit d) = (if d < 10 then 48 + d else 87 + d)"
  by (simp add: hex_digit_def)

lemma hex_digit_not_NUL: "d \<le> 15 \<Longrightarrow> hex_digit d \<noteq> NUL"
  using of_char_hex_digit [of d] by (auto split: if_splits)

lemma length_generate_uuid_v4 [simp]: "length (generate_uuid_v4 draw) = 36"
  by (simp add: generate_uuid_v4_def)

lemma uuid_chunk_no_NUL:
  assumes "uuid_draws draw" and "b \<le> 31"
  shows "NUL \<notin> set (map (\<lambda>i. hex_digit (draw i)) [a..<b])"
proof
  assume "NUL \<in> set (map (\<lambda>i. hex_digit (draw i)) [a..<b])"
  then obtain i where i: "i < b" "hex_digit (draw i) = NUL" by auto
  then have "draw i \<le> 15" using assms by (simp add: uuid_draws_def)
  with i(2) show False using hex_digit_not_NUL by blast
qed

lemma generate_uuid_v4_no_NUL:
  assumes "uuid_draws draw"
  shows "NUL \<notin> set (generate_uuid_v4 draw)"
proof -
  note chunk = uuid_chunk_no_NUL [OF assms]
  have "hex_digit (draw 15) \<noteq> NUL"
    using assms hex_digit_not_NUL [of "draw 15"] by (simp add: uuid_draws_def)
  then show ?thesis
    using chunk [of 8 0] chunk [of 12 8] chunk [of 15 12] chunk [of 19 16] chunk [of 31 19]
    unfolding generate_uuid_v4_def set_append Un_iff by auto
qed

subsection \<open>Constructors\<close>

definition Packet_default :: "packet \<Rightarrow> packet" where
  "Packet_default mem = mem\<lparr>p_type := MESSAGE_PACKET\<rparr>"

definition Packet_of_type :: "packet \<Rightarrow> string \<Rightarrow> c_int \<Rightarrow> packet option" where
  "Packet_of_type mem uuid type = do {
     mid \<leftarrow> strcpy (p_message_id mem) uuid;
     Some (mem\<lparr>p_type := type, p_message_id := mid\<rparr>)
   }"

definition Packet_for_user :: "packet \<Rightarrow> string \<Rightarrow> c_int \<Rightarrow> string \<Rightarrow> packet option" where
  "Packet_for_user mem uuid type userId = do {
     mid \<leftarrow> strcpy (p_message_id mem) uuid;
     uid \<leftarrow> strcpy (p_user_id mem) userId;
     Some (mem\<lparr>p_type := type, p_message_id := mid, p_user_id := uid,
               p_clientDispositiveIdentifier := 17389\<rparr>)
   }"

definition Packet_text :: "packet \<Rightarrow> string \<Rightarrow> string \<Rightarrow> string \<Rightarrow> string \<Rightarrow> c_long \<Rightarrow> packet option" where
  "Packet_text mem uuid username grp message timestamp = do {
     mid \<leftarrow> strcpy (p_message_id mem) uuid;
     Some (mem\<lparr>p_status := 1440,
               p_username := strncpy (p_username mem) username (USERNAME_MAX_SIZE - 1),
               p_group := strncpy (p_group mem) grp (GROUP_MAX_SIZE - 1),
               p_message := strncpy (p_message mem) message (MESSAGE_MAX_SIZE - 1),
               p_timestamp := timestamp, p_message_id := mid\<rparr>)
   }"

definition Packet_full ::
    "packet \<Rightarrow> string \<Rightarrow> string \<Rightarrow> string \<Rightarrow> string \<Rightarrow> c_long \<Rightarrow> string \<Rightarrow> c_int \<Rightarrow> packet option" where
  "Packet_full mem uuid username grp message timestamp userId packetType = do {
     mid \<leftarrow> strcpy (p_message_id mem) uuid;
     uid \<leftarrow> strcpy (p_user_id mem) userId;
     Some (mem\<lparr>p_status := 1440,
               p_username := strncpy (p_username mem) username (USERNAME_MAX_SIZE - 1),
               p_group := strncpy (p_group mem) grp (GROUP_MAX_SIZE - 1),
               p_message := strncpy (p_message mem) message (MESSAGE_MAX_SIZE - 1),
               p_timestamp := timestamp, p_message_id := mid, p_user_id := uid,
               p_clientDispositiveIdentifier := 17389, p_type := packetType\<rparr>)
   }"

definition Packet_device ::
    "packet \<Rightarrow> string \<Rightarrow> string \<Rightarrow> string \<Rightarrow> c_int \<Rightarrow> c_long \<Rightarrow> packet" where
  "Packet_device mem username grp message device timestamp =
     mem\<lparr>p_status := 1440,
         p_username := strncpy (p_username mem) username (USERNAME_MAX_SIZE - 1),
         p_group := strncpy (p_group mem) grp (GROUP_MAX_SIZE - 1),
         p_message := strncpy (p_message mem) message (MESSAGE_MAX_SIZE - 1),
         p_clientDispositiveIdentifier := device, p_timestamp := timestamp\<rparr>"

lemmas constructor_defs =
  Packet_default_def Packet_of_type_def Packet_for_user_def Packet_text_def Packet_full_def
  Packet_device_def

lemma Packet_full_sized:
  "Packet_full mem uuid u g m t uid ty = Some p \<Longrightarrow> packet_sized mem \<Longrightarrow> packet_sized p"
  by (auto simp: Packet_full_def packet_sized_def bind_iff length_strcpy size_defs)

lemma Packet_full_defined:
  assumes "packet_sized mem" and "length uuid < UUID_SIZE" and "length uid < UUID_SIZE"
  shows "\<exists>p. Packet_full mem uuid u g m t uid ty = Some p"
proof -
  obtain a where a: "strcpy (p_message_id mem) uuid = Some a"
    using assms(1,2) strcpy_fits by (metis packet_sized_def)
  obtain b where b: "strcpy (p_user_id mem) uid = Some b"
    using assms(1,3) strcpy_fits by (metis packet_sized_def)
  show ?thesis by (simp add: Packet_full_def a b)
qed

lemma Packet_of_type_defined:
  assumes "packet_sized mem" and "length uuid < UUID_SIZE"
  shows "\<exists>p. Packet_of_type mem uuid ty = Some p \<and> packet_sized p \<and> p_type p = ty"
proof -
  obtain a where a: "strcpy (p_message_id mem) uuid = Some a"
    using assms strcpy_fits by (metis packet_sized_def)
  then show ?thesis
    using assms(1) length_strcpy [OF a] by (simp add: Packet_of_type_def packet_sized_def)
qed

lemma Packet_default_sized [simp]: "packet_sized (Packet_default mem) = packet_sized mem"
  by (simp add: Packet_default_def packet_sized_def)

text \<open>
  What the texts of a packet built from C strings read as. The last byte of each buffer is
  left as it was, so a text that fills all but the last byte needs that byte to be NUL already.
\<close>

lemma Packet_full_username:
  assumes "Packet_full mem uuid u g m t uid ty = Some p" and "NUL \<notin> set u"
    and "length u < USERNAME_MAX_SIZE - 1"
  shows "c_str (p_username p) = Some u"
  using assms by (auto simp: Packet_full_def bind_iff intro: c_str_strncpy_short)

lemma Packet_full_group:
  assumes "Packet_full mem uuid u g m t uid ty = Some p" and "NUL \<notin> set g"
    and "length g < GROUP_MAX_SIZE - 1"
  shows "c_str (p_group p) = Some g"
  using assms by (auto simp: Packet_full_def bind_iff intro: c_str_strncpy_short)

lemma Packet_full_message:
  assumes "Packet_full mem uuid u g m t uid ty = Some p" and "NUL \<notin> set m"
    and "length m < MESSAGE_MAX_SIZE - 1"
  shows "c_str (p_message p) = Some m"
  using assms by (auto simp: Packet_full_def bind_iff intro: c_str_strncpy_short)

lemma Packet_full_user_id:
  assumes "Packet_full mem uuid u g m t uid ty = Some p" and "NUL \<notin> set uid"
  shows "c_str (p_user_id p) = Some uid"
  using assms by (auto simp: Packet_full_def bind_iff intro: c_str_strcpy)

subsection \<open>The image of a packet in memory\<close>

fun le_bytes :: "nat \<Rightarrow> nat \<Rightarrow> string" where
  "le_bytes 0 k = []"
| "le_bytes (Suc n) k = char_of (k mod 256) # le_bytes n (k div 256)"

fun le_val :: "string \<Rightarrow> nat" where
  "le_val [] = 0"
| "le_val (b # bs) = of_char b + 256 * le_val bs"

lemma length_le_bytes [simp]: "length (le_bytes n k) = n"
  by (induction n arbitrary: k) auto

lemma le_val_le_bytes: "le_val (le_bytes n k) = k mod 256 ^ n"
proof (induction n arbitrary: k)
  case 0
  then show ?case by simp
next
  case (Suc n)
  have "le_val (le_bytes (Suc n) k) = k mod 256 + 256 * (k div 256 mod 256 ^ n)"
    by (simp add: Suc)
  also have "\<dots> = k mod (256 * 256 ^ n)" by (simp add: mod_mult2_eq)
  finally show ?case by simp
qed

definition put_int :: "c_int \<Rightarrow> string" where
  "put_int w = le_bytes 4 (unat w)"

definition put_long :: "c_long \<Rightarrow> string" where
  "put_long w = le_bytes 8 (unat w)"

definition get_int :: "string \<Rightarrow> c_int" where
  "get_int bs = word_of_nat (le_val bs)"

definition get_long :: "string \<Rightarrow> c_long" where
  "get_long bs = word_of_nat (le_val bs)"

lemma length_put [simp]: "length (put_int w) = 4" "length (put_long v) = 8"
  by (simp_all add: put_int_def put_long_def)

lemma get_put_int [simp]: "get_int (put_int w) = w"
proof -
  have "unat w < 256 ^ 4" using unsigned_less [of w, where ?'a = nat] by simp
  then show ?thesis by (simp add: get_int_def put_int_def le_val_le_bytes)
qed

lemma get_put_long [simp]: "get_long (put_long w) = w"
proof -
  have "unat w < 256 ^ 8" using unsigned_less [of w, where ?'a = nat] by simp
  then show ?thesis by (simp add: get_long_def put_long_def le_val_le_bytes)
qed

definition packetSize :: nat where
  \<comment> \<open>\<open>sizeof(Packet)\<close>: members at their offsets, padded to a multiple of 8\<close>
  "packetSize = 504"

definition packet_image :: "string \<Rightarrow> packet \<Rightarrow> string" where
  \<comment> \<open>\<open>pad\<close> is the content of the 3 + 4 + 4 padding bytes\<close>
  "packet_image pad p =
     put_int (p_status p) @ p_username p @ p_user_id p @ p_group p @ p_message p @
     p_message_id p @ take 3 pad @ put_int (p_clientSocket p) @ p_frontEndAddress p @
     put_int (p_clientDispositiveIdentifier p) @ take 4 (drop 3 pad) @
     put_long (p_timestamp p) @ put_int (p_type p) @ take 4 (drop 7 pad)"

definition bytes_at :: "string \<Rightarrow> nat \<Rightarrow> nat \<Rightarrow> string" where
  "bytes_at bs off n = take n (drop off bs)"

definition image_packet :: "string \<Rightarrow> packet" where
  "image_packet bs =
     \<lparr>p_status = get_int (bytes_at bs 0 4), p_username = bytes_at bs 4 20,
      p_user_id = bytes_at bs 24 37, p_group = bytes_at bs 61 20,
      p_message = bytes_at bs 81 255, p_message_id = bytes_at bs 336 37,
      p_clientSocket = get_int (bytes_at bs 376 4), p_frontEndAddress = bytes_at bs 380 100,
      p_clientDispositiveIdentifier = get_int (bytes_at bs 480 4),
      p_timestamp = get_long (bytes_at bs 488 8), p_type = get_int (bytes_at bs 496 4)\<rparr>"

lemma length_packet_image:
  "packet_sized p \<Longrightarrow> length pad = 11 \<Longrightarrow> length (packet_image pad p) = packetSize"
  by (simp add: packet_image_def packet_sized_def packetSize_def size_defs)

lemma bytes_at_skip:
  "length a \<le> off \<Longrightarrow> bytes_at (a @ b) off n = bytes_at b (off - length a) n"
  by (simp add: bytes_at_def)

lemma bytes_at_here: "length a = n \<Longrightarrow> bytes_at (a @ b) 0 n = a"
  by (simp add: bytes_at_def)

lemma bytes_at_end: "length a = n \<Longrightarrow> bytes_at a 0 n = a"
  by (simp add: bytes_at_def)

lemma image_packet_image:
  assumes "packet_sized p" and "length pad = 11"
  shows "image_packet (packet_image pad p) = p"
  using assms
  by (simp add: image_packet_def packet_image_def packet_sized_def size_defs
      bytes_at_skip bytes_at_here bytes_at_end)

end
