(* ===== verification/Delivery.thy ===== *)
theory Delivery
  imports History_Log Packets
begin

section \<open>Address book and message delivery\<close>

text \<open>
  \<open>src/server/FeAddressBook.cpp\<close> and \<open>src/server/server_message_manager.cpp\<close>: from the
  address of a front end to its socket, and from a message to packets on sockets. The record
  \<open>world\<close> is what the objects of one server process share: the files, the address book, the
  packets handed to \<open>sendPacket\<close> so far with their sockets, and the flag
  \<open>Server::isPrimaryServer\<close>. The record \<open>env\<close> is what one activation of a handler takes
  from outside: the earlier content of the storage its packets are built in, the identifier
  that \<open>generate_uuid_v4\<close> returns to it, and the time.
\<close>

record world =
  w_files :: files
  w_book :: "(string, socket) cmap"
  w_sent :: "(socket \<times> packet) list"
  w_primary :: bool

record env =
  e_mem :: packet
  e_uuid :: string
  e_now :: timestamp
  e_int :: int  \<comment> \<open>an \<open>int\<close> member no constructor has written\<close>

definition env_ok :: "env \<Rightarrow> bool" where
  "env_ok e \<longleftrightarrow> packet_sized (e_mem e) \<and> length (e_uuid e) = 36 \<and> NUL \<notin> set (e_uuid e)"

subsection \<open>FeAddressBook\<close>

definition getInternalSocketId ::
    "(string, socket) cmap \<Rightarrow> string \<Rightarrow> socket \<times> (string, socket) cmap" where
  "getInternalSocketId book feAddress = map_index 0 book feAddress"

definition registryAddressSocket ::
    "(string, socket) cmap \<Rightarrow> string \<Rightarrow> socket \<Rightarrow> (string, socket) cmap" where
  "registryAddressSocket book feAddress socketId = map_assign book feAddress socketId"

definition removeServerSocket ::
    "(string, socket) cmap \<Rightarrow> string \<Rightarrow> (string, socket) cmap" where
  "removeServerSocket book feAddress = map_erase book feAddress"

definition socket_of :: "(string, socket) cmap \<Rightarrow> string \<Rightarrow> socket" where
  "socket_of book feAddress = (case map_find book feAddress of Some s \<Rightarrow> s | None \<Rightarrow> 0)"

lemma getInternalSocketId_value [simp]: "fst (getInternalSocketId book f) = socket_of book f"
  by (simp add: getInternalSocketId_def socket_of_def map_index_value)

lemma getInternalSocketId_keeps [simp]:
  "socket_of (snd (getInternalSocketId book f)) = socket_of book"
  by (rule ext) (simp add: getInternalSocketId_def socket_of_def map_index_def split: option.split)

lemma socket_of_registry:
  "socket_of (registryAddressSocket book f s) = (socket_of book)(f := s)"
  by (rule ext) (simp add: registryAddressSocket_def socket_of_def)

lemma socket_of_remove:
  "map_wf book \<Longrightarrow> socket_of (removeServerSocket book f) = (socket_of book)(f := 0)"
  by (rule ext) (simp add: removeServerSocket_def socket_of_def)

subsection \<open>ServerMessageManager\<close>

definition emit :: "socket \<Rightarrow> packet \<Rightarrow> world \<Rightarrow> world" where
  "emit sock p w = w\<lparr>w_sent := w_sent w @ [(sock, p)]\<rparr>"

definition getSocketFromAddress :: "string \<Rightarrow> world \<Rightarrow> socket \<times> world" where
  "getSocketFromAddress feAddress w =
     (let (s, book) = getInternalSocketId (w_book w) feAddress in (s, w\<lparr>w_book := book\<rparr>))"

definition message_packet :: "env \<Rightarrow> message \<Rightarrow> string \<Rightarrow> packet option" where
  "message_packet e m clientID =
     Packet_full (e_mem e) (e_uuid e) (m_user m) (m_group m) (m_text m)
       (word_of_int (m_time m)) clientID MESSAGE_PACKET"

definition sendMessageToSocketId :: "env \<Rightarrow> message \<Rightarrow> string \<Rightarrow> socket \<Rightarrow> world \<Rightarrow> world option" where
  "sendMessageToSocketId e m clientID feSocket w = do {
     p \<leftarrow> message_packet e m clientID;
     Some (emit feSocket p w)
   }"

definition sendMessageToSession :: "env \<Rightarrow> message \<Rightarrow> string \<Rightarrow> string \<Rightarrow> world \<Rightarrow> world option" where
  "sendMessageToSession e m clientID feAddress w =
     (let (s, w') = getSocketFromAddress feAddress w
      in do { p \<leftarrow> message_packet e m clientID; Some (emit s p w') })"

definition sendMessageToAddress :: "env \<Rightarrow> message \<Rightarrow> string \<Rightarrow> string \<Rightarrow> world \<Rightarrow> world option" where
  "sendMessageToAddress e m clientID feAddress w =
     (let (s, w') = getSocketFromAddress feAddress w in sendMessageToSocketId e m clientID s w')"

definition sendPacketToSocketId :: "packet \<Rightarrow> string \<Rightarrow> world \<Rightarrow> world" where
  "sendPacketToSocketId p feAddress w =
     (let (s, w') = getSocketFromAddress feAddress w in emit s p w')"

definition broadcastMessageToUsers :: "env \<Rightarrow> message \<Rightarrow> session list \<Rightarrow> world \<Rightarrow> world option" where
  "broadcastMessageToUsers e m connectionIds =
     foldM (\<lambda>(clientID, feAddress). sendMessageToSession e m clientID feAddress) connectionIds"

subsection \<open>What delivery changes\<close>

text \<open>
  Sending only appends to the packets sent and may add unknown addresses with socket 0 to the
  address book; the socket every address resolves to stays the same.
\<close>

definition sends_only :: "(socket \<times> packet) list \<Rightarrow> world \<Rightarrow> world \<Rightarrow> bool" where
  "sends_only out w w' \<longleftrightarrow>
     w_files w' = w_files w \<and> w_primary w' = w_primary w \<and>
     w_sent w' = w_sent w @ out \<and> socket_of (w_book w') = socket_of (w_book w) \<and>
     (map_wf (w_book w) \<longrightarrow> map_wf (w_book w'))"

lemma sends_only_refl: "sends_only [] w w"
  by (simp add: sends_only_def)

lemma sends_only_trans:
  "sends_only xs w w' \<Longrightarrow> sends_only ys w' w'' \<Longrightarrow> sends_only (xs @ ys) w w''"
  by (auto simp: sends_only_def)

lemma getSocketFromAddress_char:
  "\<exists>w'. getSocketFromAddress f w = (socket_of (w_book w) f, w') \<and> sends_only [] w w'"
proof -
  have "map_wf (w_book w) \<longrightarrow> map_wf (snd (getInternalSocketId (w_book w) f))"
    by (simp add: getInternalSocketId_def)
  then show ?thesis
    by (simp add: getSocketFromAddress_def sends_only_def case_prod_beta Let_def)
qed

lemma sends_only_emit: "sends_only [] w w' \<Longrightarrow> sends_only [(s, p)] w (emit s p w')"
  by (simp add: sends_only_def emit_def)

lemma message_packet_defined:
  assumes "env_ok e" and "length c < UUID_SIZE"
  shows "\<exists>p. message_packet e m c = Some p"
  using Packet_full_defined [of "e_mem e" "e_uuid e" c] assms
  by (simp add: message_packet_def env_ok_def UUID_SIZE_def)

lemma sendPacketToSocketId_char:
  "sends_only [(socket_of (w_book w) f, p)] w (sendPacketToSocketId p f w)"
proof -
  obtain w' where "getSocketFromAddress f w = (socket_of (w_book w) f, w')" "sends_only [] w w'"
    using getSocketFromAddress_char by blast
  then show ?thesis by (simp add: sendPacketToSocketId_def sends_only_emit)
qed

lemma sendMessageToSession_char:
  assumes "message_packet e m c = Some p"
  shows "\<exists>w'. sendMessageToSession e m c f w = Some w' \<and>
    sends_only [(socket_of (w_book w) f, p)] w w'"
proof -
  obtain w' where "getSocketFromAddress f w = (socket_of (w_book w) f, w')" "sends_only [] w w'"
    using getSocketFromAddress_char by blast
  then show ?thesis using assms by (simp add: sendMessageToSession_def sends_only_emit)
qed

lemma sendMessageToAddress_eq: "sendMessageToAddress = sendMessageToSession"
  by (intro ext) (simp add: sendMessageToAddress_def sendMessageToSession_def
      sendMessageToSocketId_def)

subsection \<open>The contract of a courier\<close>

text \<open>
  Groups send in two loops: a message to every connection, and every message of the history to
  one connection. Both only need that a single send hands the packet for its client to the
  socket of its front end; the lemma about a whole loop is proved once, over any list of sends.
\<close>

locale courier =
  fixes send :: "'m \<Rightarrow> string \<Rightarrow> string \<Rightarrow> world \<Rightarrow> world option"
    and pkt :: "'m \<Rightarrow> string \<Rightarrow> packet option"
  assumes send_law: "pkt m c = Some p \<Longrightarrow>
    \<exists>w'. send m c f w = Some w' \<and> sends_only [(socket_of (w_book w) f, p)] w w'"
begin

lemma send_list:
  assumes "\<forall>x\<in>set xs. pkt (msg x) (client x) = Some (p x)"
  shows "\<exists>w'. foldM (\<lambda>x. send (msg x) (client x) (addr x)) xs w = Some w' \<and>
    sends_only (map (\<lambda>x. (socket_of (w_book w) (addr x), p x)) xs) w w'"
  using assms
proof (induction xs arbitrary: w)
  case Nil
  then show ?case by (simp add: sends_only_refl)
next
  case (Cons x xs)
  obtain w1 where w1: "send (msg x) (client x) (addr x) w = Some w1"
      "sends_only [(socket_of (w_book w) (addr x), p x)] w w1"
    using send_law Cons.prems by fastforce
  obtain w2 where w2: "foldM (\<lambda>x. send (msg x) (client x) (addr x)) xs w1 = Some w2"
      "sends_only (map (\<lambda>x. (socket_of (w_book w1) (addr x), p x)) xs) w1 w2"
    using Cons.IH [of w1] Cons.prems by auto
  have same: "socket_of (w_book w1) = socket_of (w_book w)"
    using w1(2) by (simp add: sends_only_def)
  show ?case
    using w1(1) w2(1) sends_only_trans [OF w1(2) w2(2) [unfolded same]] by simp
qed

end

interpretation direct: courier "sendMessageToSession e" "message_packet e" for e :: env
  by unfold_locales (rule sendMessageToSession_char)

text \<open>The packets a broadcast sends: one per connection, in order, each to the connection's front end.\<close>

definition broadcast_packets :: "env \<Rightarrow> message \<Rightarrow> (string, socket) cmap \<Rightarrow> session list \<Rightarrow>
    (socket \<times> packet) list" where
  "broadcast_packets e m book conns =
     map (\<lambda>x. (socket_of book (snd x), the (message_packet e m (fst x)))) conns"

lemma broadcast_char:
  assumes "env_ok e" and "\<forall>x\<in>set conns. length (fst x) < UUID_SIZE"
  shows "\<exists>w'. broadcastMessageToUsers e m conns w = Some w' \<and>
    sends_only (broadcast_packets e m (w_book w) conns) w w'"
proof -
  have "\<forall>x\<in>set conns. message_packet e m (fst x) = Some (the (message_packet e m (fst x)))"
    using message_packet_defined [OF assms(1)] assms(2) by force
  from direct.send_list [of conns e "\<lambda>_. m" fst, OF this] show ?thesis
    unfolding broadcastMessageToUsers_def broadcast_packets_def case_prod_beta' by blast
qed

end
