(* ===== verification/Chat_Groups.thy ===== *)
theory Chat_Groups
  imports Delivery
begin

section \<open>Groups\<close>

text \<open>
  \<open>src/server/Group.cpp\<close>: the users of one group with their sessions, the queue of messages
  to deliver, and the mutex by which a producer wakes the consumer thread. The list of user
  pointers is a list of users, a pointer is an index into it. The parts of \<open>Server\<close> a group
  uses (\<open>isPrimaryServer\<close>, the connection counts passed by reference) are arguments. What the
  consumer thread does with one message and with the whole queue is here; how it interleaves
  with the producers is theory \<open>Handoff\<close>.
\<close>

record chat_group =
  g_groupName :: string
  g_users :: "user list"
  g_messages_queue :: "message list"
  g_maxMessages :: int  \<comment> \<open>of the group's \<open>fsManager\<close>\<close>
  g_consumer_locked :: bool  \<comment> \<open>\<open>mutex_consumer_producer\<close>\<close>

type_synonym counts = "(string, int) cmap"

definition Group :: "int \<Rightarrow> string \<Rightarrow> chat_group" where
  \<comment> \<open>\<open>mem\<close> is what the new \<open>fsManager\<close> holds before it is configured\<close>
  "Group mem name = \<lparr>g_groupName = name, g_users = [], g_messages_queue = [],
     g_maxMessages = mem, g_consumer_locked = True\<rparr>"

definition configureGroup :: "int \<Rightarrow> chat_group \<Rightarrow> chat_group" where
  "configureGroup maxMessages g = g\<lparr>g_maxMessages := maxMessages\<rparr>"

definition addMessageToMessageQueue :: "message \<Rightarrow> chat_group \<Rightarrow> chat_group" where
  "addMessageToMessageQueue m g =
     g\<lparr>g_messages_queue := g_messages_queue g @ [m], g_consumer_locked := False\<rparr>"

definition sendActivityMessage :: "timestamp \<Rightarrow> string \<Rightarrow> string \<Rightarrow> chat_group \<Rightarrow> chat_group" where
  "sendActivityMessage now userName actionText g =
     addMessageToMessageQueue
       (setIsNotification (Message actionText userName (g_groupName g) now) True) g"

definition processReceivedMessage :: "timestamp \<Rightarrow> string \<Rightarrow> string \<Rightarrow> chat_group \<Rightarrow> chat_group" where
  "processReceivedMessage now userName text g =
     addMessageToMessageQueue (Message text userName (g_groupName g) now) g"

definition getAllActiveConnectionIds :: "chat_group \<Rightarrow> session list" where
  "getAllActiveConnectionIds g = concat (map getActiveConnections (g_users g))"

definition getUserFromConnectionId :: "string \<Rightarrow> string \<Rightarrow> chat_group \<Rightarrow> nat option" where
  "getUserFromConnectionId clientID feAddress g =
     find_index (\<lambda>u. (clientID, feAddress) \<in> set (getActiveConnections u)) (g_users g)"

subsection \<open>Joining\<close>

definition sendAcceptToUser :: "env \<Rightarrow> string \<Rightarrow> string \<Rightarrow> world \<Rightarrow> world option" where
  "sendAcceptToUser e clientID feAddress w =
     (let pack = (Packet_default (e_mem e))\<lparr>p_type := ACCEPT_PACKET\<rparr>
      in do {
        uid \<leftarrow> strcpy (p_user_id pack) clientID;
        Some (sendPacketToSocketId (pack\<lparr>p_user_id := uid\<rparr>) feAddress w)
      })"

definition sendHistoryToUser :: "env \<Rightarrow> string \<Rightarrow> string \<Rightarrow> chat_group \<Rightarrow> world \<Rightarrow> world option" where
  "sendHistoryToUser e clientID feAddress g w = do {
     (messages, fs) \<leftarrow> readGroupHistoryMessages (g_maxMessages g) (g_groupName g) (w_files w);
     foldM (\<lambda>m. sendMessageToAddress e (setIsNotification m True) clientID feAddress) messages
       (w\<lparr>w_files := fs\<rparr>)
   }"

definition registerNewSession ::
    "env \<Rightarrow> string \<Rightarrow> string \<Rightarrow> string \<Rightarrow> chat_group \<times> world \<Rightarrow> (int \<times> chat_group \<times> world) option" where
  "registerNewSession e clientID feAddress userName st =
     (let (g, w) = st in do {
        w' \<leftarrow> (if w_primary w
               then Option.bind (sendAcceptToUser e clientID feAddress w)
                      (sendHistoryToUser e clientID feAddress g)
               else Some w);
        let (i, g') = (case find_index (\<lambda>u. u_username u = userName) (g_users g) of
            Some i \<Rightarrow> (i, g)
          | None \<Rightarrow> (length (g_users g),
              (let g1 = g\<lparr>g_users := g_users g @ [User userName]\<rparr>
               in if w_primary w then sendActivityMessage (e_now e) userName JOINED_MESSAGE g1
                  else g1)));
        let (result, u) = registerSession (g_users g' ! i) clientID feAddress;
        Some (result, g'\<lparr>g_users := (g_users g')[i := u]\<rparr>, w')
      })"

subsection \<open>Leaving\<close>

definition disconnectSession ::
    "bool \<Rightarrow> timestamp \<Rightarrow> string \<Rightarrow> string \<Rightarrow> chat_group \<times> counts \<Rightarrow> (chat_group \<times> counts) option" where
  "disconnectSession primary now clientID feAddress st =
     (let (g, numberOfConnectionsByUser) = st in
      case getUserFromConnectionId clientID feAddress g of
        None \<Rightarrow> Some (g, numberOfConnectionsByUser)
      | Some i \<Rightarrow>
          (let u = g_users g ! i;
               n = fst (map_index 0 numberOfConnectionsByUser (u_username u));
               counts' = map_assign numberOfConnectionsByUser (u_username u) (n - 1)
           in do {
             u' \<leftarrow> releaseSession u clientID feAddress;
             let g1 = g\<lparr>g_users := (g_users g)[i := u']\<rparr>;
             if length (getActiveConnections u') < 1
             then (let g2 = (if primary
                             then sendActivityMessage now (u_username u') LEFT_GROUP_MESSAGE g1
                             else g1)
                   in Some (g2\<lparr>g_users := remove_nth i (g_users g2)\<rparr>, counts'))
             else Some (g1, counts')
           }))"

text \<open>
  \<open>FE_DISCONNECT\<close> points into a temporary string that no longer exists, so what a read of it
  gives is an argument: \<open>fe_tag\<close> is the value of that read when the handler compares.
\<close>

definition handleDisconnectEvent ::
    "string \<Rightarrow> bool \<Rightarrow> timestamp \<Rightarrow> string \<Rightarrow> string \<Rightarrow> chat_group \<times> counts \<Rightarrow>
     (chat_group \<times> counts) option" where
  "handleDisconnectEvent fe_tag primary now clientID feAddress st =
     (let allActiveSockets = getAllActiveConnectionIds (fst st) in
      if clientID = fe_tag
      then foldM (\<lambda>conn st. if snd conn = feAddress
                            then disconnectSession primary now (fst conn) feAddress st
                            else Some st) allActiveSockets st
      else disconnectSession primary now clientID feAddress st)"

subsection \<open>The consumer thread\<close>

definition consumeMessage :: "env \<Rightarrow> message \<Rightarrow> chat_group \<Rightarrow> world \<Rightarrow> world option" where
  \<comment> \<open>what the thread does with the message it has popped\<close>
  "consumeMessage e m g w =
     (let w' = w\<lparr>w_files := appendGroupMessageToHistory (g_maxMessages g) m (w_files w)\<rparr>
      in if w_primary w' then broadcastMessageToUsers e m (getAllActiveConnectionIds g) w'
         else Some w')"

fun consume_loop :: "env \<Rightarrow> message list \<Rightarrow> chat_group \<Rightarrow> world \<Rightarrow> (chat_group \<times> world) option" where
  "consume_loop e [] g w = Some (g\<lparr>g_messages_queue := []\<rparr>, w)"
| "consume_loop e (m # ms) g w = do {
     w' \<leftarrow> consumeMessage e m (g\<lparr>g_messages_queue := ms\<rparr>) w;
     consume_loop e ms (g\<lparr>g_messages_queue := ms\<rparr>) w'
   }"

definition consumeMessageQueue :: "env \<Rightarrow> chat_group \<times> world \<Rightarrow> (chat_group \<times> world) option" where
  \<comment> \<open>one round of the thread: it locks the mutex when it can, and empties the queue\<close>
  "consumeMessageQueue e st =
     (let (g, w) = st in
      if g_consumer_locked g then Some (g, w)
      else consume_loop e (g_messages_queue g) (g\<lparr>g_consumer_locked := True\<rparr>) w)"

lemmas group_defs =
  configureGroup_def addMessageToMessageQueue_def sendActivityMessage_def
  processReceivedMessage_def

subsection \<open>Sessions of a group\<close>

text \<open>The sessions of a user in a list of users, and the invariant of a group.\<close>

definition sessions_in :: "string \<Rightarrow> user list \<Rightarrow> nat" where
  "sessions_in name us =
     sum_list (map (\<lambda>u. if u_username u = name then length (u_clientIdentifiers u) else 0) us)"

definition user_ok :: "user \<Rightarrow> bool" where
  "user_ok u \<longleftrightarrow> u_clientIdentifiers u \<noteq> [] \<and>
     length (u_clientIdentifiers u) \<le> MAX_NUMBER_OF_SIMULTANEOUS_CONNECTIONS \<and>
     (\<forall>s\<in>set (u_clientIdentifiers u). length (fst s) < UUID_SIZE \<and> fst s \<noteq> snd s)"

definition group_ok :: "chat_group \<Rightarrow> bool" where
  "group_ok g \<longleftrightarrow> distinct (map u_username (g_users g)) \<and> (\<forall>u\<in>set (g_users g). user_ok u)"

lemma sessions_in_simps [simp]:
  "sessions_in name [] = 0"
  "sessions_in name (u # us) =
     (if u_username u = name then length (u_clientIdentifiers u) else 0) + sessions_in name us"
  "sessions_in name (us @ vs) = sessions_in name us + sessions_in name vs"
  by (simp_all add: sessions_in_def)

lemma sessions_in_other: "name \<notin> u_username ` set us \<Longrightarrow> sessions_in name us = 0"
  by (induction us) auto

lemma group_ok_Group [simp]: "group_ok (Group mem name)"
  by (simp add: group_ok_def Group_def)

lemma group_ok_configure [simp]: "group_ok (configureGroup mx g) = group_ok g"
  by (simp add: group_ok_def configureGroup_def)

lemma addMessage_users [simp]:
  "g_users (addMessageToMessageQueue m g) = g_users g"
  "g_groupName (addMessageToMessageQueue m g) = g_groupName g"
  "g_maxMessages (addMessageToMessageQueue m g) = g_maxMessages g"
  "g_messages_queue (addMessageToMessageQueue m g) = g_messages_queue g @ [m]"
  by (simp_all add: addMessageToMessageQueue_def)

lemma sendActivity_users [simp]:
  "g_users (sendActivityMessage now n a g) = g_users g"
  "g_groupName (sendActivityMessage now n a g) = g_groupName g"
  "g_maxMessages (sendActivityMessage now n a g) = g_maxMessages g"
  by (simp_all add: sendActivityMessage_def)

lemma processReceivedMessage_users [simp]:
  "g_users (processReceivedMessage now n t g) = g_users g"
  "g_groupName (processReceivedMessage now n t g) = g_groupName g"
  by (simp_all add: processReceivedMessage_def)

end
