(* ===== verification/Group_Sessions.thy ===== *)
theory Group_Sessions
  imports Chat_Groups
begin

section \<open>What joining and leaving do to the sessions of a group\<close>

text \<open>
  Lemmas on \<open>registerNewSession\<close>, \<open>disconnectSession\<close> and \<open>handleDisconnectEvent\<close>: the
  effect on the list of active connections, on the number of sessions of each user and on the
  connection counts of the server, the group invariant, and when the operations are defined.
  The server's accounting (theory \<open>Server_State\<close>) rests on them.
\<close>

abbreviation conns :: "chat_group \<Rightarrow> session list" where
  "conns g \<equiv> getAllActiveConnectionIds g"

definition count_of :: "counts \<Rightarrow> string \<Rightarrow> int" where
  "count_of cs name = (case map_find cs name of None \<Rightarrow> 0 | Some n \<Rightarrow> n)"

lemma count_of_assign [simp]: "count_of (map_assign cs k v) n = (if n = k then v else count_of cs n)"
  by (simp add: count_of_def)

lemma map_index_count [simp]: "fst (map_index 0 cs k) = count_of cs k"
  by (simp add: map_index_value count_of_def)

lemma conns_users: "conns g = concat (map u_clientIdentifiers (g_users g))"
  by (simp add: getAllActiveConnectionIds_def getActiveConnections_def cong: map_cong)

lemma in_conns_iff: "s \<in> set (conns g) \<longleftrightarrow> (\<exists>u\<in>set (g_users g). s \<in> set (u_clientIdentifiers u))"
  by (simp add: conns_users)

lemma group_okD:
  assumes "group_ok g" and "u \<in> set (g_users g)"
  shows "u_clientIdentifiers u \<noteq> []" "length (u_clientIdentifiers u) \<le> 2"
    "\<And>s. s \<in> set (u_clientIdentifiers u) \<Longrightarrow> length (fst s) < UUID_SIZE \<and> fst s \<noteq> snd s"
  using assms by (auto simp: group_ok_def user_ok_def MAX_NUMBER_OF_SIMULTANEOUS_CONNECTIONS_def)

lemma group_ok_conns:
  assumes "group_ok g" and "s \<in> set (conns g)"
  shows "length (fst s) < UUID_SIZE" "fst s \<noteq> snd s"
proof -
  obtain u where u: "u \<in> set (g_users g)" "s \<in> set (u_clientIdentifiers u)"
    using assms(2) by (auto simp: in_conns_iff)
  show "length (fst s) < UUID_SIZE" "fst s \<noteq> snd s"
    using group_okD(3) [OF assms(1) u] by auto
qed

subsection \<open>Joining\<close>

text \<open>The list of users after a session has been added, as a function of the list before.\<close>

definition add_session :: "string \<Rightarrow> session \<Rightarrow> user list \<Rightarrow> user list" where
  "add_session name s us =
     (case find_index (\<lambda>u. u_username u = name) us of
        Some i \<Rightarrow> us[i := (us ! i)\<lparr>u_clientIdentifiers := u_clientIdentifiers (us ! i) @ [s]\<rparr>]
      | None \<Rightarrow> us @ [\<lparr>u_username = name, u_clientIdentifiers = [s]\<rparr>])"

lemma sessions_in_update:
  "i < length us \<Longrightarrow> u_username v = u_username (us ! i) \<Longrightarrow>
   int (sessions_in n (us[i := v])) = int (sessions_in n us) +
     (if u_username v = n
      then int (length (u_clientIdentifiers v)) - int (length (u_clientIdentifiers (us ! i))) else 0)"
proof -
  assume i: "i < length us" and nm: "u_username v = u_username (us ! i)"
  have us: "us = take i us @ us ! i # drop (Suc i) us" using i by (simp add: id_take_nth_drop)
  have up: "us[i := v] = take i us @ v # drop (Suc i) us" using i by (simp add: upd_conv_take_nth_drop)
  have "sessions_in n us = sessions_in n (take i us) + sessions_in n (us ! i # drop (Suc i) us)"
    by (subst us) simp
  then show ?thesis using nm up by simp
qed

lemma sessions_in_add_session:
  "sessions_in n (add_session name s us) = sessions_in n us + (if n = name then 1 else 0)"
proof (cases "find_index (\<lambda>u. u_username u = name) us")
  case None
  then show ?thesis by (simp add: add_session_def)
next
  case (Some i)
  then have i: "i < length us" and nm: "u_username (us ! i) = name"
    using find_index_SomeD [OF Some] by auto
  have "int (sessions_in n (add_session name s us)) =
      int (sessions_in n us) + (if n = name then 1 else 0)"
    using Some nm by (simp add: add_session_def sessions_in_update [OF i])
  then show ?thesis by (auto split: if_splits)
qed

lemma sessions_in_member:
  "u \<in> set us \<Longrightarrow> u_username u = name \<Longrightarrow> length (u_clientIdentifiers u) \<le> sessions_in name us"
  by (induction us) auto

lemma sessions_in_distinct:
  "distinct (map u_username us) \<Longrightarrow> u \<in> set us \<Longrightarrow>
   sessions_in (u_username u) us = length (u_clientIdentifiers u)"
proof (induction us)
  case Nil
  then show ?case by simp
next
  case (Cons v us)
  show ?case
  proof (cases "u = v")
    case True
    with Cons.prems have "sessions_in (u_username u) us = 0" by (intro sessions_in_other) auto
    with True show ?thesis by simp
  next
    case False
    with Cons.prems have "u \<in> set us" by simp
    moreover have "u_username v \<noteq> u_username u" using Cons.prems calculation by force
    ultimately show ?thesis using Cons by simp
  qed
qed

lemma add_session_ok:
  assumes ok: "distinct (map u_username us)" "\<forall>u\<in>set us. user_ok u"
    and room: "sessions_in name us < MAX_NUMBER_OF_SIMULTANEOUS_CONNECTIONS"
    and s: "length (fst s) < UUID_SIZE" "fst s \<noteq> snd s"
  shows "distinct (map u_username (add_session name s us)) \<and>
    (\<forall>u\<in>set (add_session name s us). user_ok u)"
proof (cases "find_index (\<lambda>u. u_username u = name) us")
  case None
  then have "name \<notin> u_username ` set us" by (auto simp: find_index_None_iff)
  with None show ?thesis
    using ok s
    by (auto simp: add_session_def user_ok_def MAX_NUMBER_OF_SIMULTANEOUS_CONNECTIONS_def)
next
  case (Some i)
  then have i: "i < length us" and nm: "u_username (us ! i) = name"
    using find_index_SomeD [OF Some] by auto
  let ?v = "(us ! i)\<lparr>u_clientIdentifiers := u_clientIdentifiers (us ! i) @ [s]\<rparr>"
  have "map u_username (us[i := ?v]) = map u_username us"
    using i list_update_id [of "map u_username us" i] by (simp add: map_update)
  moreover have "user_ok (us ! i)" using ok(2) i by simp
  then have "user_ok ?v"
    using room s sessions_in_member [of "us ! i" us name] i nm
    by (auto simp: user_ok_def)
  ultimately show ?thesis
    using ok Some by (auto simp: add_session_def dest!: set_update_subset_insert [THEN subsetD])
qed

lemma registerNewSession_users:
  assumes "registerNewSession e c f name (g, w) = Some (r, g', w')"
    and ok: "group_ok g"
    and room: "sessions_in name (g_users g) < MAX_NUMBER_OF_SIMULTANEOUS_CONNECTIONS"
  shows "r = 0 \<and> g_users g' = add_session name (c, f) (g_users g) \<and>
    g_groupName g' = g_groupName g \<and> g_maxMessages g' = g_maxMessages g"
proof (cases "find_index (\<lambda>u. u_username u = name) (g_users g)")
  case None
  then show ?thesis
    using assms(1)
    by (auto simp: registerNewSession_def Let_def add_session_def bind_iff registerSession_def
        MAX_NUMBER_OF_SIMULTANEOUS_CONNECTIONS_def User_def case_prod_beta split: if_splits)
next
  case (Some i)
  then have i: "i < length (g_users g)" and nm: "u_username (g_users g ! i) = name"
    using find_index_SomeD [OF Some] by auto
  have "length (u_clientIdentifiers (g_users g ! i)) < MAX_NUMBER_OF_SIMULTANEOUS_CONNECTIONS"
    using room sessions_in_member [of "g_users g ! i" "g_users g" name] i nm by simp
  with Some show ?thesis
    using assms(1)
    by (auto simp: registerNewSession_def Let_def add_session_def bind_iff registerSession_def
        case_prod_beta split: if_splits)
qed

subsection \<open>Leaving\<close>

text \<open>
  A disconnection that is defined removes exactly one occurrence of the connection, from the
  first user that has it, and lowers that user's count by one.
\<close>

lemma disconnectSession_cases:
  assumes "disconnectSession primary now c f (g, cs) = Some (g', cs')" and "c \<noteq> f"
  obtains (absent) "(c, f) \<notin> set (conns g)" "g' = g" "cs' = cs"
  | (removed) A u xs B where "g_users g = A @ u # B"
      "\<forall>v\<in>set A. (c, f) \<notin> set (u_clientIdentifiers v)"
      "u_clientIdentifiers u = xs @ [(c, f)]" "c \<notin> fst ` set xs"
      "g_users g' = A @ (if xs = [] then [] else [u\<lparr>u_clientIdentifiers := xs\<rparr>]) @ B"
      "cs' = map_assign cs (u_username u) (count_of cs (u_username u) - 1)"
      "g_groupName g' = g_groupName g" "g_maxMessages g' = g_maxMessages g"
proof (cases "getUserFromConnectionId c f g")
  case None
  then have "(c, f) \<notin> set (conns g)"
    by (auto simp: getUserFromConnectionId_def getActiveConnections_def find_index_None_iff in_conns_iff)
  moreover have "g' = g" "cs' = cs" using assms(1) None by (simp_all add: disconnectSession_def)
  ultimately show ?thesis by (rule absent)
next
  case (Some i)
  then obtain A u B where us: "g_users g = A @ u # B" "length A = i"
      "(c, f) \<in> set (u_clientIdentifiers u)"
      "\<forall>v\<in>set A. (c, f) \<notin> set (u_clientIdentifiers v)"
    unfolding getUserFromConnectionId_def getActiveConnections_def
    by (auto dest!: find_index_split)
  have i: "i = length A" using us(2) by simp
  have nth: "g_users g ! length A = u" using us(1) by simp
  have upd: "(g_users g)[length A := v] = A @ v # B" for v using us(1) by simp
  have owner: "getUserFromConnectionId c f g = Some (length A)" using Some i by simp
  obtain u' where rel: "releaseSession u c f = Some u'"
    using assms(1) by (cases "releaseSession u c f")
      (simp_all add: disconnectSession_def owner nth Let_def)
  have nb: "c \<notin> fst ` set (butlast (u_clientIdentifiers u))"
    using rel releaseSession_defined_iff [OF assms(2), of u] by blast
  define xs where "xs = butlast (u_clientIdentifiers u)"
  have ne: "u_clientIdentifiers u \<noteq> []" using us(3) by auto
  then have split: "u_clientIdentifiers u = xs @ [last (u_clientIdentifiers u)]"
    by (simp add: xs_def)
  have "(c, f) \<notin> set xs" using nb by (force simp: xs_def)
  then have lst: "u_clientIdentifiers u = xs @ [(c, f)]"
    using us(3) split by (metis UnE set_append singletonD list.set(1,2))
  have u': "u' = u\<lparr>u_clientIdentifiers := xs\<rparr>"
    using releaseSession_newest [OF assms(2) lst] nb rel by (simp add: xs_def)
  have result: "disconnectSession primary now c f (g, cs) =
     (let g1 = g\<lparr>g_users := A @ u' # B\<rparr>;
          cs1 = map_assign cs (u_username u) (count_of cs (u_username u) - 1)
      in if xs = []
         then Some ((if primary then sendActivityMessage now (u_username u') LEFT_GROUP_MESSAGE g1
                     else g1)\<lparr>g_users := A @ B\<rparr>, cs1)
         else Some (g1, cs1))"
    by (simp add: disconnectSession_def owner nth rel Let_def upd u' getActiveConnections_def)
  have "g_users g' = A @ (if xs = [] then [] else [u\<lparr>u_clientIdentifiers := xs\<rparr>]) @ B"
    "cs' = map_assign cs (u_username u) (count_of cs (u_username u) - 1)"
    "g_groupName g' = g_groupName g" "g_maxMessages g' = g_maxMessages g"
    using assms(1) unfolding result Let_def by (auto simp: u' split: if_splits)
  moreover have "c \<notin> fst ` set xs" using nb unfolding xs_def .
  ultimately show ?thesis using us(1,4) lst by (intro removed)
qed

lemma disconnectSession_conns:
  assumes "disconnectSession primary now c f (g, cs) = Some (g', cs')" and "c \<noteq> f"
  shows "conns g' = remove1 (c, f) (conns g)"
  using assms
proof (cases rule: disconnectSession_cases)
  case absent
  then show ?thesis by (simp add: remove1_idem)
next
  case (removed A u xs B)
  have A: "(c, f) \<notin> set (concat (map u_clientIdentifiers A))" using removed(2) by auto
  have xs: "(c, f) \<notin> set xs" using removed(4) by force
  have "conns g = (concat (map u_clientIdentifiers A) @ xs) @ (c, f) # concat (map u_clientIdentifiers B)"
    using removed(1,3) by (simp add: conns_users)
  moreover have "conns g' = (concat (map u_clientIdentifiers A) @ xs) @ concat (map u_clientIdentifiers B)"
    using removed(5) by (simp add: conns_users)
  ultimately show ?thesis using A xs by (simp add: remove1_append)
qed

text \<open>The count of a user moves with the number of his sessions.\<close>

lemma disconnectSession_balance:
  assumes "disconnectSession primary now c f (g, cs) = Some (g', cs')" and "c \<noteq> f"
  shows "count_of cs' n - int (sessions_in n (g_users g')) =
    count_of cs n - int (sessions_in n (g_users g))"
  using assms
proof (cases rule: disconnectSession_cases)
  case absent
  then show ?thesis by simp
next
  case (removed A u xs B)
  then show ?thesis by (cases "xs = []") auto
qed

lemma disconnectSession_keeps:
  assumes "disconnectSession primary now c f (g, cs) = Some (g', cs')" and "c \<noteq> f"
  shows "(group_ok g \<longrightarrow> group_ok g') \<and> g_groupName g' = g_groupName g \<and>
    g_maxMessages g' = g_maxMessages g \<and> (map_wf cs \<longrightarrow> map_wf cs')"
  using assms
proof (cases rule: disconnectSession_cases)
  case absent
  then show ?thesis by simp
next
  case (removed A u xs B)
  have "group_ok g \<Longrightarrow> group_ok g'"
    using removed(1,3,5) by (cases "xs = []") (auto simp: group_ok_def user_ok_def)
  then show ?thesis using removed(6-8) by simp
qed

text \<open>No user gains a session from a disconnection.\<close>

lemma disconnectSession_le:
  assumes "disconnectSession primary now c f (g, cs) = Some (g', cs')" and "c \<noteq> f"
  shows "sessions_in n (g_users g') \<le> sessions_in n (g_users g)"
  using assms
proof (cases rule: disconnectSession_cases)
  case absent
  then show ?thesis by simp
next
  case (removed A u xs B)
  then show ?thesis by (cases "xs = []") auto
qed

text \<open>When a disconnection is defined.\<close>

lemma disconnectSession_defined_iff:
  assumes "c \<noteq> f"
  shows "(\<exists>st. disconnectSession primary now c f (g, cs) = Some st) \<longleftrightarrow>
    (\<forall>i. getUserFromConnectionId c f g = Some i \<longrightarrow>
       c \<notin> fst ` set (butlast (u_clientIdentifiers (g_users g ! i))))"
proof (cases "getUserFromConnectionId c f g")
  case None
  then show ?thesis by (simp add: disconnectSession_def)
next
  case (Some i)
  have "(\<exists>st. disconnectSession primary now c f (g, cs) = Some st) \<longleftrightarrow>
      (\<exists>u'. releaseSession (g_users g ! i) c f = Some u')"
    using Some by (cases "releaseSession (g_users g ! i) c f")
      (simp_all add: disconnectSession_def Let_def)
  then show ?thesis using Some releaseSession_defined_iff [OF assms] by simp
qed

text \<open>With one session per user in the group every disconnection is defined.\<close>

definition single_sessions :: "chat_group \<Rightarrow> bool" where
  "single_sessions g \<longleftrightarrow> (\<forall>u\<in>set (g_users g). length (u_clientIdentifiers u) \<le> 1)"

lemma disconnectSession_single:
  assumes "single_sessions g" and "c \<noteq> f"
  shows "\<exists>g' cs'. disconnectSession primary now c f (g, cs) = Some (g', cs') \<and> single_sessions g'"
proof -
  have "\<exists>st. disconnectSession primary now c f (g, cs) = Some st"
    unfolding disconnectSession_defined_iff [OF assms(2)]
  proof (intro allI impI)
    fix i assume "getUserFromConnectionId c f g = Some i"
    then have "i < length (g_users g)"
      by (auto simp: getUserFromConnectionId_def dest: find_index_SomeD)
    then have "length (u_clientIdentifiers (g_users g ! i)) \<le> 1"
      using assms(1) by (simp add: single_sessions_def)
    then have "butlast (u_clientIdentifiers (g_users g ! i)) = []"
      by (cases "u_clientIdentifiers (g_users g ! i)") auto
    then show "c \<notin> fst ` set (butlast (u_clientIdentifiers (g_users g ! i)))" by simp
  qed
  then obtain g' cs' where d: "disconnectSession primary now c f (g, cs) = Some (g', cs')" by auto
  from d assms(2) have "single_sessions g'"
  proof (cases rule: disconnectSession_cases)
    case absent
    then show ?thesis using assms(1) by simp
  next
    case (removed A u xs B)
    then show ?thesis using assms(1) by (cases "xs = []") (auto simp: single_sessions_def)
  qed
  with d show ?thesis by blast
qed

subsection \<open>A whole disconnect event\<close>

definition fe_sweep :: "bool \<Rightarrow> timestamp \<Rightarrow> string \<Rightarrow> session list \<Rightarrow> chat_group \<times> counts \<Rightarrow>
    (chat_group \<times> counts) option" where
  "fe_sweep primary now f =
     foldM (\<lambda>conn st. if snd conn = f then disconnectSession primary now (fst conn) f st else Some st)"

lemma handleDisconnectEvent_eq:
  "handleDisconnectEvent tag primary now c f (g, cs) =
     (if c = tag then fe_sweep primary now f (conns g) (g, cs)
      else disconnectSession primary now c f (g, cs))"
  by (simp add: handleDisconnectEvent_def fe_sweep_def)

lemma fe_sweep_conns:
  assumes "fe_sweep primary now f L (g, cs) = Some (g', cs')"
    and "\<forall>s\<in>set L. fst s \<noteq> snd s"
  shows "conns g' = fold remove1 (filter (\<lambda>s. snd s = f) L) (conns g)"
  using assms
proof (induction L arbitrary: g cs)
  case Nil
  then show ?case by (simp add: fe_sweep_def)
next
  case (Cons s L)
  obtain g1 cs1 where st: "(if snd s = f then disconnectSession primary now (fst s) f (g, cs)
      else Some (g, cs)) = Some (g1, cs1)" and rest: "fe_sweep primary now f L (g1, cs1) = Some (g', cs')"
    using Cons.prems(1) by (auto simp: fe_sweep_def bind_iff)
  have IH: "conns g' = fold remove1 (filter (\<lambda>s. snd s = f) L) (conns g1)"
    using Cons.IH [OF rest] Cons.prems(2) by simp
  show ?case
  proof (cases "snd s = f")
    case True
    then have "conns g1 = remove1 s (conns g)"
      using disconnectSession_conns [of primary now "fst s" f g cs g1 cs1] st Cons.prems(2) by force
    with IH True show ?thesis by simp
  next
    case False
    with st IH show ?thesis by simp
  qed
qed

lemma fold_remove1_skip:
  "x \<notin> set ys \<Longrightarrow> fold remove1 ys (x # xs) = x # fold remove1 ys xs"
  by (induction ys arbitrary: xs) auto

lemma fold_remove1_filter: "fold remove1 (filter P xs) xs = filter (\<lambda>x. \<not> P x) xs"
  by (induction xs) (auto simp: fold_remove1_skip)

lemma fe_sweep_invariant:
  assumes "fe_sweep primary now f L (g, cs) = Some (g', cs')"
    and "\<forall>s\<in>set L. fst s \<noteq> snd s"
  shows "(group_ok g \<longrightarrow> group_ok g') \<and> g_groupName g' = g_groupName g \<and>
    g_maxMessages g' = g_maxMessages g \<and> (map_wf cs \<longrightarrow> map_wf cs') \<and>
    (\<forall>n. count_of cs' n - int (sessions_in n (g_users g')) =
         count_of cs n - int (sessions_in n (g_users g)))"
  using assms
proof (induction L arbitrary: g cs)
  case Nil
  then show ?case by (simp add: fe_sweep_def)
next
  case (Cons s L)
  obtain g1 cs1 where st: "(if snd s = f then disconnectSession primary now (fst s) f (g, cs)
      else Some (g, cs)) = Some (g1, cs1)" and rest: "fe_sweep primary now f L (g1, cs1) = Some (g', cs')"
    using Cons.prems(1) by (auto simp: fe_sweep_def bind_iff)
  note IH = Cons.IH [OF rest]
  show ?case
  proof (cases "snd s = f")
    case True
    then have d: "disconnectSession primary now (fst s) f (g, cs) = Some (g1, cs1)" and "fst s \<noteq> f"
      using st Cons.prems(2) by auto
    then show ?thesis
      using IH disconnectSession_keeps [OF d] disconnectSession_balance [OF d] Cons.prems(2) by simp
  next
    case False
    with st IH Cons.prems(2) show ?thesis by simp
  qed
qed

lemma fe_sweep_le:
  assumes "fe_sweep primary now f L st = Some st'" and "\<forall>s\<in>set L. fst s \<noteq> snd s"
  shows "sessions_in n (g_users (fst st')) \<le> sessions_in n (g_users (fst st))"
  using assms(1) unfolding fe_sweep_def
proof (rule foldM_invariant)
  fix x t t'
  assume x: "x \<in> set L" and le: "sessions_in n (g_users (fst t)) \<le> sessions_in n (g_users (fst st))"
    and step: "(if snd x = f then disconnectSession primary now (fst x) f t else Some t) = Some t'"
  have ne: "fst x \<noteq> snd x" using assms(2) x by blast
  show "sessions_in n (g_users (fst t')) \<le> sessions_in n (g_users (fst st))"
  proof (cases "snd x = f")
    case True
    then have "sessions_in n (g_users (fst t')) \<le> sessions_in n (g_users (fst t))"
      using disconnectSession_le [of primary now "fst x" f "fst t" "snd t" "fst t'" "snd t'"] step ne
      by simp
    with le show ?thesis by simp
  next
    case False
    with step le show ?thesis by simp
  qed
qed simp

lemma fe_sweep_single:
  assumes "single_sessions g" and "\<forall>s\<in>set L. fst s \<noteq> snd s"
  shows "\<exists>g' cs'. fe_sweep primary now f L (g, cs) = Some (g', cs') \<and> single_sessions g'"
proof -
  have "\<exists>st. fe_sweep primary now f L (g, cs) = Some st \<and> single_sessions (fst st)"
    unfolding fe_sweep_def
  proof (rule foldM_progress)
    fix x :: session and st :: "chat_group \<times> counts"
    assume "x \<in> set L" and "single_sessions (fst st)"
    then show "\<exists>s'. (if snd x = f then disconnectSession primary now (fst x) f st else Some st) =
        Some s' \<and> single_sessions (fst s')"
      using disconnectSession_single [of "fst st" "fst x" f primary now "snd st"] assms(2)
      by (cases st) force
  qed (use assms(1) in simp)
  then show ?thesis by auto
qed

text \<open>The four facts about an event the server needs, for both kinds of event.\<close>

lemma handleDisconnectEvent_conns:
  assumes "handleDisconnectEvent tag primary now c f (g, cs) = Some (g', cs')"
    and "group_ok g" and "c \<noteq> f"
  shows "conns g' = (if c = tag then filter (\<lambda>s. snd s \<noteq> f) (conns g) else remove1 (c, f) (conns g))"
  using assms fe_sweep_conns [of primary now f "conns g" g cs g' cs'] group_ok_conns [of g]
    disconnectSession_conns [of primary now c f g cs g' cs']
  by (auto simp: handleDisconnectEvent_eq fold_remove1_filter split: if_splits)

lemma handleDisconnectEvent_invariant:
  assumes "handleDisconnectEvent tag primary now c f (g, cs) = Some (g', cs')"
    and "group_ok g" and "c \<noteq> f"
  shows "group_ok g' \<and> g_groupName g' = g_groupName g \<and> g_maxMessages g' = g_maxMessages g \<and>
    (map_wf cs \<longrightarrow> map_wf cs') \<and>
    (\<forall>n. count_of cs' n - int (sessions_in n (g_users g')) =
         count_of cs n - int (sessions_in n (g_users g)))"
proof (cases "c = tag")
  case True
  then show ?thesis
    using fe_sweep_invariant [of primary now f "conns g" g cs g' cs'] assms group_ok_conns [of g]
    by (auto simp: handleDisconnectEvent_eq)
next
  case False
  then have d: "disconnectSession primary now c f (g, cs) = Some (g', cs')"
    using assms(1) by (simp add: handleDisconnectEvent_eq)
  show ?thesis
    using disconnectSession_keeps [OF d assms(3)] disconnectSession_balance [OF d assms(3)] assms(2)
    by simp
qed

lemma handleDisconnectEvent_le:
  assumes "handleDisconnectEvent tag primary now c f (g, cs) = Some (g', cs')"
    and "group_ok g" and "c \<noteq> f"
  shows "sessions_in n (g_users g') \<le> sessions_in n (g_users g)"
  using fe_sweep_le [of primary now f "conns g" "(g, cs)" "(g', cs')" n] group_ok_conns [of g]
    disconnectSession_le [of primary now c f g cs g' cs' n] assms
  by (auto simp: handleDisconnectEvent_eq split: if_splits)

lemma handleDisconnectEvent_single:
  assumes "single_sessions g" and "group_ok g" and "c \<noteq> f"
  shows "\<exists>g' cs'. handleDisconnectEvent tag primary now c f (g, cs) = Some (g', cs') \<and>
    single_sessions g'"
  using fe_sweep_single [of g "conns g"] disconnectSession_single [of g c f] group_ok_conns [of g] assms
  by (simp add: handleDisconnectEvent_eq)

end
