(* ===== verification/Group_Manager.thy ===== *)
theory Group_Manager
  imports Group_Sessions
begin

section \<open>The group manager\<close>

text \<open>
  \<open>src/server/server_group_manager.cpp\<close>: the table of groups, from which every call of the
  server is routed. The map holds pointers to groups; as nothing else holds them, the group
  itself is the map's value here, and an operation on a group stores it back.
\<close>

record manager =
  gm_groupMap :: "(string, chat_group) cmap"
  gm_maxMessages :: int

definition ServerGroupManager :: "int \<Rightarrow> manager" where
  \<comment> \<open>the constructor does not write \<open>maxNumberOfMessagesOnHistory\<close>: \<open>mem\<close> is what it holds\<close>
  "ServerGroupManager mem = \<lparr>gm_groupMap = [], gm_maxMessages = mem\<rparr>"

definition configureFileSystemManager :: "int \<Rightarrow> manager \<Rightarrow> manager" where
  "configureFileSystemManager maxMessages m = m\<lparr>gm_maxMessages := maxMessages\<rparr>"

definition groupExists :: "manager \<Rightarrow> string \<Rightarrow> bool" where
  "groupExists m groupName \<longleftrightarrow> map_find (gm_groupMap m) groupName \<noteq> None"

definition registerUserToGroup ::
    "env \<Rightarrow> session \<Rightarrow> string \<Rightarrow> string \<Rightarrow> manager \<times> world \<Rightarrow> (int \<times> manager \<times> world) option" where
  "registerUserToGroup e clientIdentifier username groupName st =
     (let (m, w) = st;
          groups = (if \<not> groupExists m groupName
                    then map_assign (gm_groupMap m) groupName
                           (configureGroup (gm_maxMessages m) (Group (e_int e) groupName))
                    else gm_groupMap m)
      in do {
        g \<leftarrow> map_find groups groupName;
        (result, g', w') \<leftarrow>
          registerNewSession e (fst clientIdentifier) (snd clientIdentifier) username (g, w);
        Some (result, m\<lparr>gm_groupMap := map_assign groups groupName g'\<rparr>, w')
      })"

definition processReceivedPacket :: "timestamp \<Rightarrow> packet \<Rightarrow> manager \<Rightarrow> manager option" where
  "processReceivedPacket now p m = do {
     groupName \<leftarrow> c_str (p_group p);
     case map_find (gm_groupMap m) groupName of
       None \<Rightarrow> Some m
     | Some g \<Rightarrow> do {
         username \<leftarrow> c_str (p_username p);
         text \<leftarrow> c_str (p_message p);
         Some (m\<lparr>gm_groupMap := map_assign (gm_groupMap m) groupName
                   (processReceivedMessage now username text g)\<rparr>)
       }
   }"

fun propagate_loop ::
    "string \<Rightarrow> bool \<Rightarrow> timestamp \<Rightarrow> session \<Rightarrow> (string, chat_group) cmap \<Rightarrow> counts \<Rightarrow>
     ((string, chat_group) cmap \<times> counts) option" where
  "propagate_loop fe_tag primary now connectionId [] cs = Some ([], cs)"
| "propagate_loop fe_tag primary now connectionId ((k, g) # groups) cs = do {
     (g', cs') \<leftarrow> handleDisconnectEvent fe_tag primary now (fst connectionId) (snd connectionId) (g, cs);
     (groups', cs'') \<leftarrow> propagate_loop fe_tag primary now connectionId groups cs';
     Some ((k, g') # groups', cs'')
   }"

definition propagateSocketDisconnectionEvent ::
    "string \<Rightarrow> bool \<Rightarrow> timestamp \<Rightarrow> session \<Rightarrow> manager \<times> counts \<Rightarrow> (manager \<times> counts) option" where
  "propagateSocketDisconnectionEvent fe_tag primary now connectionId st =
     (let (m, cs) = st in do {
        (groups, cs') \<leftarrow> propagate_loop fe_tag primary now connectionId (gm_groupMap m) cs;
        Some (m\<lparr>gm_groupMap := groups\<rparr>, cs')
      })"

subsection \<open>All groups together\<close>

definition total_sessions :: "string \<Rightarrow> (string, chat_group) cmap \<Rightarrow> nat" where
  "total_sessions name groups = sum_list (map (\<lambda>e. sessions_in name (g_users (snd e))) groups)"

definition groups_ok :: "(string, chat_group) cmap \<Rightarrow> bool" where
  "groups_ok groups \<longleftrightarrow> map_wf groups \<and>
     (\<forall>e\<in>set groups. group_ok (snd e) \<and> g_groupName (snd e) = fst e)"

definition all_conns :: "(string, chat_group) cmap \<Rightarrow> session list" where
  "all_conns groups = concat (map (\<lambda>e. conns (snd e)) groups)"

lemma total_sessions_simps [simp]:
  "total_sessions n [] = 0"
  "total_sessions n (e # groups) = sessions_in n (g_users (snd e)) + total_sessions n groups"
  by (simp_all add: total_sessions_def)

lemma all_conns_simps [simp]:
  "all_conns [] = []"
  "all_conns (e # groups) = conns (snd e) @ all_conns groups"
  by (simp_all add: all_conns_def)

lemma groups_ok_Nil [simp]: "groups_ok []"
  by (simp add: groups_ok_def)

lemma groups_ok_find:
  "groups_ok groups \<Longrightarrow> map_find groups k = Some g \<Longrightarrow> group_ok g \<and> g_groupName g = k"
  using map_find_in_set [of groups k g] by (force simp: groups_ok_def)

lemma groups_ok_assign:
  assumes "groups_ok groups" and "group_ok g" and "g_groupName g = k"
  shows "groups_ok (map_assign groups k g)"
proof -
  have "set (map_assign groups k g) \<subseteq> insert (k, g) (set groups)"
    by (induction groups k g rule: map_assign.induct) auto
  then show ?thesis using assms by (auto simp: groups_ok_def)
qed

lemma total_sessions_assign:
  assumes "map_wf groups"
  shows "int (total_sessions n (map_assign groups k g)) = int (total_sessions n groups) +
    int (sessions_in n (g_users g)) -
    (case map_find groups k of None \<Rightarrow> 0 | Some g0 \<Rightarrow> int (sessions_in n (g_users g0)))"
  using assms
proof (induction groups k g rule: map_assign.induct)
  case (1 k v)
  then show ?case by simp
next
  case (2 k' v' m k v)
  then have "map_find m k = None" if "k < k'"
    using that by (force simp: map_find_None_iff map_wf_Cons)
  with 2 show ?case by (auto simp: map_wf_Cons)
qed

lemma total_sessions_find:
  "map_find groups k = Some g \<Longrightarrow> sessions_in n (g_users g) \<le> total_sessions n groups"
  by (induction groups k rule: map_find.induct) (auto split: if_splits)

subsection \<open>Registration\<close>

lemma registerUserToGroup_effect:
  assumes reg: "registerUserToGroup e (c, f) name gname (m, w) = Some (r, m', w')"
    and ok: "groups_ok (gm_groupMap m)" and c: "length c < UUID_SIZE" "c \<noteq> f"
    and room: "total_sessions name (gm_groupMap m) < MAX_NUMBER_OF_SIMULTANEOUS_CONNECTIONS"
  shows "r = 0 \<and> groups_ok (gm_groupMap m') \<and> gm_maxMessages m' = gm_maxMessages m \<and>
    (\<forall>n. total_sessions n (gm_groupMap m') = total_sessions n (gm_groupMap m) + (if n = name then 1 else 0)) \<and>
    (\<exists>g g'. map_find (gm_groupMap m') gname = Some g' \<and>
       g_users g' = add_session name (c, f) (g_users g) \<and>
       (map_find (gm_groupMap m) gname = Some g \<or>
        map_find (gm_groupMap m) gname = None \<and> g_users g = []) \<and>
       (\<forall>k. k \<noteq> gname \<longrightarrow> map_find (gm_groupMap m') k = map_find (gm_groupMap m) k))"
proof -
  have wf: "map_wf (gm_groupMap m)" using ok by (simp add: groups_ok_def)
  define g where "g = (case map_find (gm_groupMap m) gname of Some g \<Rightarrow> g
    | None \<Rightarrow> configureGroup (gm_maxMessages m) (Group (e_int e) gname))"
  define gs where "gs = (if \<not> groupExists m gname
      then map_assign (gm_groupMap m) gname (configureGroup (gm_maxMessages m) (Group (e_int e) gname))
      else gm_groupMap m)"
  have find: "map_find gs gname = Some g"
    by (auto simp: gs_def g_def groupExists_def)
  have gok: "group_ok g \<and> g_groupName g = gname"
    using groups_ok_find [OF ok] by (auto simp: g_def configureGroup_def Group_def group_ok_def
        split: option.split)
  have gs_ok: "groups_ok gs"
    using ok by (auto simp: gs_def intro!: groups_ok_assign)
      (simp add: configureGroup_def Group_def)
  have room': "sessions_in name (g_users g) < MAX_NUMBER_OF_SIMULTANEOUS_CONNECTIONS"
  proof (cases "map_find (gm_groupMap m) gname")
    case None
    then show ?thesis using room by (simp add: g_def configureGroup_def Group_def)
  next
    case (Some g0)
    then show ?thesis using total_sessions_find [OF Some, of name] room by (simp add: g_def)
  qed
  obtain g' where nr: "registerNewSession e c f name (g, w) = Some (r, g', w')"
    and m': "m' = m\<lparr>gm_groupMap := map_assign gs gname g'\<rparr>"
    using reg find by (auto simp: registerUserToGroup_def gs_def [symmetric] bind_iff)
  have us: "r = 0" "g_users g' = add_session name (c, f) (g_users g)"
      "g_groupName g' = g_groupName g"
    using registerNewSession_users [OF nr _ room'] gok by auto
  have g'ok: "group_ok g'"
    using add_session_ok [of "g_users g" name "(c, f)"] gok room' c us(2)
    by (simp add: group_ok_def)
  have tot: "int (total_sessions n gs) = int (total_sessions n (gm_groupMap m))" for n
    using total_sessions_assign [OF wf, of n gname
        "configureGroup (gm_maxMessages m) (Group (e_int e) gname)"]
    by (cases "map_find (gm_groupMap m) gname") (simp_all add: gs_def groupExists_def configureGroup_def Group_def)
  have "total_sessions n (map_assign gs gname g') =
      total_sessions n (gm_groupMap m) + (if n = name then 1 else 0)" for n
  proof -
    have "int (total_sessions n (map_assign gs gname g')) =
        int (total_sessions n (gm_groupMap m)) + (if n = name then 1 else 0)"
      using gs_ok find us(2) tot [of n]
      by (simp add: total_sessions_assign groups_ok_def sessions_in_add_session)
    then show ?thesis by (auto split: if_splits)
  qed
  moreover have "groups_ok (map_assign gs gname g')"
    using gs_ok g'ok us(3) gok by (intro groups_ok_assign) auto
  moreover have "map_find (gm_groupMap m) gname = Some g \<or>
      map_find (gm_groupMap m) gname = None \<and> g_users g = []"
    by (auto simp: g_def configureGroup_def Group_def split: option.split)
  moreover have "\<forall>k. k \<noteq> gname \<longrightarrow> map_find (map_assign gs gname g') k = map_find (gm_groupMap m) k"
    by (simp add: gs_def)
  ultimately show ?thesis using us(1,2) m' by auto
qed

subsection \<open>Messages\<close>

lemma processReceivedPacket_effect:
  assumes "processReceivedPacket now p m = Some m'" and "groups_ok (gm_groupMap m)"
  shows "groups_ok (gm_groupMap m') \<and> gm_maxMessages m' = gm_maxMessages m \<and>
    (\<forall>n. total_sessions n (gm_groupMap m') = total_sessions n (gm_groupMap m))"
proof -
  have wf: "map_wf (gm_groupMap m)" using assms(2) by (simp add: groups_ok_def)
  obtain gname where gn: "c_str (p_group p) = Some gname"
    using assms(1) by (auto simp: processReceivedPacket_def bind_iff)
  show ?thesis
  proof (cases "map_find (gm_groupMap m) gname")
    case None
    then show ?thesis using assms gn by (simp add: processReceivedPacket_def)
  next
    case (Some g)
    then obtain u t where m': "m' = m\<lparr>gm_groupMap := map_assign (gm_groupMap m) gname
        (processReceivedMessage now u t g)\<rparr>"
      using assms(1) gn by (auto simp: processReceivedPacket_def bind_iff)
    have "group_ok g \<and> g_groupName g = gname" using groups_ok_find [OF assms(2) Some] .
    then have "groups_ok (gm_groupMap m')"
      using assms(2) m' by (auto intro!: groups_ok_assign simp: group_ok_def)
    moreover have "int (total_sessions n (gm_groupMap m')) = int (total_sessions n (gm_groupMap m))" for n
      using m' Some by (simp add: total_sessions_assign [OF wf])
    ultimately show ?thesis using m' by simp
  qed
qed

subsection \<open>Disconnection\<close>

lemma propagate_loop_effect:
  assumes "propagate_loop tag primary now (c, f) groups cs = Some (groups', cs')"
    and "\<forall>e\<in>set groups. group_ok (snd e)" and "c \<noteq> f"
  shows "map fst groups' = map fst groups \<and>
    (\<forall>e\<in>set groups'. group_ok (snd e)) \<and>
    map (\<lambda>e. g_groupName (snd e)) groups' = map (\<lambda>e. g_groupName (snd e)) groups \<and>
    map (\<lambda>e. g_maxMessages (snd e)) groups' = map (\<lambda>e. g_maxMessages (snd e)) groups \<and>
    (map_wf cs \<longrightarrow> map_wf cs') \<and>
    (\<forall>n. count_of cs' n - int (total_sessions n groups') =
         count_of cs n - int (total_sessions n groups)) \<and>
    map (\<lambda>e. conns (snd e)) groups' =
      map (\<lambda>e. if c = tag then filter (\<lambda>s. snd s \<noteq> f) (conns (snd e))
                else remove1 (c, f) (conns (snd e))) groups"
  using assms
proof (induction tag primary now "(c, f)" groups cs arbitrary: groups' cs' rule: propagate_loop.induct)
  case (1 tag primary now cs)
  then show ?case by simp
next
  case (2 tag primary now k g groups cs)
  obtain g1 cs1 groups1 where h: "handleDisconnectEvent tag primary now c f (g, cs) = Some (g1, cs1)"
    and rest: "propagate_loop tag primary now (c, f) groups cs1 = Some (groups1, cs')"
    and res: "groups' = (k, g1) # groups1"
    using "2.prems"(1) by (auto simp: bind_iff)
  have "group_ok g" using "2.prems"(2) by simp
  note inv = handleDisconnectEvent_invariant [OF h this "2.prems"(3)]
  note co = handleDisconnectEvent_conns [OF h \<open>group_ok g\<close> "2.prems"(3)]
  have IH: "map fst groups1 = map fst groups \<and>
    (\<forall>e\<in>set groups1. group_ok (snd e)) \<and>
    map (\<lambda>e. g_groupName (snd e)) groups1 = map (\<lambda>e. g_groupName (snd e)) groups \<and>
    map (\<lambda>e. g_maxMessages (snd e)) groups1 = map (\<lambda>e. g_maxMessages (snd e)) groups \<and>
    (map_wf cs1 \<longrightarrow> map_wf cs') \<and>
    (\<forall>n. count_of cs' n - int (total_sessions n groups1) =
         count_of cs1 n - int (total_sessions n groups)) \<and>
    map (\<lambda>e. conns (snd e)) groups1 =
      map (\<lambda>e. if c = tag then filter (\<lambda>s. snd s \<noteq> f) (conns (snd e))
                else remove1 (c, f) (conns (snd e))) groups"
  proof (rule "2.hyps" [OF _ _ rest])
    show "(g1, cs1) = (g1, cs1)" by simp
    show "\<forall>e\<in>set groups. group_ok (snd e)" using "2.prems"(2) by simp
    show "c \<noteq> f" by (rule "2.prems"(3))
  qed (simp add: h)
  have bal: "count_of cs' n - int (total_sessions n groups') =
      count_of cs n - int (total_sessions n ((k, g) # groups))" for n
  proof -
    have "count_of cs1 n - int (sessions_in n (g_users g1)) =
        count_of cs n - int (sessions_in n (g_users g))" using inv by blast
    moreover have "count_of cs' n - int (total_sessions n groups1) =
        count_of cs1 n - int (total_sessions n groups)" using IH by blast
    ultimately show ?thesis by (simp add: res)
  qed
  from IH inv co bal show ?case by (simp add: res del: total_sessions_simps)
qed

lemma propagate_loop_le:
  assumes "propagate_loop tag primary now (c, f) groups cs = Some (groups', cs')"
    and "\<forall>e\<in>set groups. group_ok (snd e)" and "c \<noteq> f"
  shows "total_sessions n groups' \<le> total_sessions n groups"
  using assms
proof (induction groups arbitrary: cs groups')
  case Nil
  then show ?case by simp
next
  case (Cons e groups)
  obtain k g where e: "e = (k, g)" by (cases e)
  obtain g1 cs1 groups1 where h: "handleDisconnectEvent tag primary now c f (g, cs) = Some (g1, cs1)"
    and rest: "propagate_loop tag primary now (c, f) groups cs1 = Some (groups1, cs')"
    and res: "groups' = (k, g1) # groups1"
    using Cons.prems(1) by (auto simp: bind_iff e)
  have "sessions_in n (g_users g1) \<le> sessions_in n (g_users g)"
    using handleDisconnectEvent_le [OF h _ Cons.prems(3)] Cons.prems(2) by (simp add: e)
  moreover have "total_sessions n groups1 \<le> total_sessions n groups"
    using Cons.IH [OF rest] Cons.prems(2,3) by simp
  ultimately show ?case by (simp add: e res)
qed

end
