(* ===== verification/Keep_Alive.thy ===== *)
theory Keep_Alive
  imports Std_Map
begin

section \<open>Keep-alive monitoring\<close>

text \<open>
  \<open>src/util/ConnectionMonitor.cpp\<close> and \<open>src/util/ConnectionKeeper.cpp\<close>. The monitor keeps
  the time of the last keep-alive of every socket; \<open>monitor\<close> runs in a thread of its own and
  looks at the time of its socket every \<open>KEEP_ALIVE_INTERVAL\<close> seconds, while other threads
  refresh and remove entries. What these threads do between two looks, and when each look
  happens, is the environment: a list of timed events. Access to the table is between \<open>wait\<close>
  and \<open>post\<close> of one semaphore, so each event is one step.
\<close>

type_synonym alive_times = "(socket, timestamp) cmap"

definition refresh :: "timestamp \<Rightarrow> socket \<Rightarrow> alive_times \<Rightarrow> alive_times" where
  "refresh now sock m = map_assign m sock now"

definition killSocket :: "socket \<Rightarrow> alive_times \<Rightarrow> alive_times" where
  "killSocket sock m = map_erase m sock"

definition check_connection :: "timestamp \<Rightarrow> socket \<Rightarrow> alive_times \<Rightarrow> bool \<times> alive_times" where
  \<comment> \<open>the body of the loop; reading a removed entry through \<open>operator[]\<close> stores time 0\<close>
  "check_connection now sock m =
     (let (last, m') = map_index 0 m sock;
          secondsSinceLastKeepAlive = now - last
      in (secondsSinceLastKeepAlive < KEEP_ALIVE_TIMEOUT, m'))"

datatype monitor_event = Refresh socket | Kill socket | Check

fun monitor_loop ::
    "socket \<Rightarrow> (timestamp \<times> monitor_event) list \<Rightarrow> alive_times \<Rightarrow> timestamp option \<times> alive_times" where
  "monitor_loop sock [] m = (None, m)"
| "monitor_loop sock ((now, Refresh s) # es) m = monitor_loop sock es (refresh now s m)"
| "monitor_loop sock ((now, Kill s) # es) m = monitor_loop sock es (killSocket s m)"
| "monitor_loop sock ((now, Check) # es) m =
     (let (valid, m') = check_connection now sock m
      in if valid then monitor_loop sock es m' else (Some now, m'))"

definition keepsMonitoringConnection ::
    "timestamp \<Rightarrow> socket \<Rightarrow> (timestamp \<times> monitor_event) list \<Rightarrow> alive_times \<Rightarrow>
     timestamp option \<times> alive_times" where
  "keepsMonitoringConnection start sock es m = monitor_loop sock es (map_assign m sock start)"

definition monitor ::
    "timestamp \<Rightarrow> socket \<Rightarrow> (timestamp \<times> monitor_event) list \<Rightarrow> alive_times \<Rightarrow>
     timestamp option \<times> alive_times" where
  \<comment> \<open>the time at which it returned, \<open>None\<close> while the events given do not make it return\<close>
  "monitor start sock es m =
     (case keepsMonitoringConnection start sock es m of
        (None, m') \<Rightarrow> (None, m')
      | (Some t, m') \<Rightarrow> (Some t, map_erase m' sock))"

text \<open>
  \<open>sendKeepAliveForever\<close>: the list holds the results of its successive \<open>sendPacket\<close> calls;
  the loop ends with the first failure. The value is the number of packets sent and whether the
  loop has ended.
\<close>

fun sendKeepAliveForever :: "int list \<Rightarrow> nat \<times> bool" where
  "sendKeepAliveForever [] = (0, False)"
| "sendKeepAliveForever (r # rs) =
     (if r = 0 then (0, True) else (let (n, ended) = sendKeepAliveForever rs in (Suc n, ended)))"

subsection \<open>The time the monitor compares with\<close>

definition alive_time :: "alive_times \<Rightarrow> socket \<Rightarrow> timestamp" where
  "alive_time m sock = (case map_find m sock of Some t \<Rightarrow> t | None \<Rightarrow> 0)"

lemma alive_time_refresh: "alive_time (refresh now s m) sock = (if sock = s then now else alive_time m sock)"
  by (simp add: alive_time_def refresh_def)

lemma alive_time_kill:
  "map_wf m \<Longrightarrow> alive_time (killSocket s m) sock = (if sock = s then 0 else alive_time m sock)"
  by (simp add: alive_time_def killSocket_def)

lemma check_connection_char:
  "check_connection now sock m =
     (now - alive_time m sock < KEEP_ALIVE_TIMEOUT, snd (map_index 0 m sock))"
  by (simp add: check_connection_def alive_time_def map_index_value case_prod_beta Let_def)

lemma alive_time_check: "alive_time (snd (map_index 0 m sock)) s = alive_time m s"
  by (simp add: alive_time_def map_find_index map_index_value)

lemma wf_monitor_ops:
  "map_wf m \<Longrightarrow> map_wf (refresh now s m)" "map_wf m \<Longrightarrow> map_wf (killSocket s m)"
  by (simp_all add: refresh_def killSocket_def)

text \<open>
  The time of the last keep-alive as the events make it, without the table: a removal counts as
  time 0. Every look compares with it.
\<close>

fun last_alive :: "socket \<Rightarrow> timestamp \<Rightarrow> (timestamp \<times> monitor_event) list \<Rightarrow> timestamp" where
  "last_alive sock t [] = t"
| "last_alive sock t ((now, Refresh s) # es) = last_alive sock (if s = sock then now else t) es"
| "last_alive sock t ((now, Kill s) # es) = last_alive sock (if s = sock then 0 else t) es"
| "last_alive sock t ((now, Check) # es) = last_alive sock t es"

text \<open>The monitor returns at the first look that is too late after the last keep-alive before it.\<close>

lemma monitor_loop_append_None:
  assumes "map_wf m" and "\<forall>i<length es. \<forall>now. es ! i = (now, Check) \<longrightarrow>
      now - last_alive sock (alive_time m sock) (take i es) < KEEP_ALIVE_TIMEOUT"
  shows "fst (monitor_loop sock es m) = None"
  using assms
proof (induction sock es m rule: monitor_loop.induct)
  case (1 sock m)
  then show ?case by simp
next
  case (2 sock now s es m)
  have "\<forall>i<length es. \<forall>t. es ! i = (t, Check) \<longrightarrow>
      t - last_alive sock (alive_time (refresh now s m) sock) (take i es) < KEEP_ALIVE_TIMEOUT"
    using "2.prems"(2) by (fastforce simp: alive_time_refresh dest: spec [of _ "Suc _"])
  then show ?case using "2.IH" "2.prems"(1) by (simp add: wf_monitor_ops)
next
  case (3 sock now s es m)
  have "\<forall>i<length es. \<forall>t. es ! i = (t, Check) \<longrightarrow>
      t - last_alive sock (alive_time (killSocket s m) sock) (take i es) < KEEP_ALIVE_TIMEOUT"
    using "3.prems" by (fastforce simp: alive_time_kill dest: spec [of _ "Suc _"])
  then show ?case using "3.IH" "3.prems"(1) by (simp add: wf_monitor_ops)
next
  case (4 sock now es m)
  let ?m = "snd (map_index 0 m sock)"
  have "now - alive_time m sock < KEEP_ALIVE_TIMEOUT"
    using "4.prems"(2) by (fastforce dest: spec [of _ 0])
  moreover have "\<forall>i<length es. \<forall>t. es ! i = (t, Check) \<longrightarrow>
      t - last_alive sock (alive_time ?m sock) (take i es) < KEEP_ALIVE_TIMEOUT"
    using "4.prems"(2) by (fastforce simp: alive_time_check dest: spec [of _ "Suc _"])
  ultimately show ?case
    using "4.IH" "4.prems"(1) by (simp add: check_connection_char map_index_wf)
qed

lemma monitor_loop_times_out:
  assumes "map_wf m" and "i < length es" and "es ! i = (now, Check)"
    and "now - last_alive sock (alive_time m sock) (take i es) \<ge> KEEP_ALIVE_TIMEOUT"
    and "\<forall>j<i. \<forall>t. es ! j = (t, Check) \<longrightarrow>
      t - last_alive sock (alive_time m sock) (take j es) < KEEP_ALIVE_TIMEOUT"
  shows "fst (monitor_loop sock es m) = Some now"
  using assms
proof (induction sock es m arbitrary: i rule: monitor_loop.induct)
  case (1 sock m)
  then show ?case by simp
next
  case (2 sock t s es m)
  obtain k where i: "i = Suc k" using "2.prems"(3) by (cases i) auto
  have "\<forall>j<k. \<forall>u. es ! j = (u, Check) \<longrightarrow>
      u - last_alive sock (alive_time (refresh t s m) sock) (take j es) < KEEP_ALIVE_TIMEOUT"
    using "2.prems"(5) i by (fastforce simp: alive_time_refresh dest: spec [of _ "Suc _"])
  moreover have "now - last_alive sock (alive_time (refresh t s m) sock) (take k es) \<ge> KEEP_ALIVE_TIMEOUT"
    using "2.prems"(4) i by (auto simp: alive_time_refresh split: if_splits)
  ultimately show ?case
    using "2.IH" [of k] "2.prems"(1-3) i by (simp add: wf_monitor_ops)
next
  case (3 sock t s es m)
  obtain k where i: "i = Suc k" using "3.prems"(3) by (cases i) auto
  have "\<forall>j<k. \<forall>u. es ! j = (u, Check) \<longrightarrow>
      u - last_alive sock (alive_time (killSocket s m) sock) (take j es) < KEEP_ALIVE_TIMEOUT"
    using "3.prems"(1,5) i by (fastforce simp: alive_time_kill dest: spec [of _ "Suc _"])
  moreover have "now - last_alive sock (alive_time (killSocket s m) sock) (take k es) \<ge> KEEP_ALIVE_TIMEOUT"
    using "3.prems"(1,4) i by (auto simp: alive_time_kill split: if_splits)
  ultimately show ?case
    using "3.IH" [of k] "3.prems"(1-3) i by (simp add: wf_monitor_ops)
next
  case (4 sock t es m)
  let ?m = "snd (map_index 0 m sock)"
  show ?case
  proof (cases i)
    case 0
    then show ?thesis using "4.prems" by (simp add: check_connection_char)
  next
    case (Suc k)
    have v: "t - alive_time m sock < KEEP_ALIVE_TIMEOUT"
      using "4.prems"(5) Suc by (fastforce dest: spec [of _ 0])
    have "\<forall>j<k. \<forall>u. es ! j = (u, Check) \<longrightarrow>
        u - last_alive sock (alive_time ?m sock) (take j es) < KEEP_ALIVE_TIMEOUT"
      using "4.prems"(5) Suc by (fastforce simp: alive_time_check dest: spec [of _ "Suc _"])
    then show ?thesis
      using "4.IH" [of _ _ _ k] v "4.prems"(1-4) Suc
      by (simp add: check_connection_char map_index_wf alive_time_check)
  qed
qed

lemma monitor_eq:
  "fst (monitor start sock es m) = fst (monitor_loop sock es (map_assign m sock start))"
  by (simp add: monitor_def keepsMonitoringConnection_def case_prod_beta split: option.split)

lemma alive_time_start [simp]: "alive_time (map_assign m sock start) sock = start"
  by (simp add: alive_time_def)

lemma last_alive_no_refresh:
  "\<forall>t. (t, Refresh sock) \<notin> set es \<and> (t, Kill sock) \<notin> set es \<Longrightarrow> last_alive sock t0 es = t0"
  by (induction sock t0 es rule: last_alive.induct) auto

end
