(* ===== verification/Server_State.thy ===== *)
theory Server_State
  imports Group_Manager Keep_Alive
begin

section \<open>The server\<close>

text \<open>
  \<open>src/server/server.cpp\<close>: the state of one server process and what it does for each packet,
  as the front-end listener (\<open>listenFrontEndCommunication\<close>) and as the replication listener
  (\<open>handleRMCommunication\<close>), for the loss of a front end and for the set-up of its
  connections. Each handler is one function on the state. The results of the system calls a
  handler makes (\<open>socket\<close>, \<open>connect\<close>, the confirmation of a replica) are arguments.
\<close>

record server =
  s_world :: world
  s_manager :: manager
  s_connectionsCount :: counts
  s_feAddresses :: "string list"
  s_socketFeList :: "socket list"
  s_monitor :: alive_times
  s_rm_sockets :: "(socket, int) cmap"  \<comment> \<open>\<open>rm_connect_sockets_fd\<close>, with the peer's port\<close>
  s_closed :: "socket list"  \<comment> \<open>sockets given to \<open>close\<close>\<close>
  s_rmNumber :: int

definition Server :: "files \<Rightarrow> bool \<Rightarrow> int \<Rightarrow> int \<Rightarrow> server" where
  \<comment> \<open>\<open>mem\<close> is what the unwritten \<open>maxNumberOfMessagesOnHistory\<close> and \<open>rmNumber\<close> hold\<close>
  "Server fs primary mem mem' =
     \<lparr>s_world = \<lparr>w_files = fs, w_book = [], w_sent = [], w_primary = primary\<rparr>,
      s_manager = ServerGroupManager mem, s_connectionsCount = [], s_feAddresses = [],
      s_socketFeList = [], s_monitor = [], s_rm_sockets = [], s_closed = [], s_rmNumber = mem'\<rparr>"

definition configureFilesystemManager :: "int \<Rightarrow> server \<Rightarrow> server" where
  "configureFilesystemManager maxMessages s =
     s\<lparr>s_manager := configureFileSystemManager maxMessages (s_manager s)\<rparr>"

subsection \<open>Sessions\<close>

definition incrementNumberOfConnectionsFromUser :: "string \<Rightarrow> counts \<Rightarrow> int \<times> counts" where
  "incrementNumberOfConnectionsFromUser user cs =
     (case map_find cs user of
        Some n \<Rightarrow>
          if n \<ge> int MAX_NUMBER_OF_SIMULTANEOUS_CONNECTIONS then (USER_SESSIONS_LIMIT_REACHED, cs)
          else (0, map_assign cs user (n + 1))
      | None \<Rightarrow> (0, map_assign cs user 1))"

definition registerUser :: "env \<Rightarrow> session \<Rightarrow> string \<Rightarrow> string \<Rightarrow> server \<Rightarrow> (int \<times> server) option" where
  "registerUser e clientIdentifier username grp s = do {
     (result, m, w) \<leftarrow> registerUserToGroup e clientIdentifier username grp (s_manager s, s_world s);
     Some (result, s\<lparr>s_manager := m, s_world := w\<rparr>)
   }"

definition registerUserToServer :: "env \<Rightarrow> packet \<Rightarrow> string \<Rightarrow> server \<Rightarrow> (int \<times> server) option" where
  "registerUserToServer e registrationPacket feAddress s = do {
     username \<leftarrow> c_str (p_username registrationPacket);
     let (r, cs) = incrementNumberOfConnectionsFromUser username (s_connectionsCount s);
     if r = USER_SESSIONS_LIMIT_REACHED then do {
       refused \<leftarrow> Packet_of_type (e_mem e) (e_uuid e) CONNECTION_REFUSED_PACKET;
       uid \<leftarrow> c_str (p_user_id registrationPacket);
       buf \<leftarrow> strcpy (p_user_id refused) uid;
       let w = s_world s;
       Some (-1, if w_primary w
                 then s\<lparr>s_world := sendPacketToSocketId (refused\<lparr>p_user_id := buf\<rparr>) feAddress w\<rparr>
                 else s)
     } else do {
       uid \<leftarrow> c_str (p_user_id registrationPacket);
       grp \<leftarrow> c_str (p_group registrationPacket);
       registerUser e (uid, feAddress) username grp (s\<lparr>s_connectionsCount := cs\<rparr>)
     }
   }"

definition closeClientConnection :: "string \<Rightarrow> timestamp \<Rightarrow> session \<Rightarrow> server \<Rightarrow> server option" where
  "closeClientConnection fe_tag now clientConnectionId s = do {
     (m, cs) \<leftarrow> propagateSocketDisconnectionEvent fe_tag (w_primary (s_world s)) now
       clientConnectionId (s_manager s, s_connectionsCount s);
     Some (s\<lparr>s_manager := m, s_connectionsCount := cs\<rparr>)
   }"

subsection \<open>Losing a front end\<close>

definition purgeFeConnection :: "string \<Rightarrow> server \<Rightarrow> server option" where
  "purgeFeConnection feAddress s = do {
     addresses \<leftarrow> erase_in_range_for (\<lambda>address. address = feAddress) (s_feAddresses s);
     let w = s_world s;
     let book = (if feAddress \<in> set (s_feAddresses s)
                 then removeServerSocket (w_book w) feAddress else w_book w);
     Some (s\<lparr>s_feAddresses := addresses, s_world := w\<lparr>w_book := book\<rparr>\<rparr>)
   }"

text \<open>
  The pointer \<open>FE_DISCONNECT\<close> is read twice: \<open>tag_sent\<close> when the event is built here, and
  \<open>tag_compared\<close> when a group compares with it.
\<close>

definition closeFrontEndConnection ::
    "string \<Rightarrow> string \<Rightarrow> timestamp \<Rightarrow> string \<Rightarrow> server \<Rightarrow> server option" where
  "closeFrontEndConnection tag_sent tag_compared now feAddress s =
     (if feAddress \<notin> set (s_feAddresses s) then Some s
      else do {
        s1 \<leftarrow> closeClientConnection tag_compared now (tag_sent, feAddress) s;
        let (socketId, w) = getSocketFromAddress feAddress (s_world s1);
        purgeFeConnection feAddress (s1\<lparr>s_world := w, s_closed := s_closed s1 @ [socketId]\<rparr>)
      })"

definition closeFrontEndConnections :: "server \<Rightarrow> server" where
  "closeFrontEndConnections s =
     fold (\<lambda>fe_address s. let (socketId, w) = getSocketFromAddress fe_address (s_world s)
                           in s\<lparr>s_world := w, s_closed := s_closed s @ [socketId]\<rparr>)
       (s_feAddresses s) s"

definition closeServer :: "server \<Rightarrow> server" where
  "closeServer s = closeFrontEndConnections s"

subsection \<open>Set-up of the connections\<close>

text \<open>\<open>newSocketFE\<close> and \<open>connected\<close> are the results of \<open>socket\<close> and \<open>connect\<close>.\<close>

definition connectToFE :: "socket \<Rightarrow> int \<Rightarrow> string \<Rightarrow> int \<Rightarrow> server \<Rightarrow> int \<times> server" where
  "connectToFE newSocketFE connected feAddress fePort s =
     (if newSocketFE < 0 then (-1, s)
      else if connected < 0 then (-1, s)
      else (let feIpPort = feAddress @ '':'' @ to_string fePort; w = s_world s
            in (0, s\<lparr>s_socketFeList := s_socketFeList s @ [newSocketFE],
                     s_world := w\<lparr>w_book := registryAddressSocket (w_book w) feIpPort newSocketFE\<rparr>,
                     s_feAddresses := s_feAddresses s @ [feIpPort]\<rparr>)))"

text \<open>
  \<open>handleFrontEndsConnections\<close>: for each address a listening and a monitoring thread, and a
  keep-alive sender on the socket of the address. The list is the threads' arguments, in order.
\<close>

definition handleFrontEndsConnections :: "server \<Rightarrow> server \<times> (string \<times> socket) list" where
  "handleFrontEndsConnections s =
     fold (\<lambda>feAddress (s, started).
        let (socketId, w) = getSocketFromAddress feAddress (s_world s)
        in (s\<lparr>s_world := w\<rparr>, started @ [(feAddress, socketId)]))
       (s_feAddresses s) (s, [])"

text \<open>
  \<open>connectToRmServers\<close>: \<open>attempt n\<close> is the socket connected for machine \<open>n\<close>, or \<open>None\<close> when one of
  the three calls fails. The list of ports is what the loop tried, in order.
\<close>

definition connectToRmServers :: "(int \<Rightarrow> socket option) \<Rightarrow> server \<Rightarrow> server \<times> int list" where
  "connectToRmServers attempt s =
     fold (\<lambda>connectMachineNumber (s, tried).
        let port = RM_BASE_PORT_NUMBER + connectMachineNumber + 1
        in case attempt connectMachineNumber of
             None \<Rightarrow> (s, tried @ [port])
           | Some sock \<Rightarrow> (s\<lparr>s_rm_sockets := map_insert (s_rm_sockets s) sock port\<rparr>, tried @ [port]))
       [s_rmNumber s..MAX_RM - 1] (s, [])"

definition rmListeningPort :: "server \<Rightarrow> int" where
  "rmListeningPort s = RM_BASE_PORT_NUMBER + s_rmNumber s"

definition acceptRMConnection :: "socket \<Rightarrow> int \<Rightarrow> server \<Rightarrow> server" where
  \<comment> \<open>one round of the accepting thread: \<open>newsockfd\<close> and the peer's port are what \<open>accept\<close> gave\<close>
  "acceptRMConnection newsockfd port s =
     (if newsockfd = -1 then s
      else s\<lparr>s_rm_sockets := map_insert (s_rm_sockets s) newsockfd port\<rparr>)"

definition setRmNumber :: "int \<Rightarrow> server \<Rightarrow> server" where
  "setRmNumber n s = s\<lparr>s_rmNumber := n\<rparr>"

subsection \<open>Packets from a front end\<close>

text \<open>
  The replication loop of the primary: the packet goes to every replica, each of which must
  confirm. \<open>confirms sock\<close> says whether the confirmation could be read. A lost replica is
  erased from the map the range-based \<open>for\<close> is running over, which is undefined behaviour.
\<close>

definition replicate_packet :: "(socket \<Rightarrow> bool) \<Rightarrow> packet \<Rightarrow> server \<Rightarrow> server option" where
  "replicate_packet confirms p s =
     foldM (\<lambda>sock s. if confirms sock then Some (s\<lparr>s_world := emit sock p (s_world s)\<rparr>) else None)
       (map fst (s_rm_sockets s)) s"

definition replicates :: "packet \<Rightarrow> bool" where
  "replicates p \<longleftrightarrow> isMessage p \<or> isJoinMessage p \<or> isDisconnect p"

definition replication_step :: "(socket \<Rightarrow> bool) \<Rightarrow> string \<Rightarrow> packet \<Rightarrow> server \<Rightarrow> (packet \<times> server) option" where
  "replication_step confirms feAddress p s =
     (if w_primary (s_world s) \<and> replicates p \<and> s_rm_sockets s \<noteq> [] then do {
        buf \<leftarrow> strcpy (p_frontEndAddress p) feAddress;
        let p' = p\<lparr>p_frontEndAddress := buf\<rparr>;
        s' \<leftarrow> replicate_packet confirms p' s;
        Some (p', s')
      } else Some (p, s))"

definition sendAck :: "env \<Rightarrow> socket \<Rightarrow> packet \<Rightarrow> server \<Rightarrow> server option" where
  "sendAck e feSocket p s =
     (let pack = (Packet_default (e_mem e))\<lparr>p_type := ACK_PACKET\<rparr>
      in do {
        uid \<leftarrow> c_str (p_user_id p);
        buf \<leftarrow> strcpy (p_user_id pack) uid;
        Some (s\<lparr>s_world := emit feSocket (pack\<lparr>p_user_id := buf\<rparr>) (s_world s)\<rparr>)
      })"

definition handleMessage :: "env \<Rightarrow> packet \<Rightarrow> server \<Rightarrow> server option" where
  "handleMessage e p s =
     map_option (\<lambda>m. s\<lparr>s_manager := m\<rparr>) (processReceivedPacket (e_now e) p (s_manager s))"

definition handleFrontEndPacket ::
    "env \<Rightarrow> string \<Rightarrow> (socket \<Rightarrow> bool) \<Rightarrow> string \<Rightarrow> socket \<Rightarrow> packet \<Rightarrow> server \<Rightarrow> server option" where
  "handleFrontEndPacket e fe_tag confirms feAddress feSocket p s = do {
     (p, s) \<leftarrow> replication_step confirms feAddress p s;
     if isMessage p then Option.bind (sendAck e feSocket p s) (handleMessage e p)
     else if isKeepAlive p then
       Some (s\<lparr>s_monitor := refresh (e_now e) feSocket (s_monitor s)\<rparr>)
     else if isJoinMessage p then map_option snd (registerUserToServer e p feAddress s)
     else if isDisconnect p then do {
       uid \<leftarrow> c_str (p_user_id p);
       closeClientConnection fe_tag (e_now e) (uid, feAddress) s
     }
     else Some s
   }"

definition frontEndListenerEnds ::
    "string \<Rightarrow> string \<Rightarrow> timestamp \<Rightarrow> string \<Rightarrow> socket \<Rightarrow> server \<Rightarrow> server option" where
  \<comment> \<open>what the listening thread does once its connection has ended\<close>
  "frontEndListenerEnds tag_sent tag_compared now feAddress feSocket s =
     closeFrontEndConnection tag_sent tag_compared now feAddress
       (s\<lparr>s_monitor := killSocket feSocket (s_monitor s)\<rparr>)"

definition frontEndTimesOut ::
    "string \<Rightarrow> string \<Rightarrow> timestamp \<Rightarrow> string \<Rightarrow> socket \<Rightarrow> server \<Rightarrow> server option" where
  \<comment> \<open>the end of \<open>monitorConnection\<close>: \<open>monitor\<close> has returned and has erased the socket's entry\<close>
  "frontEndTimesOut tag_sent tag_compared now feAddress socketID s =
     closeFrontEndConnection tag_sent tag_compared now feAddress
       (s\<lparr>s_monitor := map_erase (s_monitor s) socketID\<rparr>)"

subsection \<open>Packets from the primary\<close>

definition handleReplicationPacket :: "env \<Rightarrow> string \<Rightarrow> socket \<Rightarrow> packet \<Rightarrow> server \<Rightarrow> server option" where
  "handleReplicationPacket e fe_tag rm_socket p s = do {
     address \<leftarrow> c_str (p_frontEndAddress p);
     s' \<leftarrow> (if isMessage p then handleMessage e (p\<lparr>p_type := REPLICATION_PACKET\<rparr>) s
           else if isJoinMessage p then map_option snd (registerUserToServer e p address s)
           else if isDisconnect p then do {
             uid \<leftarrow> c_str (p_user_id p);
             closeClientConnection fe_tag (e_now e) (uid, address) s
           }
           else Some s);
     let confirmation = (Packet_default (e_mem e))\<lparr>p_type := REPLICATION_CONFIRMATION_PACKET\<rparr>;
     Some (s'\<lparr>s_world := emit rm_socket confirmation (s_world s')\<rparr>)
   }"

definition replicationListenerEnds :: "socket \<Rightarrow> server \<Rightarrow> server" where
  "replicationListenerEnds rm_socket s =
     s\<lparr>s_rm_sockets := map_erase (s_rm_sockets s) rm_socket, s_closed := s_closed s @ [rm_socket]\<rparr>"

subsection \<open>The consumer thread of one group\<close>

definition consumeGroup :: "env \<Rightarrow> string \<Rightarrow> server \<Rightarrow> server option" where
  "consumeGroup e gname s =
     (let groups = gm_groupMap (s_manager s) in
      case map_find groups gname of
        None \<Rightarrow> Some s
      | Some g \<Rightarrow> do {
          (g', w) \<leftarrow> consumeMessageQueue e (g, s_world s);
          Some (s\<lparr>s_manager := (s_manager s)\<lparr>gm_groupMap := map_assign groups gname g'\<rparr>,
                  s_world := w\<rparr>)
        })"

end
