(* ===== verification/Server_Invariant.thy ===== *)
theory Server_Invariant
  imports Server_State
begin

section \<open>The server as an event machine, and its session accounting\<close>

text \<open>
  All that can happen to a server process as one datatype of events with one step function, and
  the invariant of the sessions: the groups are well formed, the count of every user is the
  number of sessions the user has over all groups, and no user has more than two. The locale
  \<open>event_machine\<close> is interpreted on the step function.
\<close>

datatype server_event =
    FE_Packet env string "socket list" string socket packet
      \<comment> \<open>tag read, replicas that fail to confirm, front end, its socket, packet\<close>
  | RM_Packet env string socket packet
  | FE_Listener_Ends string string timestamp string socket
  | FE_Times_Out string string timestamp string socket
  | RM_Listener_Ends socket
  | Consume env string
  | Connect_FE socket int string int
  | Accept_RM socket int
  | Become_Primary

definition becomePrimary :: "server \<Rightarrow> server" where
  \<comment> \<open>\<open>Server::isPrimaryServer = true\<close>, written by the ring of servers\<close>
  "becomePrimary s = s\<lparr>s_world := (s_world s)\<lparr>w_primary := True\<rparr>\<rparr>"

fun server_step :: "server_event \<Rightarrow> server \<Rightarrow> server option" where
  "server_step (FE_Packet e tag lost f sock p) s =
     handleFrontEndPacket e tag (\<lambda>r. r \<notin> set lost) f sock p s"
| "server_step (RM_Packet e tag sock p) s = handleReplicationPacket e tag sock p s"
| "server_step (FE_Listener_Ends sent compared now f sock) s =
     frontEndListenerEnds sent compared now f sock s"
| "server_step (FE_Times_Out sent compared now f sock) s =
     frontEndTimesOut sent compared now f sock s"
| "server_step (RM_Listener_Ends sock) s = Some (replicationListenerEnds sock s)"
| "server_step (Consume e gname) s = consumeGroup e gname s"
| "server_step (Connect_FE sock r f port) s = Some (snd (connectToFE sock r f port s))"
| "server_step (Accept_RM sock port) s = Some (acceptRMConnection sock port s)"
| "server_step Become_Primary s = Some (becomePrimary s)"

text \<open>
  What the accounting asks of the events: packets are packet objects, and no client identifier
  (nor the front-end tag) is equal to the address it is used with.
\<close>

definition ids_apart :: "packet \<Rightarrow> string \<Rightarrow> bool" where
  "ids_apart p f \<longleftrightarrow> packet_sized p \<and> c_str (p_user_id p) \<noteq> Some f"

fun event_ok :: "server_event \<Rightarrow> bool" where
  "event_ok (FE_Packet e tag lost f sock p) = ids_apart p f"
| "event_ok (RM_Packet e tag sock p) =
     (packet_sized p \<and> (c_str (p_user_id p) = None \<or> c_str (p_user_id p) \<noteq> c_str (p_frontEndAddress p)))"
| "event_ok (FE_Listener_Ends sent compared now f sock) = (sent \<noteq> f)"
| "event_ok (FE_Times_Out sent compared now f sock) = (sent \<noteq> f)"
| "event_ok _ = True"

definition groups_of :: "server \<Rightarrow> (string, chat_group) cmap" where
  "groups_of s = gm_groupMap (s_manager s)"

definition server_ok :: "server \<Rightarrow> bool" where
  "server_ok s \<longleftrightarrow> groups_ok (groups_of s) \<and> map_wf (s_connectionsCount s) \<and>
     (\<forall>n. count_of (s_connectionsCount s) n = int (total_sessions n (groups_of s)) \<and>
          total_sessions n (groups_of s) \<le> MAX_NUMBER_OF_SIMULTANEOUS_CONNECTIONS)"

lemma server_ok_Server: "server_ok (Server fs primary mem mem')"
  by (simp add: server_ok_def Server_def groups_of_def ServerGroupManager_def count_of_def)

lemma server_ok_cong:
  "s_manager s' = s_manager s \<Longrightarrow> s_connectionsCount s' = s_connectionsCount s \<Longrightarrow>
   server_ok s' = server_ok s"
  by (simp add: server_ok_def groups_of_def)

subsection \<open>Registration\<close>

lemma increment_full:
  assumes "server_ok s"
  shows "fst (incrementNumberOfConnectionsFromUser n (s_connectionsCount s)) = USER_SESSIONS_LIMIT_REACHED
    \<longleftrightarrow> total_sessions n (groups_of s) = MAX_NUMBER_OF_SIMULTANEOUS_CONNECTIONS"
proof -
  let ?cs = "s_connectionsCount s"
  have "count_of ?cs n = int (total_sessions n (groups_of s))"
    and "total_sessions n (groups_of s) \<le> MAX_NUMBER_OF_SIMULTANEOUS_CONNECTIONS"
    using assms by (simp_all add: server_ok_def)
  then show ?thesis
    by (auto simp: incrementNumberOfConnectionsFromUser_def count_of_def
        USER_SESSIONS_LIMIT_REACHED_def MAX_NUMBER_OF_SIMULTANEOUS_CONNECTIONS_def
        split: option.splits if_splits)
qed

lemma increment_counts:
  assumes "fst (incrementNumberOfConnectionsFromUser n cs) \<noteq> USER_SESSIONS_LIMIT_REACHED"
  shows "count_of (snd (incrementNumberOfConnectionsFromUser n cs)) k =
      count_of cs k + (if k = n then 1 else 0)"
    and "map_wf cs \<Longrightarrow> map_wf (snd (incrementNumberOfConnectionsFromUser n cs))"
  using assms
  by (auto simp: incrementNumberOfConnectionsFromUser_def count_of_def split: option.splits if_splits)

text \<open>A user with two sessions is refused, and nothing but the refusal happens.\<close>

lemma register_refused:
  assumes ok: "server_ok s" and name: "c_str (p_username p) = Some name"
    and full: "total_sessions name (groups_of s) = MAX_NUMBER_OF_SIMULTANEOUS_CONNECTIONS"
    and reg: "registerUserToServer e p f s = Some (r, s')"
  shows "r = -1 \<and> s_manager s' = s_manager s \<and> s_connectionsCount s' = s_connectionsCount s \<and>
    (\<exists>pk. p_type pk = CONNECTION_REFUSED_PACKET \<and> c_str (p_user_id pk) = c_str (p_user_id p) \<and>
       (packet_sized (e_mem e) \<longrightarrow> packet_sized pk) \<and>
       sends_only (if w_primary (s_world s) then [(socket_of (w_book (s_world s)) f, pk)] else [])
         (s_world s) (s_world s'))"
proof -
  have "fst (incrementNumberOfConnectionsFromUser name (s_connectionsCount s)) =
      USER_SESSIONS_LIMIT_REACHED"
    using increment_full [OF ok] full by simp
  then obtain refused uid buf where
      pt: "Packet_of_type (e_mem e) (e_uuid e) CONNECTION_REFUSED_PACKET = Some refused"
    and uid: "c_str (p_user_id p) = Some uid" and buf: "strcpy (p_user_id refused) uid = Some buf"
    and res: "r = -1" "s' = (if w_primary (s_world s)
      then s\<lparr>s_world := sendPacketToSocketId (refused\<lparr>p_user_id := buf\<rparr>) f (s_world s)\<rparr> else s)"
    using reg name by (auto simp: registerUserToServer_def bind_iff case_prod_beta Let_def)
  let ?pk = "refused\<lparr>p_user_id := buf\<rparr>"
  have "c_str (p_user_id ?pk) = Some uid"
    using c_str_strcpy [OF buf] c_str_no_NUL [OF uid] by simp
  moreover have "p_type ?pk = CONNECTION_REFUSED_PACKET"
    using pt by (auto simp: Packet_of_type_def bind_iff)
  moreover have "packet_sized (e_mem e) \<longrightarrow> packet_sized ?pk"
    using pt length_strcpy [OF buf] by (auto simp: Packet_of_type_def bind_iff packet_sized_def length_strcpy)
  ultimately show ?thesis
    using res uid sendPacketToSocketId_char [of "s_world s" f ?pk]
    by (intro conjI exI [of _ ?pk]) (auto simp: sends_only_refl)
qed

text \<open>Any other registration adds exactly one session of the user, in the group he named.\<close>

lemma register_accepted:
  assumes ok: "server_ok s" and name: "c_str (p_username p) = Some name"
    and room: "total_sessions name (groups_of s) < MAX_NUMBER_OF_SIMULTANEOUS_CONNECTIONS"
    and ids: "ids_apart p f"
    and reg: "registerUserToServer e p f s = Some (r, s')"
  shows "r = 0 \<and> server_ok s' \<and>
    (\<forall>n. total_sessions n (groups_of s') = total_sessions n (groups_of s) + (if n = name then 1 else 0)) \<and>
    (\<exists>uid gname g g'. c_str (p_user_id p) = Some uid \<and> c_str (p_group p) = Some gname \<and>
       map_find (groups_of s') gname = Some g' \<and> g_users g' = add_session name (uid, f) (g_users g) \<and>
       (map_find (groups_of s) gname = Some g \<or> map_find (groups_of s) gname = None \<and> g_users g = []) \<and>
       (\<forall>k. k \<noteq> gname \<longrightarrow> map_find (groups_of s') k = map_find (groups_of s) k))"
proof -
  let ?inc = "incrementNumberOfConnectionsFromUser name (s_connectionsCount s)"
  have nf: "fst ?inc \<noteq> USER_SESSIONS_LIMIT_REACHED" using increment_full [OF ok] room by simp
  obtain uid gname m w where uid: "c_str (p_user_id p) = Some uid"
    and gname: "c_str (p_group p) = Some gname"
    and rg: "registerUserToGroup e (uid, f) name gname (s_manager s, s_world s) = Some (r, m, w)"
    and s': "s' = s\<lparr>s_connectionsCount := snd ?inc, s_manager := m, s_world := w\<rparr>"
    using reg name nf
    by (auto simp: registerUserToServer_def registerUser_def bind_iff case_prod_beta Let_def)
  have c: "length uid < UUID_SIZE" "uid \<noteq> f"
    using ids uid c_str_length [OF uid] by (auto simp: ids_apart_def packet_sized_def)
  have gok: "groups_ok (gm_groupMap (s_manager s))" and wf: "map_wf (s_connectionsCount s)"
    using ok by (simp_all add: server_ok_def groups_of_def)
  note eff = registerUserToGroup_effect [OF rg gok c room [unfolded groups_of_def]]
  have tot: "\<forall>n. total_sessions n (groups_of s') =
      total_sessions n (groups_of s) + (if n = name then 1 else 0)"
    using eff by (simp add: groups_of_def s')
  have "count_of (s_connectionsCount s') n = int (total_sessions n (groups_of s')) \<and>
      total_sessions n (groups_of s') \<le> MAX_NUMBER_OF_SIMULTANEOUS_CONNECTIONS" for n
    using ok tot room increment_counts(1) [OF nf, of n] by (auto simp: server_ok_def s')
  moreover have "groups_ok (groups_of s')" using eff by (simp add: groups_of_def s')
  moreover have "map_wf (s_connectionsCount s')" using increment_counts(2) [OF nf wf] by (simp add: s')
  ultimately have "server_ok s'" by (simp add: server_ok_def)
  then show ?thesis using eff tot uid gname by (auto simp: groups_of_def s')
qed

lemma register_cases:
  assumes "server_ok s" and "registerUserToServer e p f s = Some (r, s')"
  obtains (refused) name where "c_str (p_username p) = Some name"
      "total_sessions name (groups_of s) = MAX_NUMBER_OF_SIMULTANEOUS_CONNECTIONS"
  | (accepted) name where "c_str (p_username p) = Some name"
      "total_sessions name (groups_of s) < MAX_NUMBER_OF_SIMULTANEOUS_CONNECTIONS"
proof -
  obtain name where "c_str (p_username p) = Some name"
    using assms(2) by (auto simp: registerUserToServer_def bind_iff)
  moreover have "total_sessions name (groups_of s) \<le> MAX_NUMBER_OF_SIMULTANEOUS_CONNECTIONS"
    using assms(1) by (simp add: server_ok_def)
  ultimately show ?thesis using refused accepted by (meson le_neq_implies_less)
qed

lemma register_ok:
  assumes "server_ok s" and "ids_apart p f" and "registerUserToServer e p f s = Some (r, s')"
  shows "server_ok s'"
  using assms(1,3)
proof (cases rule: register_cases)
  case (refused name)
  then show ?thesis
    using register_refused [OF assms(1) refused assms(3)] assms(1) server_ok_cong by blast
next
  case (accepted name)
  then show ?thesis using register_accepted [OF assms(1) accepted assms(2,3)] by blast
qed

subsection \<open>Disconnection\<close>

lemma closeClientConnection_effect:
  assumes ok: "server_ok s" and close: "closeClientConnection tag now (c, f) s = Some s'" and "c \<noteq> f"
  shows "server_ok s' \<and> s_world s' = s_world s \<and> s_feAddresses s' = s_feAddresses s \<and>
    map fst (groups_of s') = map fst (groups_of s) \<and>
    map (\<lambda>e. conns (snd e)) (groups_of s') =
      map (\<lambda>e. if c = tag then filter (\<lambda>s. snd s \<noteq> f) (conns (snd e))
                else remove1 (c, f) (conns (snd e))) (groups_of s)"
proof -
  obtain groups cs where pl: "propagate_loop tag (w_primary (s_world s)) now (c, f)
      (groups_of s) (s_connectionsCount s) = Some (groups, cs)"
    and s': "s' = s\<lparr>s_manager := (s_manager s)\<lparr>gm_groupMap := groups\<rparr>, s_connectionsCount := cs\<rparr>"
    using close
    by (auto simp: closeClientConnection_def propagateSocketDisconnectionEvent_def bind_iff groups_of_def)
  have "\<forall>e\<in>set (groups_of s). group_ok (snd e)" using ok by (simp add: server_ok_def groups_ok_def)
  note eff = propagate_loop_effect [OF pl this \<open>c \<noteq> f\<close>]
  have fst: "map fst groups = map fst (groups_of s)" using eff by blast
  have names: "map (\<lambda>e. g_groupName (snd e)) (groups_of s) = map fst (groups_of s)"
    using ok by (simp add: server_ok_def groups_ok_def)
  have "map (\<lambda>e. g_groupName (snd e)) groups = map fst groups" using eff names fst by simp
  then have "\<forall>e\<in>set groups. g_groupName (snd e) = fst e" by (simp add: map_eq_conv)
  moreover have "map_wf groups" using ok fst by (simp add: server_ok_def groups_ok_def map_wf_def)
  ultimately have gok: "groups_ok groups" using eff by (simp add: groups_ok_def)
  have bal: "count_of cs n = int (total_sessions n groups)" for n
  proof -
    have "count_of cs n - int (total_sessions n groups) =
        count_of (s_connectionsCount s) n - int (total_sessions n (groups_of s))" using eff by blast
    then show ?thesis using ok by (simp add: server_ok_def)
  qed
  have le: "total_sessions n groups \<le> total_sessions n (groups_of s)" for n
    by (rule propagate_loop_le [OF pl \<open>\<forall>e\<in>set (groups_of s). group_ok (snd e)\<close> \<open>c \<noteq> f\<close>])
  have "total_sessions n groups \<le> MAX_NUMBER_OF_SIMULTANEOUS_CONNECTIONS" for n
    using le [of n] ok by (meson order_trans server_ok_def)
  then have "server_ok s'"
    using gok bal eff ok by (simp add: server_ok_def groups_of_def s')
  then show ?thesis using eff by (simp add: s' groups_of_def)
qed

text \<open>
  Losing a front end. The sessions go when the two reads of the dangling \<open>FE_DISCONNECT\<close> agree
  (the case \<open>tag_sent = tag_compared\<close>); otherwise the event names a client that does not exist,
  and only a session with that very identifier could go.
\<close>

lemma closeFrontEndConnection_unknown:
  "f \<notin> set (s_feAddresses s) \<Longrightarrow> closeFrontEndConnection sent compared now f s = Some s"
  by (simp add: closeFrontEndConnection_def)

lemma purgeFeConnection_effect:
  assumes "purgeFeConnection f s = Some s'"
  shows "s_feAddresses s' = filter (\<lambda>a. a \<noteq> f) (s_feAddresses s) \<and>
    s_manager s' = s_manager s \<and> s_connectionsCount s' = s_connectionsCount s \<and>
    s_closed s' = s_closed s \<and> w_sent (s_world s') = w_sent (s_world s) \<and>
    w_book (s_world s') = (if f \<in> set (s_feAddresses s)
      then removeServerSocket (w_book (s_world s)) f else w_book (s_world s))"
  using assms erase_in_range_for_filter [of "\<lambda>a. a = f" "s_feAddresses s"]
  by (auto simp: purgeFeConnection_def bind_iff Let_def)

lemma closeFrontEndConnection_effect:
  assumes ok: "server_ok s" and known: "f \<in> set (s_feAddresses s)"
    and close: "closeFrontEndConnection sent compared now f s = Some s'" and "sent \<noteq> f"
  shows "server_ok s' \<and> f \<notin> set (s_feAddresses s') \<and>
    s_closed s' = s_closed s @ [socket_of (w_book (s_world s)) f] \<and>
    w_sent (s_world s') = w_sent (s_world s) \<and>
    map fst (groups_of s') = map fst (groups_of s) \<and>
    map (\<lambda>e. conns (snd e)) (groups_of s') =
      map (\<lambda>e. if sent = compared then filter (\<lambda>s. snd s \<noteq> f) (conns (snd e))
                else remove1 (sent, f) (conns (snd e))) (groups_of s)"
proof -
  obtain s1 w where c: "closeClientConnection compared now (sent, f) s = Some s1"
    and g: "getSocketFromAddress f (s_world s1) = (socket_of (w_book (s_world s1)) f, w)"
      "sends_only [] (s_world s1) w"
    and p: "purgeFeConnection f (s1\<lparr>s_world := w,
      s_closed := s_closed s1 @ [socket_of (w_book (s_world s1)) f]\<rparr>) = Some s'"
    using close known getSocketFromAddress_char [of f]
    by (fastforce simp: closeFrontEndConnection_def bind_iff)
  note eff = closeClientConnection_effect [OF ok c \<open>sent \<noteq> f\<close>]
  have closed: "s_closed s1 = s_closed s"
    using c by (auto simp: closeClientConnection_def bind_iff)
  note pe = purgeFeConnection_effect [OF p]
  have man: "s_manager s' = s_manager s1" "s_connectionsCount s' = s_connectionsCount s1"
    using pe by simp_all
  have "server_ok s'" using eff server_ok_cong [OF man] by simp
  moreover have "groups_of s' = groups_of s1" using man by (simp add: groups_of_def)
  moreover have "f \<notin> set (s_feAddresses s')" using pe by simp
  moreover have "w_sent (s_world s') = w_sent (s_world s)" "s_world s1 = s_world s"
    using pe g eff by (auto simp: sends_only_def)
  ultimately show ?thesis using eff pe closed by simp
qed

lemma closeFrontEndConnection_ok:
  assumes "server_ok s" and "closeFrontEndConnection sent compared now f s = Some s'" and "sent \<noteq> f"
  shows "server_ok s'"
proof (cases "f \<in> set (s_feAddresses s)")
  case True
  then show ?thesis using closeFrontEndConnection_effect [OF assms(1) _ assms(2,3)] by blast
next
  case False
  then show ?thesis using assms(1,2) by (simp add: closeFrontEndConnection_unknown)
qed

subsection \<open>Messages, replication and the consumer\<close>

lemma handleMessage_ok:
  assumes "server_ok s" and "handleMessage e p s = Some s'"
  shows "server_ok s' \<and> s_world s' = s_world s \<and> s_connectionsCount s' = s_connectionsCount s"
proof -
  obtain m where m: "processReceivedPacket (e_now e) p (s_manager s) = Some m"
    and s': "s' = s\<lparr>s_manager := m\<rparr>"
    using assms(2) by (auto simp: handleMessage_def)
  have "groups_ok (gm_groupMap (s_manager s))" using assms(1) by (simp add: server_ok_def groups_of_def)
  then show ?thesis
    using processReceivedPacket_effect [OF m] assms(1) by (simp add: server_ok_def groups_of_def s')
qed

lemma sendAck_keeps:
  assumes "sendAck e sock p s = Some s'"
  shows "s_manager s' = s_manager s \<and> s_connectionsCount s' = s_connectionsCount s"
  using assms by (auto simp: sendAck_def Let_def bind_iff)

lemma replicate_packet_char:
  "replicate_packet confirms p s =
     (if \<forall>k\<in>fst ` set (s_rm_sockets s). confirms k
      then Some (s\<lparr>s_world := (s_world s)\<lparr>w_sent := w_sent (s_world s) @
             map (\<lambda>e. (fst e, p)) (s_rm_sockets s)\<rparr>\<rparr>)
      else None)"
proof -
  have "foldM (\<lambda>sock s. if confirms sock then Some (s\<lparr>s_world := emit sock p (s_world s)\<rparr>) else None) ks s =
      (if \<forall>k\<in>set ks. confirms k
       then Some (s\<lparr>s_world := (s_world s)\<lparr>w_sent := w_sent (s_world s) @ map (\<lambda>k. (k, p)) ks\<rparr>\<rparr>)
       else None)" for ks
    by (induction ks arbitrary: s) (auto simp: emit_def)
  then show ?thesis by (simp add: replicate_packet_def comp_def)
qed

lemma replication_step_keeps:
  assumes "replication_step confirms f p s = Some (p', s')"
  shows "s_manager s' = s_manager s \<and> s_connectionsCount s' = s_connectionsCount s \<and>
    s_feAddresses s' = s_feAddresses s \<and> w_book (s_world s') = w_book (s_world s) \<and>
    p_user_id p' = p_user_id p \<and> p_type p' = p_type p \<and> p_group p' = p_group p \<and>
    p_username p' = p_username p \<and> p_message p' = p_message p \<and> (packet_sized p \<longrightarrow> packet_sized p')"
  using assms length_strcpy [of "p_frontEndAddress p" f]
  by (auto simp: replication_step_def bind_iff Let_def replicate_packet_char packet_sized_def
      split: if_splits)

lemma consume_loop_users:
  "consume_loop e ms g w = Some (g', w') \<Longrightarrow> g_users g' = g_users g \<and> g_groupName g' = g_groupName g"
  by (induction ms arbitrary: g w) (auto simp: bind_iff)

lemma consumeMessageQueue_users:
  "consumeMessageQueue e (g, w) = Some (g', w') \<Longrightarrow>
   g_users g' = g_users g \<and> g_groupName g' = g_groupName g"
  by (auto simp: consumeMessageQueue_def dest: consume_loop_users split: if_splits)

lemma consumeGroup_ok:
  assumes ok: "server_ok s" and "consumeGroup e gname s = Some s'"
  shows "server_ok s'"
proof (cases "map_find (groups_of s) gname")
  case None
  then show ?thesis using assms by (simp add: consumeGroup_def groups_of_def)
next
  case (Some g)
  then obtain g' w where c: "consumeMessageQueue e (g, s_world s) = Some (g', w)"
    and s': "s' = s\<lparr>s_manager := (s_manager s)\<lparr>gm_groupMap := map_assign (groups_of s) gname g'\<rparr>,
      s_world := w\<rparr>"
    using assms(2) by (auto simp: consumeGroup_def groups_of_def bind_iff Let_def)
  note users = consumeMessageQueue_users [OF c]
  have gs: "groups_ok (groups_of s)" "map_wf (groups_of s)"
    using ok by (simp_all add: server_ok_def groups_ok_def)
  have g: "group_ok g \<and> g_groupName g = gname" using groups_ok_find [OF gs(1) Some] .
  have "groups_ok (map_assign (groups_of s) gname g')"
    using g users by (intro groups_ok_assign [OF gs(1)]) (auto simp: group_ok_def)
  moreover have "int (total_sessions n (map_assign (groups_of s) gname g')) =
      int (total_sessions n (groups_of s))" for n
    using total_sessions_assign [OF gs(2), of n gname g'] Some users by simp
  ultimately show ?thesis
    using ok by (simp add: server_ok_def groups_of_def s')
qed

subsection \<open>Every step keeps the accounting\<close>

text \<open>The branches of the two handlers of packets, each with what it has done.\<close>

lemma handleFrontEndPacket_cases:
  assumes "handleFrontEndPacket e tag confirms f sock p s = Some s'"
  obtains (message) q t u where "replication_step confirms f p s = Some (q, t)" "isMessage q"
      "sendAck e sock q t = Some u" "handleMessage e q u = Some s'"
  | (keep_alive) q t where "replication_step confirms f p s = Some (q, t)" "isKeepAlive q"
      "s' = t\<lparr>s_monitor := refresh (e_now e) sock (s_monitor t)\<rparr>"
  | (join) q t r where "replication_step confirms f p s = Some (q, t)" "isJoinMessage q"
      "registerUserToServer e q f t = Some (r, s')"
  | (disconnect) q t uid where "replication_step confirms f p s = Some (q, t)" "isDisconnect q"
      "c_str (p_user_id q) = Some uid" "closeClientConnection tag (e_now e) (uid, f) t = Some s'"
  | (other) q t where "replication_step confirms f p s = Some (q, t)" "s' = t"
      "\<not> isMessage q" "\<not> isJoinMessage q" "\<not> isDisconnect q"
proof -
  obtain q t where r: "replication_step confirms f p s = Some (q, t)"
    and rest: "(if isMessage q then Option.bind (sendAck e sock q t) (handleMessage e q)
      else if isKeepAlive q then Some (t\<lparr>s_monitor := refresh (e_now e) sock (s_monitor t)\<rparr>)
      else if isJoinMessage q then map_option snd (registerUserToServer e q f t)
      else if isDisconnect q then
        Option.bind (c_str (p_user_id q)) (\<lambda>uid. closeClientConnection tag (e_now e) (uid, f) t)
      else Some t) = Some s'"
    using assms by (auto simp: handleFrontEndPacket_def bind_iff)
  consider "isMessage q" | "\<not> isMessage q" "isKeepAlive q" | "\<not> isMessage q" "\<not> isKeepAlive q" "isJoinMessage q"
    | "\<not> isMessage q" "\<not> isKeepAlive q" "\<not> isJoinMessage q" "isDisconnect q"
    | "\<not> isMessage q" "\<not> isKeepAlive q" "\<not> isJoinMessage q" "\<not> isDisconnect q"
    by blast
  then show ?thesis
  proof cases
    case 1
    then show ?thesis using r rest message by (auto simp: bind_iff)
  next
    case 2
    then show ?thesis using r rest keep_alive by auto
  next
    case 3
    then show ?thesis using r rest join by auto
  next
    case 4
    then show ?thesis using r rest disconnect by (auto simp: bind_iff)
  next
    case 5
    then show ?thesis using r rest other by auto
  qed
qed

lemma handleReplicationPacket_cases:
  assumes "handleReplicationPacket e tag sock p s = Some s'"
  obtains a t where "c_str (p_frontEndAddress p) = Some a"
      "s_manager s' = s_manager t" "s_connectionsCount s' = s_connectionsCount t" "s_feAddresses s' = s_feAddresses t"
      "isMessage p \<and> handleMessage e (p\<lparr>p_type := REPLICATION_PACKET\<rparr>) s = Some t \<or>
       isJoinMessage p \<and> (\<exists>r. registerUserToServer e p a s = Some (r, t)) \<or>
       isDisconnect p \<and> (\<exists>uid. c_str (p_user_id p) = Some uid \<and>
         closeClientConnection tag (e_now e) (uid, a) s = Some t) \<or>
       t = s \<and> \<not> isMessage p \<and> \<not> isJoinMessage p \<and> \<not> isDisconnect p"
proof -
  obtain a t where a: "c_str (p_frontEndAddress p) = Some a"
    and h: "(if isMessage p then handleMessage e (p\<lparr>p_type := REPLICATION_PACKET\<rparr>) s
      else if isJoinMessage p then map_option snd (registerUserToServer e p a s)
      else if isDisconnect p then
        Option.bind (c_str (p_user_id p)) (\<lambda>uid. closeClientConnection tag (e_now e) (uid, a) s)
      else Some s) = Some t"
    and t: "s_manager s' = s_manager t" "s_connectionsCount s' = s_connectionsCount t" "s_feAddresses s' = s_feAddresses t"
    using assms by (auto simp: handleReplicationPacket_def bind_iff Let_def)
  show ?thesis
    by (rule that [OF a t])
      (use h in \<open>cases "isMessage p"; cases "isJoinMessage p"; cases "isDisconnect p"; auto simp: bind_iff\<close>)
qed

lemma packet_kinds_apart:
  "isMessage p \<Longrightarrow> \<not> isJoinMessage p \<and> \<not> isDisconnect p \<and> \<not> isKeepAlive p"
  "isKeepAlive p \<Longrightarrow> \<not> isJoinMessage p \<and> \<not> isDisconnect p"
  "isDisconnect p \<Longrightarrow> \<not> isJoinMessage p"
  by (simp_all add: packet_kind_defs packet_type_defs)

lemma handleFrontEndPacket_ok:
  assumes ok: "server_ok s" and ids: "ids_apart p f"
    and step: "handleFrontEndPacket e tag confirms f sock p s = Some s'"
  shows "server_ok s'"
proof -
  have rep: "server_ok t \<and> ids_apart q f" if "replication_step confirms f p s = Some (q, t)" for q t
    using replication_step_keeps [OF that] ok ids server_ok_cong [of t s] by (simp add: ids_apart_def)
  show ?thesis
    using step
  proof (cases rule: handleFrontEndPacket_cases)
    case (message q t u)
    have "server_ok u" using sendAck_keeps [OF message(3)] rep [OF message(1)] server_ok_cong [of u t] by simp
    then show ?thesis using handleMessage_ok message(4) by blast
  next
    case (keep_alive q t)
    then show ?thesis using rep [OF keep_alive(1)] server_ok_cong [of s' t] by simp
  next
    case (join q t r)
    then show ?thesis using rep [OF join(1)] register_ok by blast
  next
    case (disconnect q t uid)
    then show ?thesis
      using rep [OF disconnect(1)] closeClientConnection_effect by (force simp: ids_apart_def)
  next
    case (other q t)
    then show ?thesis using rep [OF other(1)] by simp
  qed
qed

lemma handleReplicationPacket_ok:
  assumes ok: "server_ok s" and sized: "packet_sized p"
    and ids: "c_str (p_user_id p) = None \<or> c_str (p_user_id p) \<noteq> c_str (p_frontEndAddress p)"
    and step: "handleReplicationPacket e tag sock p s = Some s'"
  shows "server_ok s'"
  using step
proof (cases rule: handleReplicationPacket_cases)
  case (1 a t)
  have "ids_apart p a" using ids sized 1(1) by (auto simp: ids_apart_def)
  then have "isJoinMessage p \<Longrightarrow> registerUserToServer e p a s = Some (r, t) \<Longrightarrow> server_ok t"
      "c_str (p_user_id p) = Some uid \<Longrightarrow> closeClientConnection tag (e_now e) (uid, a) s = Some t \<Longrightarrow> server_ok t" for r uid
    using register_ok [OF ok] closeClientConnection_effect [OF ok] by (auto simp: ids_apart_def)
  then have "server_ok t" using 1(5) ok handleMessage_ok [OF ok] by blast
  then show ?thesis using server_ok_cong [OF 1(2,3)] by simp
qed

lemma server_step_ok:
  assumes ok: "server_ok s" and ev: "event_ok ev" and step: "server_step ev s = Some s'"
  shows "server_ok s'"
proof (cases ev)
  case (FE_Packet e tag lost f sock p)
  then show ?thesis using handleFrontEndPacket_ok [OF ok] ev step by simp
next
  case (RM_Packet e tag sock p)
  then show ?thesis
    using handleReplicationPacket_ok [OF ok, of p e tag sock s'] ev step by simp
next
  case (FE_Listener_Ends sent compared now f sock)
  then show ?thesis
    using closeFrontEndConnection_ok [of "s\<lparr>s_monitor := killSocket sock (s_monitor s)\<rparr>"]
      server_ok_cong [of "s\<lparr>s_monitor := killSocket sock (s_monitor s)\<rparr>" s] ok ev step
    by (simp add: frontEndListenerEnds_def)
next
  case (FE_Times_Out sent compared now f sock)
  then show ?thesis
    using closeFrontEndConnection_ok [of "s\<lparr>s_monitor := map_erase (s_monitor s) sock\<rparr>"]
      server_ok_cong [of "s\<lparr>s_monitor := map_erase (s_monitor s) sock\<rparr>" s] ok ev step
    by (simp add: frontEndTimesOut_def)
next
  case (RM_Listener_Ends sock)
  then show ?thesis using ok step server_ok_cong [of s' s] by (auto simp: replicationListenerEnds_def)
next
  case (Consume e gname)
  then show ?thesis using consumeGroup_ok [OF ok] step by simp
next
  case (Connect_FE sock r f port)
  then show ?thesis using ok step server_ok_cong [of s' s]
    by (auto simp: connectToFE_def Let_def split: if_splits)
next
  case (Accept_RM sock port)
  then show ?thesis using ok step server_ok_cong [of s' s]
    by (auto simp: acceptRMConnection_def split: if_splits)
next
  case Become_Primary
  then show ?thesis using ok step server_ok_cong [of s' s] by (auto simp: becomePrimary_def)
qed

interpretation server: event_machine server_step event_ok server_ok
  by unfold_locales (rule server_step_ok)

lemmas server_run_ok = server.run_inv [OF _ _ server_ok_Server]

end
