(* ===== verification/Server_Threads.thy ===== *)
theory Server_Threads
  imports Server_Invariant
begin

section \<open>The server's threads, from start to end\<close>

text \<open>
  The listening threads of \<open>src/server/server.cpp\<close> over all the packets they read: the listener
  of one front end, the monitor of its keep-alives and the listener of one replica. Each packet
  comes with the storage and time of its handling. The packets of the other threads are not in
  between; theory \<open>Server_Invariant\<close> has the invariant for every interleaving.
\<close>

definition listenFrontEndCommunication ::
    "string \<Rightarrow> (socket \<Rightarrow> bool) \<Rightarrow> string \<Rightarrow> (env \<times> packet) list \<Rightarrow> string \<Rightarrow> timestamp \<Rightarrow> server \<Rightarrow> server option" where
  \<comment> \<open>\<open>tag_compared\<close> and \<open>tag_sent\<close> are the two reads of \<open>FE_DISCONNECT\<close>\<close>
  "listenFrontEndCommunication tag_compared confirms feAddress received tag_sent now s =
     (let (feSocket, w) = getSocketFromAddress feAddress (s_world s) in do {
        s1 \<leftarrow> foldM (\<lambda>(e, p). handleFrontEndPacket e tag_compared confirms feAddress feSocket p) received
          (s\<lparr>s_world := w\<rparr>);
        frontEndListenerEnds tag_sent tag_compared now feAddress feSocket s1
      })"

definition monitorConnection ::
    "string \<Rightarrow> string \<Rightarrow> timestamp \<Rightarrow> (timestamp \<times> monitor_event) list \<Rightarrow> string \<Rightarrow> server \<Rightarrow> server option" where
  \<comment> \<open>\<open>None\<close> also while the monitor does not return\<close>
  "monitorConnection tag_sent tag_compared start events feAddress s =
     (let (socketID, w) = getSocketFromAddress feAddress (s_world s) in
      case monitor start socketID events (s_monitor s) of
        (None, _) \<Rightarrow> None
      | (Some now, m) \<Rightarrow> closeFrontEndConnection tag_sent tag_compared now feAddress
          (s\<lparr>s_world := w, s_monitor := m\<rparr>))"

definition handleRMCommunication :: "string \<Rightarrow> socket \<Rightarrow> (env \<times> packet) list \<Rightarrow> server \<Rightarrow> server option" where
  \<comment> \<open>the primary flag is read once, when the thread starts\<close>
  "handleRMCommunication tag rm_socket received s =
     (if w_primary (s_world s) then Some s
      else map_option (replicationListenerEnds rm_socket)
        (foldM (\<lambda>(e, p). handleReplicationPacket e tag rm_socket p) received s))"

subsection \<open>The front end's listener\<close>

lemma registerUserToServer_feAddresses:
  "registerUserToServer e p f s = Some (r, s') \<Longrightarrow> s_feAddresses s' = s_feAddresses s \<and> s_closed s' = s_closed s"
  by (auto simp: registerUserToServer_def registerUser_def bind_iff case_prod_beta Let_def split: if_splits)

lemma handleFrontEndPacket_feAddresses:
  assumes "handleFrontEndPacket e tag confirms f sock p s = Some s'"
  shows "s_feAddresses s' = s_feAddresses s"
proof -
  have rep: "s_feAddresses t = s_feAddresses s" if "replication_step confirms f p s = Some (q, t)" for q t
    using replication_step_keeps [OF that] by simp
  show ?thesis
    using assms
    by (cases rule: handleFrontEndPacket_cases)
      (auto simp: rep sendAck_def handleMessage_def closeClientConnection_def bind_iff Let_def
        dest!: rep registerUserToServer_feAddresses)
qed

lemma front_end_packets:
  assumes "foldM (\<lambda>(e, p). handleFrontEndPacket e tag confirms f sock p) received s = Some s'"
    and "server_ok s" and "\<forall>(e, p)\<in>set received. ids_apart p f"
  shows "server_ok s' \<and> s_feAddresses s' = s_feAddresses s"
  using assms
proof (induction received arbitrary: s)
  case Nil
  then show ?case by simp
next
  case (Cons x received)
  obtain e p where x: "x = (e, p)" by (cases x)
  obtain t where t: "handleFrontEndPacket e tag confirms f sock p s = Some t"
    and rest: "foldM (\<lambda>(e, p). handleFrontEndPacket e tag confirms f sock p) received t = Some s'"
    using Cons.prems(1) by (auto simp: x bind_iff)
  have "server_ok t" using handleFrontEndPacket_ok [OF Cons.prems(2) _ t] Cons.prems(3) by (simp add: x)
  then show ?case
    using Cons.IH [OF rest] Cons.prems(3) handleFrontEndPacket_feAddresses [OF t] by simp
qed

text \<open>Whatever a front end sends, once its listener has ended nothing of it is left.\<close>

lemma listenFrontEndCommunication_ends:
  assumes run: "listenFrontEndCommunication tag confirms f received tag now s = Some s'"
    and ok: "server_ok s" and ids: "\<forall>(e, p)\<in>set received. ids_apart p f" and "tag \<noteq> f"
    and known: "f \<in> set (s_feAddresses s)"
  shows "server_ok s' \<and> f \<notin> set (s_feAddresses s') \<and> (\<forall>x\<in>set (all_conns (groups_of s')). snd x \<noteq> f)"
proof -
  obtain sock w s1 where w: "getSocketFromAddress f (s_world s) = (sock, w)"
    and s1: "foldM (\<lambda>(e, p). handleFrontEndPacket e tag confirms f sock p) received (s\<lparr>s_world := w\<rparr>) = Some s1"
    and close: "closeFrontEndConnection tag tag now f (s1\<lparr>s_monitor := killSocket sock (s_monitor s1)\<rparr>) = Some s'"
    using run
    by (cases "getSocketFromAddress f (s_world s)")
      (auto simp: listenFrontEndCommunication_def frontEndListenerEnds_def bind_iff)
  let ?s1 = "s1\<lparr>s_monitor := killSocket sock (s_monitor s1)\<rparr>"
  have "server_ok (s\<lparr>s_world := w\<rparr>)" using ok server_ok_cong [of "s\<lparr>s_world := w\<rparr>" s] by simp
  note fp = front_end_packets [OF s1 this ids]
  have "server_ok ?s1" using fp server_ok_cong [of ?s1 s1] by simp
  moreover have "f \<in> set (s_feAddresses ?s1)" using fp known by simp
  ultimately have eff: "server_ok s' \<and> f \<notin> set (s_feAddresses s') \<and>
      map (\<lambda>e. conns (snd e)) (groups_of s') =
      map (\<lambda>e. filter (\<lambda>s. snd s \<noteq> f) (conns (snd e))) (groups_of ?s1)"
    using closeFrontEndConnection_effect [OF _ _ close \<open>tag \<noteq> f\<close>] by simp
  then have "all_conns (groups_of s') =
      concat (map (\<lambda>e. filter (\<lambda>s. snd s \<noteq> f) (conns (snd e))) (groups_of ?s1))"
    by (simp add: all_conns_def)
  then show ?thesis using eff by auto
qed

subsection \<open>The replica's listener\<close>

lemma handleRMCommunication_ok:
  assumes "handleRMCommunication tag sock received s = Some s'" and "server_ok s"
    and "\<forall>(e, p)\<in>set received. event_ok (RM_Packet e tag sock p)"
  shows "server_ok s'"
proof (cases "w_primary (s_world s)")
  case True
  then show ?thesis using assms by (simp add: handleRMCommunication_def)
next
  case False
  then obtain t where t: "foldM (\<lambda>(e, p). handleReplicationPacket e tag sock p) received s = Some t"
    and s': "s' = replicationListenerEnds sock t"
    using assms(1) by (auto simp: handleRMCommunication_def)
  have "server_ok t"
    using t assms(2,3)
  proof (induction received arbitrary: s)
    case Nil
    then show ?case by simp
  next
    case (Cons x received)
    obtain e p where x: "x = (e, p)" by (cases x)
    then show ?case
      using Cons handleReplicationPacket_ok [of _ p e tag sock] by (fastforce simp: bind_iff)
  qed
  then show ?thesis using server_ok_cong [of s' t] by (simp add: s' replicationListenerEnds_def)
qed

end
