(* ===== verification/Replication.thy ===== *)
theory Replication
  imports Server_Invariant
begin

section \<open>Primary and backup\<close>

text \<open>
  Passive replication: the packets the primary handles are handled again by every backup, with
  the front end's address written into the packet (\<open>listenFrontEndCommunication\<close> and
  \<open>handleRMCommunication\<close> of \<open>src/server/server.cpp\<close>). The roster of a server, its groups with
  their users and sessions, is the abstract state; the lemmas show that it evolves on a backup
  as on the primary, whatever the two processes' clocks, queues and histories are, and that the
  loss of a front end is the event that is not replicated.
\<close>

type_synonym roster = "(string, user list) cmap"

definition roster :: "(string, chat_group) cmap \<Rightarrow> roster" where
  "roster groups = map (\<lambda>e. (fst e, g_users (snd e))) groups"

definition in_step :: "server \<Rightarrow> server \<Rightarrow> bool" where
  "in_step P B \<longleftrightarrow> roster (groups_of P) = roster (groups_of B) \<and>
     s_connectionsCount P = s_connectionsCount B"

lemma roster_simps [simp]:
  "roster [] = []"
  "roster (e # gs) = (fst e, g_users (snd e)) # roster gs"
  by (simp_all add: roster_def)

lemma fst_roster [simp]: "map fst (roster gs) = map fst gs"
  by (induction gs) auto

lemma roster_find: "map_find (roster gs) k = map_option g_users (map_find gs k)"
  by (induction gs k rule: map_find.induct) auto

lemma roster_assign: "roster (map_assign gs k g) = map_assign (roster gs) k (g_users g)"
  by (induction gs k g rule: map_assign.induct) auto

lemma roster_assign_same:
  assumes "map_wf gs" and "map_find gs k = Some g" and "g_users g' = g_users g"
  shows "roster (map_assign gs k g') = roster gs"
  using assms
proof (induction gs k g' rule: map_assign.induct)
  case (1 k v)
  then show ?case by simp
next
  case (2 k' v' m k v)
  then have "k' \<noteq> k \<Longrightarrow> k \<in> fst ` set m"
    using map_find_None_iff [of m k] by auto
  then have "\<not> k < k'" using "2.prems"(1) by (fastforce simp: map_wf_Cons)
  with 2 show ?case by (auto simp: map_wf_Cons)
qed

lemma in_step_refl: "in_step s s"
  by (simp add: in_step_def)

lemma in_step_sym: "in_step P B \<Longrightarrow> in_step B P"
  by (simp add: in_step_def)

lemma in_step_trans: "in_step P B \<Longrightarrow> in_step B C \<Longrightarrow> in_step P C"
  by (simp add: in_step_def)

lemma in_step_cong:
  "s_manager P' = s_manager P \<Longrightarrow> s_connectionsCount P' = s_connectionsCount P \<Longrightarrow>
   in_step P' B = in_step P B"
  by (simp add: in_step_def groups_of_def)

subsection \<open>Joining\<close>

lemma registerNewSession_roster:
  assumes "registerNewSession e c f name (g, w) = Some (r, g', w')"
    and "g_users h = g_users g" and "\<not> w_primary v"
  shows "\<exists>h'. registerNewSession e2 c f name (h, v) = Some (r, h', v) \<and> g_users h' = g_users g'"
proof (cases "find_index (\<lambda>u. u_username u = name) (g_users g)")
  case None
  then show ?thesis
    using assms by (auto simp: registerNewSession_def Let_def bind_iff case_prod_beta split: if_splits)
next
  case (Some i)
  then show ?thesis
    using assms by (auto simp: registerNewSession_def Let_def bind_iff case_prod_beta split: if_splits)
qed

lemma registerUserToGroup_roster:
  assumes reg: "registerUserToGroup e c name gname (m, w) = Some (r, m', w')"
    and same: "roster (gm_groupMap n) = roster (gm_groupMap m)" and backup: "\<not> w_primary v"
  shows "\<exists>n'. registerUserToGroup e2 c name gname (n, v) = Some (r, n', v) \<and>
    roster (gm_groupMap n') = roster (gm_groupMap m')"
proof -
  define gs where "gs = (if \<not> groupExists m gname
      then map_assign (gm_groupMap m) gname (configureGroup (gm_maxMessages m) (Group (e_int e) gname))
      else gm_groupMap m)"
  define hs where "hs = (if \<not> groupExists n gname
      then map_assign (gm_groupMap n) gname (configureGroup (gm_maxMessages n) (Group (e_int e2) gname))
      else gm_groupMap n)"
  have "map_find (gm_groupMap n) gname = None \<longleftrightarrow> map_find (gm_groupMap m) gname = None"
    using same by (metis roster_find map_option_is_None)
  then have "groupExists n gname = groupExists m gname" by (simp add: groupExists_def)
  then have rs: "roster hs = roster gs"
    using same by (simp add: gs_def hs_def roster_assign configureGroup_def Group_def)
  obtain g g' where g: "map_find gs gname = Some g"
    and nr: "registerNewSession e (fst c) (snd c) name (g, w) = Some (r, g', w')"
    and m': "m' = m\<lparr>gm_groupMap := map_assign gs gname g'\<rparr>"
    using reg by (auto simp: registerUserToGroup_def gs_def [symmetric] bind_iff)
  obtain h where h: "map_find hs gname = Some h" "g_users h = g_users g"
    using rs g roster_find [of "gs" gname] roster_find [of "hs" gname]
    by (cases "map_find hs gname") auto
  obtain h' where h': "registerNewSession e2 (fst c) (snd c) name (h, v) = Some (r, h', v)"
      "g_users h' = g_users g'"
    using registerNewSession_roster [OF nr h(2) backup] by blast
  have "registerUserToGroup e2 c name gname (n, v) =
      Some (r, n\<lparr>gm_groupMap := map_assign hs gname h'\<rparr>, v)"
    using h(1) h'(1) by (simp add: registerUserToGroup_def hs_def [symmetric])
  then show ?thesis using rs h'(2) m' by (simp add: roster_assign)
qed

lemma registerUserToServer_in_step:
  assumes reg: "registerUserToServer e p f P = Some (r, P')"
    and same: "in_step P B" and backup: "\<not> w_primary (s_world B)" and env: "env_ok e2"
    and fields: "p_username q = p_username p" "p_group q = p_group p" "p_user_id q = p_user_id p"
    and sized: "packet_sized p"
  shows "\<exists>B'. registerUserToServer e2 q f B = Some (r, B') \<and> in_step P' B' \<and> s_world B' = s_world B"
proof -
  obtain name where name: "c_str (p_username p) = Some name"
    using reg by (auto simp: registerUserToServer_def bind_iff)
  obtain uid where uid: "c_str (p_user_id p) = Some uid"
    using reg by (auto simp: registerUserToServer_def bind_iff case_prod_beta Let_def split: if_splits)
  let ?inc = "incrementNumberOfConnectionsFromUser name (s_connectionsCount P)"
  have inc: "incrementNumberOfConnectionsFromUser name (s_connectionsCount B) = ?inc"
    using same by (simp add: in_step_def)
  show ?thesis
  proof (cases "fst ?inc = USER_SESSIONS_LIMIT_REACHED")
    case True
    have P': "r = -1 \<and> s_manager P' = s_manager P \<and> s_connectionsCount P' = s_connectionsCount P"
      using reg name True
      by (auto simp: registerUserToServer_def bind_iff case_prod_beta Let_def)
    obtain refused where ref: "Packet_of_type (e_mem e2) (e_uuid e2) CONNECTION_REFUSED_PACKET = Some refused"
        "packet_sized refused"
      using Packet_of_type_defined [of "e_mem e2" "e_uuid e2" CONNECTION_REFUSED_PACKET] env
      by (auto simp: env_ok_def UUID_SIZE_def)
    have "length uid < UUID_SIZE"
      using uid sized c_str_length [OF uid] by (simp add: packet_sized_def)
    then obtain buf where "strcpy (p_user_id refused) uid = Some buf"
      using strcpy_fits ref(2) by (metis packet_sized_def)
    then have "registerUserToServer e2 q f B = Some (-1, B)"
      using name uid fields inc True ref backup
      by (simp add: registerUserToServer_def case_prod_beta Let_def)
    moreover have "in_step P' B" using in_step_cong [of P' P B] P' same by simp
    ultimately show ?thesis using P' by simp
  next
    case False
    then obtain gname where gname: "c_str (p_group p) = Some gname"
      and ru: "registerUser e (uid, f) name gname (P\<lparr>s_connectionsCount := snd ?inc\<rparr>) = Some (r, P')"
      using reg name uid
      by (auto simp: registerUserToServer_def bind_iff case_prod_beta Let_def)
    then obtain m w where rg: "registerUserToGroup e (uid, f) name gname (s_manager P, s_world P) =
        Some (r, m, w)"
      and P': "P' = P\<lparr>s_connectionsCount := snd ?inc, s_manager := m, s_world := w\<rparr>"
      by (auto simp: registerUser_def bind_iff)
    have "roster (gm_groupMap (s_manager B)) = roster (gm_groupMap (s_manager P))"
      using same by (simp add: in_step_def groups_of_def)
    then obtain n where n: "registerUserToGroup e2 (uid, f) name gname (s_manager B, s_world B) =
        Some (r, n, s_world B)" "roster (gm_groupMap n) = roster (gm_groupMap m)"
      using registerUserToGroup_roster [OF rg _ backup] by blast
    have "registerUserToServer e2 q f B =
        Some (r, B\<lparr>s_connectionsCount := snd ?inc, s_manager := n\<rparr>)"
      using name uid gname fields inc False n(1)
      by (simp add: registerUserToServer_def registerUser_def case_prod_beta Let_def)
    then show ?thesis using n(2) by (simp add: P' in_step_def groups_of_def)
  qed
qed

subsection \<open>Leaving\<close>

lemma getUserFromConnectionId_users:
  "g_users h = g_users g \<Longrightarrow> getUserFromConnectionId c f h = getUserFromConnectionId c f g"
  by (simp add: getUserFromConnectionId_def)

lemma disconnectSession_roster:
  assumes "disconnectSession primary now c f (g, cs) = Some (g', cs')" and "g_users h = g_users g"
  shows "\<exists>h'. disconnectSession primary2 now2 c f (h, cs) = Some (h', cs') \<and> g_users h' = g_users g'"
proof (cases "getUserFromConnectionId c f g")
  case None
  then show ?thesis
    using assms by (simp add: disconnectSession_def getUserFromConnectionId_users [OF assms(2)])
next
  case (Some i)
  obtain u where u: "releaseSession (g_users g ! i) c f = Some u"
    using assms(1) Some by (auto simp: disconnectSession_def bind_iff Let_def)
  show ?thesis
    using assms Some u
    by (cases "getActiveConnections u = []")
      (auto simp: disconnectSession_def getUserFromConnectionId_users [OF assms(2)] Let_def
        split: if_splits)
qed

lemma propagate_loop_roster:
  assumes "propagate_loop tag primary now (c, f) gs cs = Some (gs', cs')"
    and "roster hs = roster gs" and "c \<noteq> tag" "c \<noteq> tag2"
  shows "\<exists>hs'. propagate_loop tag2 primary2 now2 (c, f) hs cs = Some (hs', cs') \<and> roster hs' = roster gs'"
  using assms
proof (induction gs arbitrary: cs gs' hs)
  case Nil
  then show ?case by (cases hs) auto
next
  case (Cons e gs)
  obtain k g where e: "e = (k, g)" by (cases e)
  obtain h hs0 where hs: "hs = (k, h) # hs0" "g_users h = g_users g" "roster hs0 = roster gs"
    using Cons.prems(2) by (cases hs) (auto simp: e)
  obtain g1 cs1 gs1 where d: "disconnectSession primary now c f (g, cs) = Some (g1, cs1)"
    and rest: "propagate_loop tag primary now (c, f) gs cs1 = Some (gs1, cs')"
    and res: "gs' = (k, g1) # gs1"
    using Cons.prems(1,3) by (auto simp: bind_iff e handleDisconnectEvent_eq)
  obtain h1 where h1: "disconnectSession primary2 now2 c f (h, cs) = Some (h1, cs1)"
      "g_users h1 = g_users g1"
    using disconnectSession_roster [OF d hs(2)] by blast
  obtain hs1 where hs1: "propagate_loop tag2 primary2 now2 (c, f) hs0 cs1 = Some (hs1, cs')"
      "roster hs1 = roster gs1"
    using Cons.IH [OF rest hs(3) Cons.prems(3,4)] by blast
  show ?case
    using h1 hs1 Cons.prems(4) by (simp add: hs(1) res handleDisconnectEvent_eq)
qed

lemma closeClientConnection_in_step:
  assumes "closeClientConnection tag now (c, f) P = Some P'" and "in_step P B"
    and "c \<noteq> tag" "c \<noteq> tag2"
  shows "\<exists>B'. closeClientConnection tag2 now2 (c, f) B = Some B' \<and> in_step P' B' \<and>
    s_world B' = s_world B"
proof -
  obtain gs cs where p: "propagate_loop tag (w_primary (s_world P)) now (c, f)
      (groups_of P) (s_connectionsCount P) = Some (gs, cs)"
    and P': "P' = P\<lparr>s_manager := (s_manager P)\<lparr>gm_groupMap := gs\<rparr>, s_connectionsCount := cs\<rparr>"
    using assms(1)
    by (auto simp: closeClientConnection_def propagateSocketDisconnectionEvent_def bind_iff groups_of_def)
  obtain hs where "propagate_loop tag2 (w_primary (s_world B)) now2 (c, f)
      (groups_of B) (s_connectionsCount P) = Some (hs, cs)" and hs: "roster hs = roster gs"
    using propagate_loop_roster [OF p _ assms(3,4)] assms(2) unfolding in_step_def by metis
  then have "closeClientConnection tag2 now2 (c, f) B =
      Some (B\<lparr>s_manager := (s_manager B)\<lparr>gm_groupMap := hs\<rparr>, s_connectionsCount := cs\<rparr>)"
    using assms(2)
    by (simp add: closeClientConnection_def propagateSocketDisconnectionEvent_def groups_of_def in_step_def)
  then show ?thesis using hs by (simp add: P' in_step_def groups_of_def)
qed

subsection \<open>What users say\<close>

text \<open>
  The chat of a group is what its queue holds apart from the notifications (a backup queues no
  \<open><Joined the group>\<close> and no \<open><Left the group>\<close>, and its clock differs).
\<close>

definition chat :: "chat_group \<Rightarrow> (string \<times> string) list" where
  "chat g = map (\<lambda>m. (m_user m, m_text m)) (filter (\<lambda>m. \<not> m_isNotification m) (g_messages_queue g))"

definition queued_chat :: "(string, chat_group) cmap \<Rightarrow> string \<Rightarrow> (string \<times> string) list" where
  "queued_chat groups k = (case map_find groups k of None \<Rightarrow> [] | Some g \<Rightarrow> chat g)"

lemma chat_simps [simp]:
  "chat (g\<lparr>g_users := us\<rparr>) = chat g"
  "chat (configureGroup mx g) = chat g"
  "chat (Group mem n) = []"
  "chat (sendActivityMessage now n t g) = chat g"
  "chat (processReceivedMessage now n t g) = chat g @ [(n, t)]"
  by (simp_all add: chat_def configureGroup_def Group_def sendActivityMessage_def
      processReceivedMessage_def)

lemma queued_chat_assign:
  "queued_chat (map_assign gs k g) j = (if j = k then chat g else queued_chat gs j)"
  by (simp add: queued_chat_def)

lemma registerNewSession_chat:
  "registerNewSession e c f name (g, w) = Some (r, g', w') \<Longrightarrow> chat g' = chat g"
  by (auto simp: registerNewSession_def Let_def bind_iff case_prod_beta split: option.splits if_splits)

lemma registerUserToGroup_chat:
  assumes "registerUserToGroup e c name gname (m, w) = Some (r, m', w')"
  shows "queued_chat (gm_groupMap m') = queued_chat (gm_groupMap m)"
proof -
  define gs where "gs = (if \<not> groupExists m gname
      then map_assign (gm_groupMap m) gname (configureGroup (gm_maxMessages m) (Group (e_int e) gname))
      else gm_groupMap m)"
  obtain g g' where g: "map_find gs gname = Some g"
    and nr: "registerNewSession e (fst c) (snd c) name (g, w) = Some (r, g', w')"
    and m': "m' = m\<lparr>gm_groupMap := map_assign gs gname g'\<rparr>"
    using assms by (auto simp: registerUserToGroup_def gs_def [symmetric] bind_iff)
  have "queued_chat gs = queued_chat (gm_groupMap m)"
    by (rule ext) (simp add: gs_def queued_chat_assign, simp add: queued_chat_def groupExists_def)
  moreover have "chat g' = queued_chat gs gname"
    using registerNewSession_chat [OF nr] g by (simp add: queued_chat_def)
  ultimately show ?thesis by (intro ext) (simp add: m' queued_chat_assign)
qed

lemma registerUserToServer_chat:
  assumes "registerUserToServer e p f s = Some (r, s')"
  shows "queued_chat (groups_of s') = queued_chat (groups_of s)"
proof -
  have "s_manager s' = s_manager s \<or> (\<exists>c name gname w'.
      registerUserToGroup e c name gname (s_manager s, s_world s) = Some (r, s_manager s', w'))"
    using assms
    by (auto simp: registerUserToServer_def registerUser_def bind_iff case_prod_beta Let_def
        split: if_splits)
  then show ?thesis
    using registerUserToGroup_chat unfolding groups_of_def by metis
qed

lemma disconnectSession_chat:
  assumes "disconnectSession primary now c f (g, cs) = Some (g', cs')"
  shows "chat g' = chat g"
proof (cases "getUserFromConnectionId c f g")
  case None
  then show ?thesis using assms by (simp add: disconnectSession_def)
next
  case (Some i)
  then obtain u where "releaseSession (g_users g ! i) c f = Some u"
    using assms by (auto simp: disconnectSession_def bind_iff Let_def)
  then show ?thesis
    using assms Some by (auto simp: disconnectSession_def Let_def split: if_splits)
qed

lemma propagate_loop_chat:
  assumes "propagate_loop tag primary now (c, f) gs cs = Some (gs', cs')" and "c \<noteq> tag"
  shows "queued_chat gs' = queued_chat gs"
  using assms
proof (induction gs arbitrary: cs gs')
  case Nil
  then show ?case by simp
next
  case (Cons e gs)
  obtain k g where e: "e = (k, g)" by (cases e)
  obtain g1 cs1 gs1 where d: "disconnectSession primary now c f (g, cs) = Some (g1, cs1)"
    and rest: "propagate_loop tag primary now (c, f) gs cs1 = Some (gs1, cs')"
    and res: "gs' = (k, g1) # gs1"
    using Cons.prems(1,2) by (auto simp: bind_iff e handleDisconnectEvent_eq)
  have "queued_chat gs1 j = queued_chat gs j" for j
    using Cons.IH [OF rest Cons.prems(2)] by simp
  then show ?case
    using disconnectSession_chat [OF d] by (intro ext) (auto simp: e res queued_chat_def)
qed

lemma closeClientConnection_chat:
  assumes "closeClientConnection tag now (c, f) s = Some s'" and "c \<noteq> tag"
  shows "queued_chat (groups_of s') = queued_chat (groups_of s)"
  using assms
  by (auto simp: closeClientConnection_def propagateSocketDisconnectionEvent_def bind_iff groups_of_def
      dest: propagate_loop_chat)

lemma handleMessage_chat:
  assumes h: "handleMessage e p s = Some s'" and ok: "server_ok s"
  shows "\<exists>gname. c_str (p_group p) = Some gname \<and>
    (case map_find (groups_of s) gname of
       None \<Rightarrow> s' = s
     | Some g \<Rightarrow> (\<exists>u t. c_str (p_username p) = Some u \<and> c_str (p_message p) = Some t \<and>
         groups_of s' = map_assign (groups_of s) gname (processReceivedMessage (e_now e) u t g) \<and>
         roster (groups_of s') = roster (groups_of s)))"
proof -
  obtain gname where gn: "c_str (p_group p) = Some gname"
    using h by (auto simp: handleMessage_def processReceivedPacket_def bind_iff)
  show ?thesis
  proof (cases "map_find (groups_of s) gname")
    case None
    then show ?thesis
      using h gn by (auto simp: handleMessage_def processReceivedPacket_def groups_of_def)
  next
    case (Some g)
    then obtain u t where ut: "c_str (p_username p) = Some u" "c_str (p_message p) = Some t"
      and s': "groups_of s' = map_assign (groups_of s) gname (processReceivedMessage (e_now e) u t g)"
      using h gn
      by (auto simp: handleMessage_def processReceivedPacket_def bind_iff groups_of_def)
    have "roster (groups_of s') = roster (groups_of s)"
      unfolding s' using ok Some
      by (intro roster_assign_same) (auto simp: server_ok_def groups_ok_def)
    then show ?thesis using gn Some ut s' by auto
  qed
qed

subsection \<open>One replicated packet\<close>

definition replica_packet :: "string \<Rightarrow> packet \<Rightarrow> packet option" where
  "replica_packet f p = map_option (\<lambda>b. p\<lparr>p_frontEndAddress := b\<rparr>) (strcpy (p_frontEndAddress p) f)"

lemma isX_frontEndAddress [simp]:
  "isMessage (p\<lparr>p_frontEndAddress := b\<rparr>) = isMessage p"
  "isJoinMessage (p\<lparr>p_frontEndAddress := b\<rparr>) = isJoinMessage p"
  "isDisconnect (p\<lparr>p_frontEndAddress := b\<rparr>) = isDisconnect p"
  "isKeepAlive (p\<lparr>p_frontEndAddress := b\<rparr>) = isKeepAlive p"
  by (simp_all add: isMessage_def isJoinMessage_def isDisconnect_def isKeepAlive_def)

text \<open>
  The queued chat grows on both sides by the same entries, and the rosters stay equal. For a
  message the backup's handler changes the type of the packet first, which no later step reads.
\<close>

definition same_growth :: "server \<Rightarrow> server \<Rightarrow> server \<Rightarrow> server \<Rightarrow> bool" where
  "same_growth P P' B B' \<longleftrightarrow> (\<exists>said. \<forall>k.
     queued_chat (groups_of P') k = queued_chat (groups_of P) k @ said k \<and>
     queued_chat (groups_of B') k = queued_chat (groups_of B) k @ said k)"

lemma same_growth_none:
  "queued_chat (groups_of P') = queued_chat (groups_of P) \<Longrightarrow>
   queued_chat (groups_of B') = queued_chat (groups_of B) \<Longrightarrow> same_growth P P' B B'"
  unfolding same_growth_def by (intro exI [of _ "\<lambda>_. []"]) simp

lemma handleMessage_in_step:
  assumes h: "handleMessage e p P = Some P'" and ok: "server_ok P" "server_ok B" and same: "in_step P B"
    and fields: "p_group q = p_group p" "p_username q = p_username p" "p_message q = p_message p"
  shows "\<exists>B'. handleMessage e2 q B = Some B' \<and> in_step P' B' \<and> same_growth P P' B B' \<and>
    s_world B' = s_world B"
proof -
  note keep = handleMessage_ok [OF ok(1) h]
  have R: "roster (groups_of B) = roster (groups_of P)" using same by (simp add: in_step_def)
  obtain gname where gn: "c_str (p_group p) = Some gname"
    and cs: "case map_find (groups_of P) gname of
       None \<Rightarrow> P' = P
     | Some g \<Rightarrow> (\<exists>u t. c_str (p_username p) = Some u \<and> c_str (p_message p) = Some t \<and>
         groups_of P' = map_assign (groups_of P) gname (processReceivedMessage (e_now e) u t g) \<and>
         roster (groups_of P') = roster (groups_of P))"
    using handleMessage_chat [OF h ok(1)] by blast
  have fnd: "map_option g_users (map_find (groups_of B) gname) =
      map_option g_users (map_find (groups_of P) gname)"
    using R roster_find by metis
  show ?thesis
  proof (cases "map_find (groups_of P) gname")
    case None
    then have "map_find (groups_of B) gname = None" using fnd by simp
    then have "handleMessage e2 q B = Some B"
      using gn fields by (simp add: handleMessage_def processReceivedPacket_def groups_of_def)
    then show ?thesis using None cs same by (simp add: same_growth_none)
  next
    case (Some g)
    then obtain u t where ut: "c_str (p_username p) = Some u" "c_str (p_message p) = Some t"
      and P': "groups_of P' = map_assign (groups_of P) gname (processReceivedMessage (e_now e) u t g)"
        "roster (groups_of P') = roster (groups_of P)"
      using cs by auto
    obtain h0 where h0: "map_find (groups_of B) gname = Some h0" using fnd Some by auto
    define B' where "B' = B\<lparr>s_manager := (s_manager B)\<lparr>gm_groupMap :=
        map_assign (groups_of B) gname (processReceivedMessage (e_now e2) u t h0)\<rparr>\<rparr>"
    have B': "handleMessage e2 q B = Some B'"
      using gn fields ut h0
      by (simp add: handleMessage_def processReceivedPacket_def groups_of_def B'_def)
    have gB': "groups_of B' = map_assign (groups_of B) gname (processReceivedMessage (e_now e2) u t h0)"
      by (simp add: groups_of_def B'_def)
    have "roster (groups_of B') = roster (groups_of B)"
      using handleMessage_chat [OF B' ok(2)] gn fields h0 by auto
    then have "in_step P' B'" using P' R same keep by (simp add: in_step_def B'_def)
    moreover have "same_growth P P' B B'"
      unfolding same_growth_def P' gB' using Some h0
      by (intro exI [of _ "\<lambda>k. if k = gname then [(u, t)] else []"])
        (simp add: queued_chat_assign, simp add: queued_chat_def)
    ultimately show ?thesis using B' by (simp add: B'_def)
  qed
qed

lemma replication_step_replica:
  assumes "replication_step confirms f p P = Some (p1, P1)" and "w_primary (s_world P)"
    and "replicates p" and "s_rm_sockets P \<noteq> []"
  shows "replica_packet f p = Some p1 \<and>
    w_sent (s_world P1) = w_sent (s_world P) @ map (\<lambda>e. (fst e, p1)) (s_rm_sockets P)"
  using assms
  by (auto simp: replication_step_def replica_packet_def bind_iff Let_def replicate_packet_char
      split: if_splits)

lemma handleReplicationPacket_world:
  assumes "Some B1 = (if isMessage q then handleMessage e2 (q\<lparr>p_type := REPLICATION_PACKET\<rparr>) B
      else if isJoinMessage q then map_option snd (registerUserToServer e2 q f B)
      else if isDisconnect q then
        Option.bind (c_str (p_user_id q)) (\<lambda>uid. closeClientConnection tag (e_now e2) (uid, f) B)
      else Some B)"
    and "c_str (p_frontEndAddress q) = Some f"
  shows "\<exists>B'. handleReplicationPacket e2 tag rsock q B = Some B' \<and> s_manager B' = s_manager B1 \<and>
    s_connectionsCount B' = s_connectionsCount B1 \<and> w_primary (s_world B') = w_primary (s_world B1)"
  unfolding handleReplicationPacket_def assms(2) bind.bind_lunit assms(1) [symmetric]
  by (simp add: emit_def Let_def)

text \<open>The client identifier of a disconnection is not what either process reads as \<open>FE_DISCONNECT\<close>.\<close>

definition client_packet :: "string \<Rightarrow> string \<Rightarrow> packet \<Rightarrow> bool" where
  "client_packet tag tag2 p \<longleftrightarrow>
     packet_sized p \<and> c_str (p_user_id p) \<noteq> Some tag \<and> c_str (p_user_id p) \<noteq> Some tag2"

text \<open>What the handler does after the replication step, for the three kinds of packets replicated.\<close>

lemma replicated_core:
  assumes ok: "server_ok P" "server_ok B" and same: "in_step P B" and backup: "\<not> w_primary (s_world B)"
    and env: "env_ok e2" and cp: "client_packet tag tag2 p" and kind: "replicates p"
    and step: "(if isMessage p then Option.bind (sendAck e sock p P) (handleMessage e p)
      else if isKeepAlive p then Some (P\<lparr>s_monitor := refresh (e_now e) sock (s_monitor P)\<rparr>)
      else if isJoinMessage p then map_option snd (registerUserToServer e p f P)
      else if isDisconnect p then
        Option.bind (c_str (p_user_id p)) (\<lambda>uid. closeClientConnection tag (e_now e) (uid, f) P)
      else Some P) = Some P'"
  shows "\<exists>B1. Some B1 = (if isMessage p then handleMessage e2 (p\<lparr>p_type := REPLICATION_PACKET\<rparr>) B
      else if isJoinMessage p then map_option snd (registerUserToServer e2 p f B)
      else if isDisconnect p then
        Option.bind (c_str (p_user_id p)) (\<lambda>uid. closeClientConnection tag2 (e_now e2) (uid, f) B)
      else Some B) \<and> in_step P' B1 \<and> same_growth P P' B B1 \<and> s_world B1 = s_world B"
proof -
  consider (msg) "isMessage p" | (join) "isJoinMessage p" "\<not> isMessage p" "\<not> isKeepAlive p"
    | (leave) "isDisconnect p" "\<not> isMessage p" "\<not> isKeepAlive p" "\<not> isJoinMessage p"
    using kind by (auto simp: replicates_def isMessage_def isJoinMessage_def isDisconnect_def
        isKeepAlive_def packet_type_defs)
  then show ?thesis
  proof cases
    case msg
    then obtain P1 where a: "sendAck e sock p P = Some P1" and h: "handleMessage e p P1 = Some P'"
      using step by (auto simp: bind_iff)
    have k: "s_manager P1 = s_manager P" "s_connectionsCount P1 = s_connectionsCount P"
      using sendAck_keeps [OF a] by simp_all
    have "groups_of P1 = groups_of P" using k by (simp add: groups_of_def)
    moreover have "server_ok P1" "in_step P1 B"
      using k ok(1) same server_ok_cong [OF k] in_step_cong [OF k] by simp_all
    ultimately show ?thesis
      using handleMessage_in_step [OF h _ ok(2), of "p\<lparr>p_type := REPLICATION_PACKET\<rparr>" e2] msg
      by (auto simp: same_growth_def)
  next
    case join
    then obtain r where reg: "registerUserToServer e p f P = Some (r, P')" using step by auto
    obtain B1 where B1: "registerUserToServer e2 p f B = Some (r, B1)" "in_step P' B1"
        "s_world B1 = s_world B"
      using registerUserToServer_in_step [OF reg same backup env] cp by (auto simp: client_packet_def)
    then show ?thesis
      using join registerUserToServer_chat [OF reg] registerUserToServer_chat [OF B1(1)]
      by (auto intro: same_growth_none)
  next
    case leave
    then obtain uid where uid: "c_str (p_user_id p) = Some uid"
      and c: "closeClientConnection tag (e_now e) (uid, f) P = Some P'"
      using step by (auto simp: bind_iff)
    have ne: "uid \<noteq> tag" "uid \<noteq> tag2" using cp uid by (auto simp: client_packet_def)
    obtain B1 where B1: "closeClientConnection tag2 (e_now e2) (uid, f) B = Some B1" "in_step P' B1"
        "s_world B1 = s_world B"
      using closeClientConnection_in_step [OF c same ne] by blast
    then show ?thesis
      using leave uid closeClientConnection_chat [OF c ne(1)] closeClientConnection_chat [OF B1(1) ne(2)]
      by (auto intro: same_growth_none)
  qed
qed

lemma replicated_packet:
  assumes step: "handleFrontEndPacket e tag confirms f sock p P = Some P'"
    and primary: "w_primary (s_world P)" and kind: "replicates p" and peers: "s_rm_sockets P \<noteq> []"
    and ok: "server_ok P" "server_ok B" and same: "in_step P B" and backup: "\<not> w_primary (s_world B)"
    and env: "env_ok e2" and cp: "client_packet tag tag2 p" and f: "NUL \<notin> set f"
  shows "\<exists>q B'. replica_packet f p = Some q \<and>
    handleReplicationPacket e2 tag2 rsock q B = Some B' \<and> in_step P' B' \<and> same_growth P P' B B' \<and>
    \<not> w_primary (s_world B')"
proof -
  obtain p1 P1 where r: "replication_step confirms f p P = Some (p1, P1)"
    and rest: "(if isMessage p1 then Option.bind (sendAck e sock p1 P1) (handleMessage e p1)
      else if isKeepAlive p1 then Some (P1\<lparr>s_monitor := refresh (e_now e) sock (s_monitor P1)\<rparr>)
      else if isJoinMessage p1 then map_option snd (registerUserToServer e p1 f P1)
      else if isDisconnect p1 then
        Option.bind (c_str (p_user_id p1)) (\<lambda>uid. closeClientConnection tag (e_now e) (uid, f) P1)
      else Some P1) = Some P'"
    using step by (auto simp: handleFrontEndPacket_def bind_iff)
  note k = replication_step_keeps [OF r]
  have rp: "replica_packet f p = Some p1"
    using replication_step_replica [OF r primary kind peers] by blast
  then obtain b where b: "strcpy (p_frontEndAddress p) f = Some b" "p1 = p\<lparr>p_frontEndAddress := b\<rparr>"
    by (auto simp: replica_packet_def)
  have addr: "c_str (p_frontEndAddress p1) = Some f"
    using c_str_strcpy [OF b(1) f] b(2) by simp
  have man: "s_manager P1 = s_manager P" "s_connectionsCount P1 = s_connectionsCount P" using k by auto
  have g: "groups_of P1 = groups_of P" using man by (simp add: groups_of_def)
  have ok1: "server_ok P1" using server_ok_cong [OF man] ok(1) by simp
  have same1: "in_step P1 B" using in_step_cong [OF man] same by simp
  have cp1: "client_packet tag tag2 p1" using k cp by (auto simp: client_packet_def)
  have kind1: "replicates p1" using kind by (simp add: b(2) replicates_def)
  obtain B1 where B1: "Some B1 = (if isMessage p1 then handleMessage e2 (p1\<lparr>p_type := REPLICATION_PACKET\<rparr>) B
      else if isJoinMessage p1 then map_option snd (registerUserToServer e2 p1 f B)
      else if isDisconnect p1 then
        Option.bind (c_str (p_user_id p1)) (\<lambda>uid. closeClientConnection tag2 (e_now e2) (uid, f) B)
      else Some B)" and e: "in_step P' B1" "same_growth P1 P' B B1" "s_world B1 = s_world B"
    using replicated_core [OF ok1 ok(2) same1 backup env cp1 kind1 rest] by blast
  obtain B' where B': "handleReplicationPacket e2 tag2 rsock p1 B = Some B'"
    and kB: "s_manager B' = s_manager B1" "s_connectionsCount B' = s_connectionsCount B1"
      "w_primary (s_world B') = w_primary (s_world B1)"
    using handleReplicationPacket_world [OF B1 addr] by blast
  have "in_step P' B'" using in_step_cong [OF kB(1,2), of P'] in_step_sym e(1) by blast
  moreover have "same_growth P P' B B'"
    using e(2) g kB(1) by (simp add: same_growth_def groups_of_def)
  ultimately show ?thesis using rp B' backup e(3) kB(3) by auto
qed

subsection \<open>Runs of a primary with one backup\<close>

text \<open>
  The pair of processes as an event machine: the primary handles a packet and the backup handles
  the copy it was sent, and the consumer thread of a group runs on one side or the other.
\<close>

datatype pair_event =
    Client_Packet env string "socket list" string socket packet env string socket
  | Consume_Primary env string
  | Consume_Backup env string

fun pair_step :: "pair_event \<Rightarrow> server \<times> server \<Rightarrow> (server \<times> server) option" where
  "pair_step (Client_Packet e tag lost f sock p e2 tag2 rsock) (P, B) = do {
     P' \<leftarrow> handleFrontEndPacket e tag (\<lambda>r. r \<notin> set lost) f sock p P;
     if w_primary (s_world P) \<and> replicates p \<and> s_rm_sockets P \<noteq> []
     then do {
       q \<leftarrow> replica_packet f p;
       B' \<leftarrow> handleReplicationPacket e2 tag2 rsock q B;
       Some (P', B')
     } else Some (P', B)
   }"
| "pair_step (Consume_Primary e gname) (P, B) = map_option (\<lambda>P'. (P', B)) (consumeGroup e gname P)"
| "pair_step (Consume_Backup e gname) (P, B) = map_option (\<lambda>B'. (P, B')) (consumeGroup e gname B)"

fun pair_event_ok :: "pair_event \<Rightarrow> bool" where
  "pair_event_ok (Client_Packet e tag lost f sock p e2 tag2 rsock) =
     (env_ok e2 \<and> client_packet tag tag2 p \<and> NUL \<notin> set f \<and> ids_apart p f)"
| "pair_event_ok _ = True"

definition pair_ok :: "server \<times> server \<Rightarrow> bool" where
  "pair_ok PB \<longleftrightarrow> server_ok (fst PB) \<and> server_ok (snd PB) \<and> in_step (fst PB) (snd PB) \<and>
     w_primary (s_world (fst PB)) \<and> s_rm_sockets (fst PB) \<noteq> [] \<and> \<not> w_primary (s_world (snd PB))"

text \<open>No handler changes the role of its process.\<close>

named_theorems keeps_role \<open>operations that keep \<open>isPrimaryServer\<close>\<close>

lemma getSocketFromAddress_role [simp]:
  "w_primary (snd (getSocketFromAddress f w)) = w_primary w"
  by (simp add: getSocketFromAddress_def case_prod_beta Let_def)

lemma emit_role [simp]: "w_primary (emit s p w) = w_primary w"
  by (simp add: emit_def)

lemma sendPacketToSocketId_role [simp]: "w_primary (sendPacketToSocketId p f w) = w_primary w"
  by (simp add: sendPacketToSocketId_def case_prod_beta Let_def)

lemma sendMessageToSession_role [keeps_role]:
  "sendMessageToSession e m c f w = Some w' \<Longrightarrow> w_primary w' = w_primary w"
  by (auto simp: sendMessageToSession_def case_prod_beta Let_def bind_iff)

lemma broadcast_role [keeps_role]:
  assumes "broadcastMessageToUsers e m cs w = Some w'"
  shows "w_primary w' = w_primary w"
  using assms unfolding broadcastMessageToUsers_def
  by (rule foldM_invariant) (auto dest: sendMessageToSession_role)

lemma sendHistoryToUser_role [keeps_role]:
  assumes "sendHistoryToUser e c f g w = Some w'"
  shows "w_primary w' = w_primary w"
proof -
  obtain ms fs where "foldM (\<lambda>m. sendMessageToAddress e (setIsNotification m True) c f) ms
      (w\<lparr>w_files := fs\<rparr>) = Some w'"
    using assms by (auto simp: sendHistoryToUser_def bind_iff)
  then have "w_primary w' = w_primary (w\<lparr>w_files := fs\<rparr>)"
    by (rule foldM_invariant) (auto simp: sendMessageToAddress_eq dest: sendMessageToSession_role)
  then show ?thesis by simp
qed

lemma sendAcceptToUser_role [keeps_role]:
  "sendAcceptToUser e c f w = Some w' \<Longrightarrow> w_primary w' = w_primary w"
  by (auto simp: sendAcceptToUser_def Let_def bind_iff)

lemma registerNewSession_role [keeps_role]:
  "registerNewSession e c f n (g, w) = Some (r, g', w') \<Longrightarrow> w_primary w' = w_primary w"
  by (auto simp: registerNewSession_def Let_def bind_iff case_prod_beta
      dest!: keeps_role split: if_splits)

lemma registerUserToGroup_role [keeps_role]:
  "registerUserToGroup e c n gname (m, w) = Some (r, m', w') \<Longrightarrow> w_primary w' = w_primary w"
  unfolding registerUserToGroup_def Let_def prod.case bind_iff
  by (auto dest!: registerNewSession_role)

lemma registerUserToServer_role [keeps_role]:
  assumes "registerUserToServer e p f s = Some (r, s')"
  shows "w_primary (s_world s') = w_primary (s_world s) \<and> s_rm_sockets s' = s_rm_sockets s"
  using assms
  by (auto simp: registerUserToServer_def registerUser_def bind_iff case_prod_beta Let_def
      dest!: registerUserToGroup_role split: if_splits)

lemma closeClientConnection_role [keeps_role]:
  "closeClientConnection tag now c s = Some s' \<Longrightarrow> s_world s' = s_world s \<and> s_rm_sockets s' = s_rm_sockets s"
  by (auto simp: closeClientConnection_def bind_iff)

lemma handleMessage_role [keeps_role]:
  "handleMessage e p s = Some s' \<Longrightarrow> s_world s' = s_world s \<and> s_rm_sockets s' = s_rm_sockets s"
  by (auto simp: handleMessage_def)

lemma consume_loop_role [keeps_role]:
  "consume_loop e ms g w = Some (g', w') \<Longrightarrow> w_primary w' = w_primary w"
  by (induction ms arbitrary: g w)
    (auto simp: bind_iff consumeMessage_def Let_def dest!: broadcast_role split: if_splits)

lemma consumeGroup_role [keeps_role]:
  "consumeGroup e gname s = Some s' \<Longrightarrow>
   w_primary (s_world s') = w_primary (s_world s) \<and> s_rm_sockets s' = s_rm_sockets s"
  by (auto simp: consumeGroup_def consumeMessageQueue_def bind_iff Let_def
      dest!: keeps_role split: option.splits if_splits)

lemma handleFrontEndPacket_role [keeps_role]:
  assumes "handleFrontEndPacket e tag confirms f sock p P = Some P'"
  shows "w_primary (s_world P') = w_primary (s_world P) \<and> s_rm_sockets P' = s_rm_sockets P"
proof -
  obtain p1 P1 where r: "replication_step confirms f p P = Some (p1, P1)"
    and rest: "(if isMessage p1 then Option.bind (sendAck e sock p1 P1) (handleMessage e p1)
      else if isKeepAlive p1 then Some (P1\<lparr>s_monitor := refresh (e_now e) sock (s_monitor P1)\<rparr>)
      else if isJoinMessage p1 then map_option snd (registerUserToServer e p1 f P1)
      else if isDisconnect p1 then
        Option.bind (c_str (p_user_id p1)) (\<lambda>uid. closeClientConnection tag (e_now e) (uid, f) P1)
      else Some P1) = Some P'"
    using assms by (auto simp: handleFrontEndPacket_def bind_iff)
  have "w_primary (s_world P1) = w_primary (s_world P) \<and> s_rm_sockets P1 = s_rm_sockets P"
    using r by (auto simp: replication_step_def bind_iff Let_def replicate_packet_char split: if_splits)
  then show ?thesis
    using rest
    by (auto simp: bind_iff sendAck_def Let_def split: if_splits
        dest!: keeps_role)
qed

subsection \<open>The pair keeps in step\<close>

lemma consumeGroup_roster:
  assumes "server_ok s" and "consumeGroup e gname s = Some s'"
  shows "roster (groups_of s') = roster (groups_of s) \<and> s_connectionsCount s' = s_connectionsCount s"
proof (cases "map_find (groups_of s) gname")
  case None
  then show ?thesis using assms by (simp add: consumeGroup_def groups_of_def)
next
  case (Some g)
  then obtain g' w where c: "consumeMessageQueue e (g, s_world s) = Some (g', w)"
    and s': "s' = s\<lparr>s_manager := (s_manager s)\<lparr>gm_groupMap := map_assign (groups_of s) gname g'\<rparr>,
      s_world := w\<rparr>"
    using assms(2) by (auto simp: consumeGroup_def groups_of_def bind_iff Let_def)
  have "roster (map_assign (groups_of s) gname g') = roster (groups_of s)"
    using assms(1) Some consumeMessageQueue_users [OF c]
    by (intro roster_assign_same) (auto simp: server_ok_def groups_ok_def)
  then show ?thesis by (simp add: s' groups_of_def)
qed

lemma pair_step_ok:
  assumes inv: "pair_ok PB" and ev: "pair_event_ok ev" and step: "pair_step ev PB = Some PB'"
  shows "pair_ok PB'"
proof -
  obtain P B where PB: "PB = (P, B)" by (cases PB)
  have P: "server_ok P" "server_ok B" "in_step P B" "w_primary (s_world P)" "s_rm_sockets P \<noteq> []"
      "\<not> w_primary (s_world B)"
    using inv by (simp_all add: pair_ok_def PB)
  show ?thesis
  proof (cases ev)
    case (Client_Packet e tag lost f sock p e2 tag2 rsock)
    then obtain P' where h: "handleFrontEndPacket e tag (\<lambda>r. r \<notin> set lost) f sock p P = Some P'"
      using step by (auto simp: PB bind_iff)
    have evs: "env_ok e2" "client_packet tag tag2 p" "NUL \<notin> set f" "ids_apart p f"
      using ev Client_Packet by simp_all
    note role = handleFrontEndPacket_role [OF h]
    have okP: "server_ok P'" using handleFrontEndPacket_ok [OF P(1) evs(4) h] .
    show ?thesis
    proof (cases "replicates p")
      case True
      then obtain q B' where B': "replica_packet f p = Some q"
          "handleReplicationPacket e2 tag2 rsock q B = Some B'" "in_step P' B'" "\<not> w_primary (s_world B')"
        using replicated_packet [OF h P(4) True P(5,1,2,3,6) evs(1,2,3)] by blast
      have "PB' = (P', B')" using step B' True P by (simp add: PB Client_Packet h)
      moreover have "server_ok B'"
      proof (rule handleReplicationPacket_ok [OF P(2) _ _ B'(2)])
        obtain b where b: "strcpy (p_frontEndAddress p) f = Some b" "q = p\<lparr>p_frontEndAddress := b\<rparr>"
          using B'(1) by (auto simp: replica_packet_def)
        show "packet_sized q"
          using evs(2) length_strcpy [OF b(1)] by (simp add: b(2) client_packet_def packet_sized_def)
        show "c_str (p_user_id q) = None \<or> c_str (p_user_id q) \<noteq> c_str (p_frontEndAddress q)"
          using evs(3,4) c_str_strcpy [OF b(1) evs(3)] by (simp add: b(2) ids_apart_def)
      qed
      ultimately show ?thesis using okP B'(3,4) role P by (simp add: pair_ok_def)
    next
      case False
      then have res: "PB' = (P', B)" using step by (simp add: PB Client_Packet h)
      have r: "replication_step (\<lambda>r. r \<notin> set lost) f p P = Some (p, P)"
        using False by (simp add: replication_step_def)
      have "s_manager P' = s_manager P \<and> s_connectionsCount P' = s_connectionsCount P"
        using h False unfolding handleFrontEndPacket_def r
        by (auto simp: replicates_def split: if_splits)
      then show ?thesis using res okP role P in_step_cong [of P' P B] by (simp add: pair_ok_def)
    qed
  next
    case (Consume_Primary e gname)
    then obtain P' where c: "consumeGroup e gname P = Some P'" and res: "PB' = (P', B)"
      using step by (auto simp: PB)
    show ?thesis
      using consumeGroup_roster [OF P(1) c] consumeGroup_role [OF c] consumeGroup_ok [OF P(1) c] P res
      by (simp add: pair_ok_def in_step_def)
  next
    case (Consume_Backup e gname)
    then obtain B' where c: "consumeGroup e gname B = Some B'" and res: "PB' = (P, B')"
      using step by (auto simp: PB)
    show ?thesis
      using consumeGroup_roster [OF P(2) c] consumeGroup_role [OF c] consumeGroup_ok [OF P(2) c] P res
      by (simp add: pair_ok_def in_step_def)
  qed
qed

interpretation pair: event_machine pair_step pair_event_ok pair_ok
  by unfold_locales (rule pair_step_ok)

subsection \<open>The loss of a front end is not replicated\<close>

lemma roster_conns: "map (\<lambda>e. conns (snd e)) gs =
    map (\<lambda>e. concat (map u_clientIdentifiers (snd e))) (roster gs)"
  by (induction gs) (simp_all add: conns_users)

lemma all_conns_member: "s \<in> set (all_conns gs) \<longleftrightarrow> (\<exists>cs\<in>set (map (\<lambda>e. conns (snd e)) gs). s \<in> set cs)"
  by (auto simp: all_conns_def)

lemma in_step_conns:
  "in_step P B \<Longrightarrow> set (all_conns (groups_of P)) = set (all_conns (groups_of B))"
  unfolding in_step_def by (intro set_eqI) (simp only: all_conns_member roster_conns)

lemma closeFrontEnd_diverges:
  assumes ok: "server_ok P" and same: "in_step P B" and known: "f \<in> set (s_feAddresses P)"
    and session: "(c, f) \<in> set (all_conns (groups_of P))"
    and close: "closeFrontEndConnection tag tag now f P = Some P'" and "tag \<noteq> f"
  shows "w_sent (s_world P') = w_sent (s_world P) \<and> (c, f) \<notin> set (all_conns (groups_of P')) \<and>
    (c, f) \<in> set (all_conns (groups_of B)) \<and> \<not> in_step P' B"
proof -
  note eff = closeFrontEndConnection_effect [OF ok known close \<open>tag \<noteq> f\<close>]
  have "map (\<lambda>e. conns (snd e)) (groups_of P') =
      map (\<lambda>e. filter (\<lambda>s. snd s \<noteq> f) (conns (snd e))) (groups_of P)"
    using eff by simp
  then have gone: "(c, f) \<notin> set (all_conns (groups_of P'))"
    unfolding all_conns_member by auto
  have there: "(c, f) \<in> set (all_conns (groups_of B))" using in_step_conns [OF same] session by simp
  then have "\<not> in_step P' B" using gone in_step_conns by blast
  then show ?thesis using gone there eff by blast
qed

end
