(* ===== verification/Membership.thy ===== *)
theory Membership
  imports Replication "HOL-Library.Multiset"
begin

section \<open>What the server keeps: a table of members\<close>

text \<open>
  The abstract view of a server process (\<open>src/server/server.cpp\<close>, \<open>server_group_manager.cpp\<close>,
  \<open>Group.cpp\<close>, \<open>user.cpp\<close> together): a multiset of members, each a group, a user and a session,
  and the set of front ends it knows. A join adds a member unless the user already has two
  sessions, a disconnection removes the members of one session, the loss of a front end those
  that came through it; nothing else changes it. The counters, the maps of groups, the
  vectors of users and of identifiers implement this table, for clients with identifiers of their
  own and for reads of \<open>FE_DISCONNECT\<close> that agree.
\<close>

type_synonym member = "string \<times> string \<times> session"  \<comment> \<open>group, user, session\<close>

definition user_sessions :: "user list \<Rightarrow> (string \<times> session) multiset" where
  "user_sessions us = mset (concat (map (\<lambda>u. map (Pair (u_username u)) (u_clientIdentifiers u)) us))"

definition members :: "(string, chat_group) cmap \<Rightarrow> member multiset" where
  "members groups = (\<Sum>e\<leftarrow>groups. image_mset (Pair (fst e)) (user_sessions (g_users (snd e))))"

lemma user_sessions_simps [simp]:
  "user_sessions [] = {#}"
  "user_sessions (u # us) = image_mset (Pair (u_username u)) (mset (u_clientIdentifiers u)) + user_sessions us"
  "user_sessions (us @ vs) = user_sessions us + user_sessions vs"
  by (simp_all add: user_sessions_def)

lemma members_simps [simp]:
  "members [] = {#}"
  "members (e # groups) = image_mset (Pair (fst e)) (user_sessions (g_users (snd e))) + members groups"
  by (simp_all add: members_def)

lemma image_snd_user_sessions: "image_mset snd (user_sessions us) = mset (concat (map u_clientIdentifiers us))"
  by (induction us) (simp_all add: multiset.map_comp comp_def)

lemma size_user_sessions: "size (filter_mset (\<lambda>x. fst x = n) (user_sessions us)) = sessions_in n us"
  by (induction us) (auto simp: filter_mset_image_mset comp_def)

lemma size_members: "size (filter_mset (\<lambda>x. fst (snd x) = n) (members groups)) = total_sessions n groups"
  by (induction groups) (auto simp: filter_mset_image_mset comp_def size_user_sessions)

subsection \<open>Joining\<close>

lemma user_sessions_add: "user_sessions (add_session n s us) = add_mset (n, s) (user_sessions us)"
proof (cases "find_index (\<lambda>u. u_username u = n) us")
  case None
  then show ?thesis by (simp add: add_session_def)
next
  case (Some i)
  then obtain A u B where us: "us = A @ u # B" "i = length A" "u_username u = n"
    by (auto dest: find_index_split)
  then show ?thesis using Some unfolding us(1,2) by (simp add: add_session_def)
qed

lemma members_assign:
  assumes "map_wf groups"
  shows "members (map_assign groups k g) +
      (case map_find groups k of None \<Rightarrow> {#} | Some g0 \<Rightarrow> image_mset (Pair k) (user_sessions (g_users g0))) =
    members groups + image_mset (Pair k) (user_sessions (g_users g))"
  using assms
proof (induction groups k g rule: map_assign.induct)
  case (1 k v)
  then show ?case by simp
next
  case (2 k' v' m k v)
  have "map_find m k = None" if "k < k'"
    using that 2(2) by (force simp: map_find_None_iff map_wf_Cons)
  then show ?case using 2 by (auto simp: map_wf_Cons ac_simps)
qed

lemma members_joined:
  assumes "groups_ok gs" and "groups_ok gs'" and g': "map_find gs' k = Some g'"
    and users: "g_users g' = add_session n s (g_users g)"
    and g: "map_find gs k = Some g \<or> map_find gs k = None \<and> g_users g = []"
    and rest: "\<forall>k'. k' \<noteq> k \<longrightarrow> map_find gs' k' = map_find gs k'"
  shows "members gs' = add_mset (k, n, s) (members gs)"
proof -
  have wf: "map_wf gs" "map_wf gs'" using assms(1,2) by (simp_all add: groups_ok_def)
  have "gs' = map_assign gs k g'"
    using wf g' rest by (intro map_ext) auto
  then show ?thesis
    using members_assign [OF wf(1), of k g'] g by (auto simp: users user_sessions_add)
qed

subsection \<open>Leaving\<close>

lemma filter_mset_none: "\<forall>x\<in>#M. P x \<Longrightarrow> filter_mset P M = M"
  by (simp add: filter_mset_eq_conv)

lemma user_sessions_without:
  "\<forall>u\<in>set us. s \<notin> set (u_clientIdentifiers u) \<Longrightarrow>
   filter_mset (\<lambda>x. snd x \<noteq> s) (user_sessions us) = user_sessions us"
  by (rule filter_mset_none) (auto simp: user_sessions_def)

lemma disconnectSession_members:
  assumes d: "disconnectSession primary now c f (g, cs) = Some (g', cs')" and "c \<noteq> f"
    and one: "distinct (conns g)"
  shows "user_sessions (g_users g') = filter_mset (\<lambda>x. snd x \<noteq> (c, f)) (user_sessions (g_users g))"
  using d \<open>c \<noteq> f\<close>
proof (cases rule: disconnectSession_cases)
  case absent
  then show ?thesis using user_sessions_without [of "g_users g" "(c, f)"] by (auto simp: in_conns_iff)
next
  case (removed A u xs B)
  have "distinct (concat (map u_clientIdentifiers A) @ xs @ (c, f) # concat (map u_clientIdentifiers B))"
    using one removed(1,3) by (simp add: conns_users)
  then have B: "\<forall>v\<in>set B. (c, f) \<notin> set (u_clientIdentifiers v)" by auto
  have xs: "(c, f) \<notin> set xs" using removed(4) by force
  have f: "filter_mset (\<lambda>x. snd x \<noteq> (c, f)) (user_sessions A) = user_sessions A"
      "filter_mset (\<lambda>x. snd x \<noteq> (c, f)) (user_sessions B) = user_sessions B"
    using removed(2) B by (auto intro!: user_sessions_without)
  have "filter_mset (\<lambda>x. snd x \<noteq> (c, f)) (image_mset (Pair (u_username u)) (mset xs)) =
      image_mset (Pair (u_username u)) (mset xs)"
    using xs by (intro filter_mset_none) auto
  then show ?thesis using f removed(1,3,5) by (cases "xs = []") simp_all
qed

lemma fe_sweep_members:
  assumes "fe_sweep primary now f L (g, cs) = Some (g', cs')" and "\<forall>s\<in>set L. fst s \<noteq> snd s"
    and "distinct (conns g)"
  shows "user_sessions (g_users g') =
    filter_mset (\<lambda>x. \<not> (snd x \<in> set L \<and> snd (snd x) = f)) (user_sessions (g_users g))"
  using assms
proof (induction L arbitrary: g cs)
  case Nil
  then show ?case by (simp add: fe_sweep_def)
next
  case (Cons s L)
  obtain g1 cs1 where st: "(if snd s = f then disconnectSession primary now (fst s) f (g, cs)
      else Some (g, cs)) = Some (g1, cs1)" and rest: "fe_sweep primary now f L (g1, cs1) = Some (g', cs')"
    using Cons.prems(1) by (auto simp: fe_sweep_def bind_iff)
  show ?case
  proof (cases "snd s = f")
    case True
    then have d: "disconnectSession primary now (fst s) f (g, cs) = Some (g1, cs1)" "fst s \<noteq> f"
      using st Cons.prems(2) by auto
    have "distinct (conns g1)" using disconnectSession_conns [OF d] Cons.prems(3) by simp
    moreover have "(fst s, f) = s" using True by auto
    ultimately show ?thesis
      using Cons.IH [OF rest] Cons.prems(2,3) disconnectSession_members [OF d] True
      by (auto simp: filter_filter_mset intro!: filter_mset_cong)
  next
    case False
    then show ?thesis using Cons.IH [OF rest] st Cons.prems(2,3) by (auto intro!: filter_mset_cong)
  qed
qed

definition stays :: "string \<Rightarrow> string \<Rightarrow> string \<Rightarrow> session \<Rightarrow> bool" where
  \<comment> \<open>whether a disconnect event leaves a session\<close>
  "stays tag c f s \<longleftrightarrow> (if c = tag then snd s \<noteq> f else s \<noteq> (c, f))"

lemma handleDisconnectEvent_members:
  assumes h: "handleDisconnectEvent tag primary now c f (g, cs) = Some (g', cs')"
    and ok: "group_ok g" and "c \<noteq> f" and one: "distinct (conns g)"
  shows "user_sessions (g_users g') = filter_mset (\<lambda>x. stays tag c f (snd x)) (user_sessions (g_users g))"
proof (cases "c = tag")
  case True
  have "\<forall>s\<in>set (conns g). fst s \<noteq> snd s" using group_ok_conns [OF ok] by blast
  moreover have "fe_sweep primary now f (conns g) (g, cs) = Some (g', cs')"
    using h True by (simp add: handleDisconnectEvent_eq)
  ultimately have "user_sessions (g_users g') =
      filter_mset (\<lambda>x. \<not> (snd x \<in> set (conns g) \<and> snd (snd x) = f)) (user_sessions (g_users g))"
    using fe_sweep_members one by blast
  moreover have "x \<in># user_sessions (g_users g) \<Longrightarrow> snd x \<in> set (conns g)" for x
    by (auto simp: user_sessions_def in_conns_iff)
  ultimately show ?thesis using True by (auto simp: stays_def intro!: filter_mset_cong)
next
  case False
  then show ?thesis
    using h disconnectSession_members [OF _ \<open>c \<noteq> f\<close> one] by (simp add: handleDisconnectEvent_eq stays_def)
qed

lemma propagate_loop_members:
  assumes "propagate_loop tag primary now (c, f) groups cs = Some (groups', cs')"
    and "\<forall>e\<in>set groups. group_ok (snd e) \<and> distinct (conns (snd e))" and "c \<noteq> f"
  shows "members groups' = filter_mset (\<lambda>m. stays tag c f (snd (snd m))) (members groups)"
  using assms
proof (induction groups arbitrary: cs groups')
  case Nil
  then show ?case by simp
next
  case (Cons e groups)
  obtain k g where e: "e = (k, g)" by (cases e)
  obtain g1 cs1 groups1 where h: "handleDisconnectEvent tag primary now c f (g, cs) = Some (g1, cs1)"
    and rest: "propagate_loop tag primary now (c, f) groups cs1 = Some (groups1, cs')"
    and res: "groups' = (k, g1) # groups1"
    using Cons.prems(1) by (auto simp: bind_iff e)
  have "user_sessions (g_users g1) = filter_mset (\<lambda>x. stays tag c f (snd x)) (user_sessions (g_users g))"
    using handleDisconnectEvent_members [OF h] Cons.prems(2,3) by (simp add: e)
  then show ?case using Cons.IH [OF rest] Cons.prems(2,3)
    by (simp add: e res filter_mset_image_mset comp_def)
qed

subsection \<open>Identifiers of one's own\<close>

definition clients :: "member multiset \<Rightarrow> string multiset" where
  "clients M = image_mset (\<lambda>m. fst (snd (snd m))) M"

definition own_identifiers :: "member multiset \<Rightarrow> bool" where
  "own_identifiers M \<longleftrightarrow> (\<forall>c. count (clients M) c \<le> 1)"

lemma own_identifiers_filter:
  assumes "own_identifiers M"
  shows "own_identifiers (filter_mset P M)"
proof -
  have "clients (filter_mset P M) \<subseteq># clients M"
    unfolding clients_def by (intro image_mset_subseteq_mono multiset_filter_subset)
  then show ?thesis
    using assms unfolding own_identifiers_def by (meson mset_subset_eq_count order_trans)
qed

lemma own_identifiers_add:
  "own_identifiers M \<Longrightarrow> c \<notin># clients M \<Longrightarrow> own_identifiers (add_mset (k, n, c, f) M)"
  by (auto simp: own_identifiers_def clients_def count_eq_zero_iff)

lemma clients_members: "clients (members groups) = mset (map fst (all_conns groups))"
proof (induction groups)
  case Nil
  then show ?case by (simp add: clients_def)
next
  case (Cons e groups)
  have "image_mset (\<lambda>x. fst (snd x)) (user_sessions (g_users (snd e))) = mset (map fst (conns (snd e)))"
    using arg_cong [OF image_snd_user_sessions [of "g_users (snd e)"], of "image_mset fst"]
    by (simp add: conns_users multiset.map_comp comp_def)
  then show ?case using Cons by (simp add: clients_def multiset.map_comp comp_def)
qed

lemma own_identifiers_distinct:
  "own_identifiers (members groups) \<longleftrightarrow> distinct (map fst (all_conns groups))"
  by (auto simp: own_identifiers_def clients_members distinct_count_atmost_1 in_multiset_in_set count_eq_zero_iff le_Suc_eq
      simp flip: not_in_iff)

lemma own_identifiers_conns:
  assumes "own_identifiers (members groups)" and "e \<in> set groups"
  shows "distinct (map fst (conns (snd e)))"
proof -
  obtain as bs where "groups = as @ e # bs" using split_list [OF assms(2)] by blast
  then show ?thesis using assms(1) unfolding own_identifiers_distinct by (simp add: all_conns_def)
qed

subsection \<open>The abstract server\<close>

record table =
  t_members :: "member multiset"
  t_front_ends :: "string set"

definition table_of :: "server \<Rightarrow> table" where
  "table_of s = \<lparr>t_members = members (groups_of s), t_front_ends = set (s_feAddresses s)\<rparr>"

definition join_table :: "string \<Rightarrow> string \<Rightarrow> session \<Rightarrow> table \<Rightarrow> table" where
  "join_table gname name s t =
     (if size (filter_mset (\<lambda>m. fst (snd m) = name) (t_members t)) < MAX_NUMBER_OF_SIMULTANEOUS_CONNECTIONS
      then t\<lparr>t_members := add_mset (gname, name, s) (t_members t)\<rparr> else t)"

definition leave_table :: "session \<Rightarrow> table \<Rightarrow> table" where
  "leave_table s t = t\<lparr>t_members := filter_mset (\<lambda>m. snd (snd m) \<noteq> s) (t_members t)\<rparr>"

definition lose_front_end :: "string \<Rightarrow> table \<Rightarrow> table" where
  "lose_front_end f t =
     (if f \<in> t_front_ends t then
        \<lparr>t_members = filter_mset (\<lambda>m. snd (snd (snd m)) \<noteq> f) (t_members t), t_front_ends = t_front_ends t - {f}\<rparr>
      else t)"

definition packet_table :: "packet \<Rightarrow> string \<Rightarrow> table \<Rightarrow> table" where
  \<comment> \<open>a packet of a client behind front end \<open>f\<close>\<close>
  "packet_table p f t =
     (if isJoinMessage p then
        (case (c_str (p_username p), c_str (p_group p), c_str (p_user_id p)) of
           (Some name, Some gname, Some uid) \<Rightarrow> join_table gname name (uid, f) t
         | _ \<Rightarrow> t)
      else if isDisconnect p then
        (case c_str (p_user_id p) of Some uid \<Rightarrow> leave_table (uid, f) t | None \<Rightarrow> t)
      else t)"

fun table_step :: "server_event \<Rightarrow> table \<Rightarrow> table" where
  "table_step (FE_Packet e tag lost f sock p) t = packet_table p f t"
| "table_step (RM_Packet e tag sock p) t =
     (case c_str (p_frontEndAddress p) of Some f \<Rightarrow> packet_table p f t | None \<Rightarrow> t)"
| "table_step (FE_Listener_Ends sent compared now f sock) t = lose_front_end f t"
| "table_step (FE_Times_Out sent compared now f sock) t = lose_front_end f t"
| "table_step (Connect_FE sock r f port) t =
     (if sock < 0 \<or> r < 0 then t
      else t\<lparr>t_front_ends := insert (f @ '':'' @ to_string port) (t_front_ends t)\<rparr>)"
| "table_step ev t = t"

text \<open>
  What the table asks of the events: a client that joins has an identifier no session has, no
  client's identifier is the front-end tag, and the two reads of \<open>FE_DISCONNECT\<close> agree.
\<close>

definition packet_may :: "string \<Rightarrow> packet \<Rightarrow> server \<Rightarrow> bool" where
  "packet_may tag p s \<longleftrightarrow> (case c_str (p_user_id p) of None \<Rightarrow> True
     | Some uid \<Rightarrow> (isJoinMessage p \<longrightarrow> uid \<notin> set (map fst (all_conns (groups_of s)))) \<and>
         (isDisconnect p \<longrightarrow> uid \<noteq> tag))"

fun server_may :: "server_event \<Rightarrow> server \<Rightarrow> bool" where
  "server_may (FE_Packet e tag lost f sock p) s = packet_may tag p s"
| "server_may (RM_Packet e tag sock p) s = packet_may tag p s"
| "server_may (FE_Listener_Ends sent compared now f sock) s = (sent = compared)"
| "server_may (FE_Times_Out sent compared now f sock) s = (sent = compared)"
| "server_may ev s = True"

definition table_ok :: "server \<Rightarrow> bool" where
  "table_ok s \<longleftrightarrow> server_ok s \<and> own_identifiers (t_members (table_of s))"

lemma table_of_cong:
  "s_manager s' = s_manager s \<Longrightarrow> s_feAddresses s' = s_feAddresses s \<Longrightarrow> table_of s' = table_of s"
  by (simp add: table_of_def groups_of_def)

subsection \<open>The handlers implement the table\<close>

lemma registerUserToServer_table:
  assumes ok: "server_ok s" and ids: "ids_apart p f"
    and reg: "registerUserToServer e p f s = Some (r, s')" and fe: "s_feAddresses s' = s_feAddresses s"
  shows "table_of s' = (case (c_str (p_username p), c_str (p_group p), c_str (p_user_id p)) of
    (Some name, Some gname, Some uid) \<Rightarrow> join_table gname name (uid, f) (table_of s) | _ \<Rightarrow> table_of s)"
  using ok reg
proof (cases rule: register_cases)
  case (refused name)
  have "table_of s' = table_of s"
    using register_refused [OF ok refused reg] table_of_cong [of s' s] fe by blast
  then show ?thesis
    using refused by (simp add: join_table_def table_of_def size_members split: option.split)
next
  case (accepted name)
  note acc = register_accepted [OF ok accepted ids reg]
  then obtain uid gname g g' where *: "c_str (p_user_id p) = Some uid" "c_str (p_group p) = Some gname"
      "map_find (groups_of s') gname = Some g'" "g_users g' = add_session name (uid, f) (g_users g)"
      "map_find (groups_of s) gname = Some g \<or> map_find (groups_of s) gname = None \<and> g_users g = []"
      "\<forall>k. k \<noteq> gname \<longrightarrow> map_find (groups_of s') k = map_find (groups_of s) k" "server_ok s'"
    by blast
  have "members (groups_of s') = add_mset (gname, name, uid, f) (members (groups_of s))"
    using members_joined [OF _ _ *(3-6)] ok *(7) by (simp add: server_ok_def)
  then show ?thesis using accepted *(1,2) fe by (simp add: join_table_def table_of_def size_members)
qed

lemma closeClientConnection_members:
  assumes ok: "table_ok s" and close: "closeClientConnection tag now (c, f) s = Some s'" and "c \<noteq> f"
  shows "members (groups_of s') = filter_mset (\<lambda>m. stays tag c f (snd (snd m))) (members (groups_of s)) \<and>
    s_feAddresses s' = s_feAddresses s"
proof -
  obtain groups cs where pl: "propagate_loop tag (w_primary (s_world s)) now (c, f)
      (groups_of s) (s_connectionsCount s) = Some (groups, cs)"
    and s': "s' = s\<lparr>s_manager := (s_manager s)\<lparr>gm_groupMap := groups\<rparr>, s_connectionsCount := cs\<rparr>"
    using close
    by (auto simp: closeClientConnection_def propagateSocketDisconnectionEvent_def bind_iff groups_of_def)
  have "\<forall>e\<in>set (groups_of s). group_ok (snd e) \<and> distinct (conns (snd e))"
    using ok own_identifiers_conns [of "groups_of s"]
    by (auto simp: table_ok_def server_ok_def groups_ok_def table_of_def distinct_map)
  then show ?thesis using propagate_loop_members [OF pl _ \<open>c \<noteq> f\<close>] by (simp add: s' groups_of_def)
qed

lemma closeFrontEndConnection_table:
  assumes ok: "table_ok s" and close: "closeFrontEndConnection tag tag now f s = Some s'" and "tag \<noteq> f"
  shows "table_of s' = lose_front_end f (table_of s)"
proof (cases "f \<in> set (s_feAddresses s)")
  case False
  then show ?thesis using close by (simp add: closeFrontEndConnection_unknown lose_front_end_def table_of_def)
next
  case True
  then obtain s1 where c: "closeClientConnection tag now (tag, f) s = Some s1"
    using close by (auto simp: closeFrontEndConnection_def bind_iff)
  obtain w where w: "getSocketFromAddress f (s_world s1) = (socket_of (w_book (s_world s1)) f, w)"
    using getSocketFromAddress_char by blast
  have p: "purgeFeConnection f (s1\<lparr>s_world := w,
      s_closed := s_closed s1 @ [socket_of (w_book (s_world s1)) f]\<rparr>) = Some s'"
    using close True c w by (simp add: closeFrontEndConnection_def)
  show ?thesis
    using closeClientConnection_members [OF ok c \<open>tag \<noteq> f\<close>] purgeFeConnection_effect [OF p] True
    by (auto simp: table_of_def lose_front_end_def groups_of_def stays_def)
qed

lemma registerUserToServer_front_ends:
  "registerUserToServer e p f s = Some (r, s') \<Longrightarrow> s_feAddresses s' = s_feAddresses s"
  by (auto simp: registerUserToServer_def registerUser_def bind_iff case_prod_beta Let_def split: if_splits)

text \<open>One packet of a client, on the primary and on a backup.\<close>

lemma client_packet_table:
  assumes ok: "table_ok s" and ids: "ids_apart p f" and may: "packet_may tag p s"
  shows "isJoinMessage p \<Longrightarrow> registerUserToServer e p f s = Some (r, s') \<Longrightarrow>
      table_of s' = packet_table p f (table_of s)"
    and "isDisconnect p \<Longrightarrow> c_str (p_user_id p) = Some uid \<Longrightarrow>
      closeClientConnection tag now (uid, f) s = Some s' \<Longrightarrow> table_of s' = packet_table p f (table_of s)"
proof -
  show "table_of s' = packet_table p f (table_of s)"
    if "isJoinMessage p" "registerUserToServer e p f s = Some (r, s')"
    using registerUserToServer_table [OF _ ids that(2) registerUserToServer_front_ends [OF that(2)]] ok that(1)
    by (simp add: table_ok_def packet_table_def)
  show "table_of s' = packet_table p f (table_of s)"
    if d: "isDisconnect p" "c_str (p_user_id p) = Some uid" "closeClientConnection tag now (uid, f) s = Some s'"
  proof -
    have "uid \<noteq> f" "uid \<noteq> tag" using ids may d by (auto simp: ids_apart_def packet_may_def)
    moreover have "\<not> isJoinMessage p" using d(1) by (simp add: packet_kind_defs packet_type_defs)
    ultimately show ?thesis
      using closeClientConnection_members [OF ok d(3)] d(1,2)
      by (simp add: packet_table_def table_of_def leave_table_def stays_def)
  qed
qed

lemma packet_table_other: "\<not> isJoinMessage p \<Longrightarrow> \<not> isDisconnect p \<Longrightarrow> packet_table p f t = t"
  by (simp add: packet_table_def)

text \<open>Messages and their delivery leave the users of the groups as they are.\<close>

lemma members_roster: "roster gs' = roster gs \<Longrightarrow> members gs' = members gs"
proof -
  have "members g = (\<Sum>e\<leftarrow>roster g. image_mset (Pair (fst e)) (user_sessions (snd e)))" for g
    by (induction g) simp_all
  then show "roster gs' = roster gs \<Longrightarrow> members gs' = members gs" by simp
qed

lemma table_of_roster:
  "roster (groups_of s') = roster (groups_of s) \<Longrightarrow> s_feAddresses s' = s_feAddresses s \<Longrightarrow> table_of s' = table_of s"
  using members_roster [of "groups_of s'" "groups_of s"] by (simp add: table_of_def)

lemma handleMessage_table:
  assumes "server_ok s" and h: "handleMessage e p s = Some s'"
  shows "table_of s' = table_of s"
proof -
  have "s_feAddresses s' = s_feAddresses s" using h by (auto simp: handleMessage_def)
  moreover have "roster (groups_of s') = roster (groups_of s)"
    using handleMessage_chat [OF h assms(1)] by (auto split: option.splits)
  ultimately show ?thesis by (rule table_of_roster [rotated])
qed

lemma consumeGroup_table:
  assumes "server_ok s" and c: "consumeGroup e gname s = Some s'"
  shows "table_of s' = table_of s"
proof -
  have "s_feAddresses s' = s_feAddresses s"
    using c by (auto simp: consumeGroup_def bind_iff Let_def split: option.splits)
  then show ?thesis using consumeGroup_roster [OF assms] by (intro table_of_roster) auto
qed

lemma handleFrontEndPacket_table:
  assumes ok: "table_ok s" and ids: "ids_apart p f" and may: "packet_may tag p s"
    and step: "handleFrontEndPacket e tag confirms f sock p s = Some s'"
  shows "table_of s' = packet_table p f (table_of s)"
proof -
  have rep: "table_of t = table_of s \<and> table_ok t \<and> ids_apart q f \<and> packet_may tag q t \<and>
      packet_table q f = packet_table p f" if r: "replication_step confirms f p s = Some (q, t)" for q t
  proof -
    note k = replication_step_keeps [OF r]
    have "table_of t = table_of s" using k table_of_cong [of t s] by simp
    then show ?thesis using k ids may ok server_ok_cong [of t s]
      by (simp add: table_ok_def ids_apart_def packet_may_def packet_table_def packet_kind_defs groups_of_def
          fun_eq_iff split: option.splits)
  qed
  show ?thesis
    using step
  proof (cases rule: handleFrontEndPacket_cases)
    case (message q t u)
    note r = rep [OF message(1)]
    have "s_feAddresses u = s_feAddresses t" using message(3) by (auto simp: sendAck_def Let_def bind_iff)
    then have "server_ok u \<and> table_of u = table_of t"
      using r sendAck_keeps [OF message(3)] table_of_cong [of u t] server_ok_cong [of u t] by (simp add: table_ok_def)
    then show ?thesis
      using r handleMessage_table [OF _ message(4)] packet_kinds_apart(1) [OF message(2)]
        packet_table_other [of q f "table_of s"] by simp
  next
    case (keep_alive q t)
    then show ?thesis
      using rep [OF keep_alive(1)] table_of_cong [of s' t] packet_kinds_apart(2) [OF keep_alive(2)]
        packet_table_other [of q f "table_of s"] by simp
  next
    case (join q t r)
    then show ?thesis using rep [OF join(1)] client_packet_table(1) [of t q f tag] by simp
  next
    case (disconnect q t uid)
    then show ?thesis using rep [OF disconnect(1)] client_packet_table(2) [of t q f tag uid] by simp
  next
    case (other q t)
    then show ?thesis using rep [OF other(1)] packet_table_other [of q f "table_of s"] by simp
  qed
qed

lemma handleReplicationPacket_table:
  assumes ok: "table_ok s" and sized: "packet_sized p" and may: "packet_may tag p s"
    and ids: "c_str (p_user_id p) = None \<or> c_str (p_user_id p) \<noteq> c_str (p_frontEndAddress p)"
    and step: "handleReplicationPacket e tag sock p s = Some s'"
  shows "\<exists>f. c_str (p_frontEndAddress p) = Some f \<and> table_of s' = packet_table p f (table_of s)"
  using step
proof (cases rule: handleReplicationPacket_cases)
  case (1 a t)
  have "ids_apart p a" using ids sized 1(1) by (auto simp: ids_apart_def)
  note c = client_packet_table [OF ok this may]
  have "table_of t = packet_table p a (table_of s)"
    using 1(5)
  proof (elim disjE conjE exE)
    assume "isMessage p" and h: "handleMessage e (p\<lparr>p_type := REPLICATION_PACKET\<rparr>) s = Some t"
    then show ?thesis
      using packet_kinds_apart(1) [of p] packet_table_other handleMessage_table [OF _ h] ok by (simp add: table_ok_def)
  qed (use c packet_table_other in auto)
  then show ?thesis using 1(1) table_of_cong [OF 1(2,4)] by simp
qed

subsection \<open>Every step implements its table step\<close>

lemma table_ok_shift:
  assumes "table_ok s" and "s_manager s' = s_manager s" and "s_connectionsCount s' = s_connectionsCount s"
    and "s_feAddresses s' = s_feAddresses s"
  shows "table_ok s' \<and> table_of s' = table_of s"
  using assms server_ok_cong [OF assms(2,3)] table_of_cong [OF assms(2,4)] by (simp add: table_ok_def)

lemma server_step_table:
  assumes ok: "table_ok s" and ev: "event_ok ev" and step: "guarded server_may server_step ev s = Some s'"
  shows "table_of s' = table_step ev (table_of s)"
proof -
  have may: "server_may ev s" and st: "server_step ev s = Some s'" using step by (simp_all add: guarded_Some)
  have sok: "server_ok s" using ok by (simp add: table_ok_def)
  show ?thesis
  proof (cases ev)
    case (FE_Packet e tag lost f sock p)
    then show ?thesis using handleFrontEndPacket_table [OF ok] ev may st by simp
  next
    case (RM_Packet e tag sock p)
    then show ?thesis using handleReplicationPacket_table [OF ok, of p tag e sock s'] ev may st by auto
  next
    case (FE_Listener_Ends sent compared now f sock)
    let ?s = "s\<lparr>s_monitor := killSocket sock (s_monitor s)\<rparr>"
    have "table_ok ?s \<and> table_of ?s = table_of s" by (rule table_ok_shift [OF ok]) simp_all
    then show ?thesis
      using FE_Listener_Ends ev may st closeFrontEndConnection_table [of ?s sent now f s']
      by (simp add: frontEndListenerEnds_def)
  next
    case (FE_Times_Out sent compared now f sock)
    let ?s = "s\<lparr>s_monitor := map_erase (s_monitor s) sock\<rparr>"
    have "table_ok ?s \<and> table_of ?s = table_of s" by (rule table_ok_shift [OF ok]) simp_all
    then show ?thesis
      using FE_Times_Out ev may st closeFrontEndConnection_table [of ?s sent now f s']
      by (simp add: frontEndTimesOut_def)
  next
    case (RM_Listener_Ends sock)
    then show ?thesis using st table_of_cong [of s' s] by (auto simp: replicationListenerEnds_def)
  next
    case (Consume e gname)
    then show ?thesis using consumeGroup_table [OF sok] st by simp
  next
    case (Connect_FE sock r f port)
    then show ?thesis using st
      by (auto simp: connectToFE_def Let_def table_of_def groups_of_def split: if_splits)
  next
    case (Accept_RM sock port)
    then show ?thesis using st table_of_cong [of s' s] by (auto simp: acceptRMConnection_def split: if_splits)
  next
    case Become_Primary
    then show ?thesis using st table_of_cong [of s' s] by (auto simp: becomePrimary_def)
  qed
qed

text \<open>The abstract steps keep the identifiers apart, so the concrete ones do.\<close>

lemma packet_table_own:
  assumes "own_identifiers (t_members t)"
    and "\<And>uid. isJoinMessage p \<Longrightarrow> c_str (p_user_id p) = Some uid \<Longrightarrow> uid \<notin># clients (t_members t)"
  shows "own_identifiers (t_members (packet_table p f t))"
  using assms own_identifiers_filter own_identifiers_add
  by (auto simp: packet_table_def join_table_def leave_table_def split: option.split)

lemma packet_table_own_may:
  assumes "table_ok s" and "packet_may tag p s"
  shows "own_identifiers (t_members (packet_table p f (table_of s)))"
proof (rule packet_table_own)
  show "own_identifiers (t_members (table_of s))" using assms(1) by (simp add: table_ok_def)
  show "uid \<notin># clients (t_members (table_of s))" if "isJoinMessage p" "c_str (p_user_id p) = Some uid" for uid
    using assms(2) that by (simp add: packet_may_def table_of_def clients_members)
qed

lemma table_step_own:
  assumes "table_ok s" and "server_may ev s"
  shows "own_identifiers (t_members (table_step ev (table_of s)))"
proof -
  have own: "own_identifiers (t_members (table_of s))" using assms(1) by (simp add: table_ok_def)
  then have "own_identifiers (t_members (lose_front_end f (table_of s)))" for f
    using own_identifiers_filter by (simp add: lose_front_end_def)
  then show ?thesis
    using own assms packet_table_own_may [OF assms(1)] by (cases ev) (auto split: option.split)
qed

lemma table_ok_step:
  assumes "table_ok s" and "event_ok ev" and "guarded server_may server_step ev s = Some s'"
  shows "table_ok s'"
  using assms server_step_ok [of s ev s'] server_step_table [OF assms] table_step_own [of s ev]
  by (simp add: table_ok_def guarded_Some)

interpretation membership: refined_machine
  "guarded server_may server_step" event_ok table_ok table_of table_step
  by unfold_locales (rule table_ok_step server_step_table; assumption)+

lemma table_of_Server: "table_of (Server fs primary mem mem') = \<lparr>t_members = {#}, t_front_ends = {}\<rparr>"
  by (simp add: table_of_def Server_def groups_of_def ServerGroupManager_def)

lemma table_ok_Server: "table_ok (Server fs primary mem mem')"
  by (simp add: table_ok_def server_ok_Server table_of_Server own_identifiers_def clients_def)

end
