(* ===== verification/Group_Delivery.thy ===== *)
theory Group_Delivery
  imports Group_Sessions
begin

section \<open>What a group sends and stores\<close>

text \<open>
  Lemmas on \<open>consumeMessageQueue\<close> and \<open>registerNewSession\<close> of a primary: one packet per message
  and connection, in the order of the queue, one history entry per chat message, and the accept
  packet with the history for a user who joins. They combine the contracts \<open>courier\<close> and
  \<open>history_store\<close> through their interpretations \<open>direct\<close> and \<open>csv\<close>.
\<close>

lemma appendGroupMessageToHistory_rep:
  assumes "history_rep mx grp log fs" and "m_isNotification m \<or> storable m \<and> m_group m = grp"
  shows "history_rep mx grp (log @ (if m_isNotification m then [] else [m]))
    (appendGroupMessageToHistory mx m fs)"
proof (cases "m_isNotification m")
  case True
  then show ?thesis using assms(1) by (simp add: appendGroupMessageToHistory_def)
next
  case False
  then show ?thesis using csv.append_law [OF assms(1)] assms(2) by simp
qed

text \<open>The packets of a queue sent to a list of connections: message by message.\<close>

definition queue_packets :: "env \<Rightarrow> (string, socket) cmap \<Rightarrow> session list \<Rightarrow> message list \<Rightarrow>
    (socket \<times> packet) list" where
  "queue_packets e book cs ms = concat (map (\<lambda>m. broadcast_packets e m book cs) ms)"

lemma queue_packets_book:
  "socket_of book' = socket_of book \<Longrightarrow> queue_packets e book' cs ms = queue_packets e book cs ms"
  by (simp add: queue_packets_def broadcast_packets_def)

lemma consumeMessage_effect:
  assumes e: "env_ok e" and g: "group_ok g" and rep: "history_rep (g_maxMessages g) (g_groupName g) log (w_files w)"
    and m: "m_isNotification m \<or> storable m \<and> m_group m = g_groupName g"
  shows "\<exists>w'. consumeMessage e m g w = Some w' \<and>
    history_rep (g_maxMessages g) (g_groupName g) (log @ (if m_isNotification m then [] else [m])) (w_files w') \<and>
    w_sent w' = w_sent w @ (if w_primary w then broadcast_packets e m (w_book w) (conns g) else []) \<and>
    w_primary w' = w_primary w \<and> socket_of (w_book w') = socket_of (w_book w)"
proof -
  let ?w = "w\<lparr>w_files := appendGroupMessageToHistory (g_maxMessages g) m (w_files w)\<rparr>"
  note rep' = appendGroupMessageToHistory_rep [OF rep m]
  show ?thesis
  proof (cases "w_primary w")
    case True
    have "\<forall>x\<in>set (conns g). length (fst x) < UUID_SIZE" using group_ok_conns [OF g] by blast
    then obtain w' where "broadcastMessageToUsers e m (conns g) ?w = Some w'"
        "sends_only (broadcast_packets e m (w_book ?w) (conns g)) ?w w'"
      using broadcast_char [OF e] by blast
    then show ?thesis using True rep' by (auto simp: consumeMessage_def Let_def sends_only_def)
  next
    case False
    then show ?thesis using rep' by (simp add: consumeMessage_def Let_def)
  qed
qed

lemma consume_loop_effect:
  assumes "env_ok e" and "group_ok g"
    and "history_rep (g_maxMessages g) (g_groupName g) log (w_files w)"
    and "\<forall>m\<in>set ms. m_isNotification m \<or> storable m \<and> m_group m = g_groupName g"
  shows "\<exists>w'. consume_loop e ms g w = Some (g\<lparr>g_messages_queue := []\<rparr>, w') \<and>
    history_rep (g_maxMessages g) (g_groupName g) (log @ filter (\<lambda>m. \<not> m_isNotification m) ms) (w_files w') \<and>
    w_sent w' = w_sent w @ (if w_primary w then queue_packets e (w_book w) (conns g) ms else []) \<and>
    w_primary w' = w_primary w \<and> socket_of (w_book w') = socket_of (w_book w)"
  using assms
proof (induction ms arbitrary: g w log)
  case Nil
  then show ?case by (simp add: queue_packets_def)
next
  case (Cons m ms)
  let ?g = "g\<lparr>g_messages_queue := ms\<rparr>"
  have same: "conns ?g = conns g" by (simp add: conns_users)
  have g: "group_ok ?g" using Cons.prems(2) by (simp add: group_ok_def)
  obtain w1 where w1: "consumeMessage e m ?g w = Some w1"
      "history_rep (g_maxMessages g) (g_groupName g) (log @ (if m_isNotification m then [] else [m])) (w_files w1)"
      "w_sent w1 = w_sent w @ (if w_primary w then broadcast_packets e m (w_book w) (conns g) else [])"
      "w_primary w1 = w_primary w" "socket_of (w_book w1) = socket_of (w_book w)"
    using consumeMessage_effect [OF Cons.prems(1) g, of log w m] Cons.prems(3,4) same by auto
  obtain w' where w': "consume_loop e ms ?g w1 = Some (?g\<lparr>g_messages_queue := []\<rparr>, w')"
      "history_rep (g_maxMessages g) (g_groupName g)
        ((log @ (if m_isNotification m then [] else [m])) @ filter (\<lambda>m. \<not> m_isNotification m) ms) (w_files w')"
      "w_sent w' = w_sent w1 @ (if w_primary w1 then queue_packets e (w_book w1) (conns g) ms else [])"
      "w_primary w' = w_primary w1" "socket_of (w_book w') = socket_of (w_book w1)"
    using Cons.IH [OF Cons.prems(1) g, of _ w1] w1(2) Cons.prems(4) same by fastforce
  have "(log @ (if m_isNotification m then [] else [m])) @ filter (\<lambda>m. \<not> m_isNotification m) ms =
      log @ filter (\<lambda>m. \<not> m_isNotification m) (m # ms)" by simp
  then have "history_rep (g_maxMessages g) (g_groupName g)
      (log @ filter (\<lambda>m. \<not> m_isNotification m) (m # ms)) (w_files w')" using w'(2) by simp
  moreover have "w_sent w' = w_sent w @ (if w_primary w then queue_packets e (w_book w) (conns g) (m # ms) else [])"
    using w'(3) w1(3,4) queue_packets_book [OF w1(5)] by (simp add: queue_packets_def)
  ultimately show ?case using w1 w' by simp
qed

lemma consumeMessageQueue_effect:
  assumes "env_ok e" and "group_ok g" and "\<not> g_consumer_locked g"
    and "history_rep (g_maxMessages g) (g_groupName g) log (w_files w)"
    and "\<forall>m\<in>set (g_messages_queue g). m_isNotification m \<or> storable m \<and> m_group m = g_groupName g"
  shows "\<exists>w'. consumeMessageQueue e (g, w) = Some (g\<lparr>g_consumer_locked := True, g_messages_queue := []\<rparr>, w') \<and>
    history_rep (g_maxMessages g) (g_groupName g)
      (log @ filter (\<lambda>m. \<not> m_isNotification m) (g_messages_queue g)) (w_files w') \<and>
    w_sent w' = w_sent w @
      (if w_primary w then queue_packets e (w_book w) (conns g) (g_messages_queue g) else [])"
proof -
  let ?g = "g\<lparr>g_consumer_locked := True\<rparr>"
  have "group_ok ?g" using assms(2) by (simp add: group_ok_def)
  moreover have "conns ?g = conns g" by (simp add: conns_users)
  ultimately show ?thesis
    using consume_loop_effect [OF assms(1), of ?g log w "g_messages_queue g"] assms(3-5)
    by (auto simp: consumeMessageQueue_def)
qed

subsection \<open>A user who joins\<close>

text \<open>The packets of the history for one client: each message as a notification.\<close>

definition history_packets :: "env \<Rightarrow> string \<Rightarrow> socket \<Rightarrow> message list \<Rightarrow> (socket \<times> packet) list" where
  "history_packets e c s ms = map (\<lambda>m. (s, the (message_packet e m c))) ms"

lemma message_packet_notification [simp]:
  "message_packet e (setIsNotification m b) c = message_packet e m c"
  by (simp add: message_packet_def)

lemma sendHistoryToUser_effect:
  assumes e: "env_ok e" and c: "length c < UUID_SIZE"
    and rep: "history_rep (g_maxMessages g) (g_groupName g) log (w_files w)"
  shows "\<exists>w'. sendHistoryToUser e c f g w = Some w' \<and>
    history_rep (g_maxMessages g) (g_groupName g) log (w_files w') \<and>
    w_sent w' = w_sent w @ history_packets e c (socket_of (w_book w) f)
      (last_n (history_limit (g_maxMessages g)) log)"
proof -
  let ?ms = "last_n (history_limit (g_maxMessages g)) log"
  obtain fs where fs: "readGroupHistoryMessages (g_maxMessages g) (g_groupName g) (w_files w) = Some (?ms, fs)"
      "history_rep (g_maxMessages g) (g_groupName g) log fs"
    using csv.read_law [OF rep] by blast
  have "\<forall>m\<in>set ?ms. message_packet e (setIsNotification m True) c = Some (the (message_packet e m c))"
    using message_packet_defined [OF e c] by force
  from direct.send_list [of ?ms e "\<lambda>m. setIsNotification m True" "\<lambda>_. c", OF this, of "\<lambda>_. f" "w\<lparr>w_files := fs\<rparr>"]
  obtain w' where "foldM (\<lambda>m. sendMessageToSession e (setIsNotification m True) c f) ?ms (w\<lparr>w_files := fs\<rparr>) = Some w'"
      "sends_only (map (\<lambda>m. (socket_of (w_book w) f, the (message_packet e m c))) ?ms) (w\<lparr>w_files := fs\<rparr>) w'"
    by auto
  then show ?thesis
    using fs by (auto simp: sendHistoryToUser_def sendMessageToAddress_eq sends_only_def history_packets_def)
qed

lemma sendAcceptToUser_effect:
  assumes e: "env_ok e" and c: "length c < UUID_SIZE" "NUL \<notin> set c"
  shows "\<exists>a w'. sendAcceptToUser e c f w = Some w' \<and> p_type a = ACCEPT_PACKET \<and> packet_sized a \<and>
    c_str (p_user_id a) = Some c \<and> sends_only [(socket_of (w_book w) f, a)] w w'"
proof -
  have "length (p_user_id (e_mem e)) = UUID_SIZE" using e by (simp add: env_ok_def packet_sized_def)
  then obtain buf where buf: "strcpy (p_user_id (e_mem e)) c = Some buf"
    using strcpy_fits c(1) by metis
  let ?a = "(Packet_default (e_mem e))\<lparr>p_type := ACCEPT_PACKET, p_user_id := buf\<rparr>"
  have "sendAcceptToUser e c f w = Some (sendPacketToSocketId ?a f w)"
    using buf by (simp add: sendAcceptToUser_def Packet_default_def)
  moreover have "c_str (p_user_id ?a) = Some c" using c_str_strcpy [OF buf c(2)] by simp
  moreover have "p_type ?a = ACCEPT_PACKET" by simp
  moreover have "packet_sized ?a"
    using e length_strcpy [OF buf] by (simp add: env_ok_def packet_sized_def Packet_default_def)
  ultimately show ?thesis using sendPacketToSocketId_char [of w f ?a] by blast
qed

lemma registerNewSession_sends:
  assumes e: "env_ok e" and c: "length c < UUID_SIZE" "NUL \<notin> set c" and prim: "w_primary w"
    and rep: "history_rep (g_maxMessages g) (g_groupName g) log (w_files w)"
  shows "\<exists>r g' w' a. registerNewSession e c f name (g, w) = Some (r, g', w') \<and>
    p_type a = ACCEPT_PACKET \<and> packet_sized a \<and> c_str (p_user_id a) = Some c \<and>
    w_sent w' = w_sent w @ (socket_of (w_book w) f, a) #
      history_packets e c (socket_of (w_book w) f) (last_n (history_limit (g_maxMessages g)) log) \<and>
    history_rep (g_maxMessages g) (g_groupName g) log (w_files w') \<and>
    g_messages_queue g' = g_messages_queue g @
      (if name \<in> u_username ` set (g_users g) then []
       else [setIsNotification (Message JOINED_MESSAGE name (g_groupName g) (e_now e)) True])"
proof -
  obtain a w1 where w1: "sendAcceptToUser e c f w = Some w1" "p_type a = ACCEPT_PACKET"
      "c_str (p_user_id a) = Some c" "sends_only [(socket_of (w_book w) f, a)] w w1" "packet_sized a"
    using sendAcceptToUser_effect [OF e c] by blast
  have k: "w_files w1 = w_files w" "socket_of (w_book w1) = socket_of (w_book w)"
      "w_sent w1 = w_sent w @ [(socket_of (w_book w) f, a)]"
    using w1(4) by (simp_all add: sends_only_def)
  obtain w2 where w2: "sendHistoryToUser e c f g w1 = Some w2"
      "history_rep (g_maxMessages g) (g_groupName g) log (w_files w2)"
      "w_sent w2 = w_sent w1 @ history_packets e c (socket_of (w_book w1) f)
        (last_n (history_limit (g_maxMessages g)) log)"
    using sendHistoryToUser_effect [OF e c(1), of g log w1 f] rep k(1) by auto
  have sent: "w_sent w2 = w_sent w @ (socket_of (w_book w) f, a) #
      history_packets e c (socket_of (w_book w) f) (last_n (history_limit (g_maxMessages g)) log)"
    using w2(3) k(2,3) by simp
  show ?thesis
  proof (cases "find_index (\<lambda>u. u_username u = name) (g_users g)")
    case None
    then have "name \<notin> u_username ` set (g_users g)" by (auto simp: find_index_None_iff)
    then show ?thesis
      using w1 w2(1,2) sent prim None
      by (auto simp: registerNewSession_def Let_def case_prod_beta sendActivityMessage_def)
  next
    case (Some i)
    then have "name \<in> u_username ` set (g_users g)"
      using find_index_SomeD [OF Some] by (metis image_eqI nth_mem)
    then show ?thesis
      using w1 w2(1,2) sent prim Some
      by (auto simp: registerNewSession_def Let_def case_prod_beta)
  qed
qed

end
