(* ===== verification/Server_Types.thy ===== *)
theory Server_Types
  imports Replication Group_Delivery
begin

section \<open>Well-typed packets never leave defined behaviour\<close>

text \<open>
  The places where the server's code can leave defined behaviour read C strings out of packets,
  copy them into fixed buffers, read rows of the history files and erase from vectors. This theory
  says which packets, files and states keep clear of all of them, as a type discipline: a typed
  event in a typed state has a step (progress) to a typed state (preservation), and every packet
  the server sends is a whole packet object. Leaving is allowed where no user has two sessions in a
  group (see \<open>only_newest_session_can_leave\<close> for what happens otherwise).
\<close>

subsection \<open>Types\<close>

definition plain :: "string \<Rightarrow> bool" where
  \<comment> \<open>a text that can be stored as a cell of a row\<close>
  "plain s \<longleftrightarrow> FILE_SEPARATOR \<notin> set s \<and> LF \<notin> set s"

definition named_texts :: "packet \<Rightarrow> bool" where
  "named_texts p \<longleftrightarrow> c_str (p_group p) \<noteq> None \<and>
     (case c_str (p_username p) of None \<Rightarrow> False | Some name \<Rightarrow> plain name) \<and>
     (case c_str (p_message p) of None \<Rightarrow> False | Some text \<Rightarrow> plain text)"

definition packet_typed :: "string \<Rightarrow> packet \<Rightarrow> bool" where
  "packet_typed f p \<longleftrightarrow> ids_apart p f \<and> (replicates p \<longrightarrow> c_str (p_user_id p) \<noteq> None) \<and>
     (isMessage p \<or> isJoinMessage p \<longrightarrow> named_texts p)"

definition env_typed :: "env \<Rightarrow> bool" where
  "env_typed e \<longleftrightarrow> env_ok e \<and> - (2 ^ 63) \<le> e_now e \<and> e_now e < 2 ^ 63"

fun event_typed :: "server_event \<Rightarrow> bool" where
  "event_typed (FE_Packet e tag lost f sock p) \<longleftrightarrow> env_typed e \<and> lost = [] \<and> length f < 100 \<and> packet_typed f p"
| "event_typed (RM_Packet e tag sock p) \<longleftrightarrow> env_typed e \<and>
     (case c_str (p_frontEndAddress p) of None \<Rightarrow> False | Some f \<Rightarrow> packet_typed f p)"
| "event_typed (FE_Listener_Ends sent compared now f sock) \<longleftrightarrow> sent \<noteq> f"
| "event_typed (FE_Times_Out sent compared now f sock) \<longleftrightarrow> sent \<noteq> f"
| "event_typed (Consume e gname) \<longleftrightarrow> env_ok e"
| "event_typed ev \<longleftrightarrow> True"

definition all_single :: "server \<Rightarrow> bool" where
  "all_single s \<longleftrightarrow> (\<forall>e\<in>set (groups_of s). single_sessions (snd e))"

fun can_leave :: "server_event \<Rightarrow> server \<Rightarrow> bool" where
  "can_leave (FE_Packet e tag lost f sock p) s \<longleftrightarrow> (isDisconnect p \<longrightarrow> all_single s)"
| "can_leave (RM_Packet e tag sock p) s \<longleftrightarrow> (isDisconnect p \<longrightarrow> all_single s)"
| "can_leave (FE_Listener_Ends sent compared now f sock) s \<longleftrightarrow>
     (f \<in> set (s_feAddresses s) \<longrightarrow> all_single s \<and> f \<notin> set (butlast (s_feAddresses s)))"
| "can_leave (FE_Times_Out sent compared now f sock) s \<longleftrightarrow>
     (f \<in> set (s_feAddresses s) \<longrightarrow> all_single s \<and> f \<notin> set (butlast (s_feAddresses s)))"
| "can_leave ev s \<longleftrightarrow> True"

definition readable :: "int \<Rightarrow> string \<Rightarrow> files \<Rightarrow> bool" where
  "readable mx k fs \<longleftrightarrow> (\<exists>log. history_rep mx k log fs)"

definition queue_typed :: "string \<Rightarrow> chat_group \<Rightarrow> bool" where
  "queue_typed k g \<longleftrightarrow> (\<forall>m\<in>set (g_messages_queue g). m_isNotification m \<or> storable m \<and> m_group m = k)"

definition sent_typed :: "world \<Rightarrow> bool" where
  "sent_typed w \<longleftrightarrow> (\<forall>x\<in>set (w_sent w). packet_sized (snd x))"

definition limit_of :: "server \<Rightarrow> string \<Rightarrow> int" where
  "limit_of s k = (case map_find (groups_of s) k of None \<Rightarrow> gm_maxMessages (s_manager s) | Some g \<Rightarrow> g_maxMessages g)"

definition server_typed :: "server \<Rightarrow> bool" where
  "server_typed s \<longleftrightarrow> server_ok s \<and> sent_typed (s_world s) \<and>
     (\<forall>k. readable (limit_of s k) k (w_files (s_world s))) \<and>
     (\<forall>k g. map_find (groups_of s) k = Some g \<longrightarrow> queue_typed k g)"

subsection \<open>Files of other groups\<close>

definition files_keep :: "string \<Rightarrow> files \<Rightarrow> files \<Rightarrow> bool" where
  "files_keep k fs fs' \<longleftrightarrow> (map_wf fs \<longrightarrow> map_wf fs' \<and> (\<forall>j. j \<noteq> k \<longrightarrow>
     file_content fs' (groupFile j) = file_content fs (groupFile j) \<and>
     file_content fs' (tempGroupFile j) = file_content fs (tempGroupFile j)))"

lemma files_keep_refl [simp]: "files_keep k fs fs"
  by (simp add: files_keep_def)

lemma files_keep_trans: "files_keep k fs fs' \<Longrightarrow> files_keep k fs' fs'' \<Longrightarrow> files_keep k fs fs''"
  by (auto simp: files_keep_def)

lemma files_keep_crop: "files_keep k fs (cropToFileHistoryLimit mx k w fs)"
  using crop_wf crop_other by (auto simp: files_keep_def)

lemma files_keep_append: "m_isNotification m \<or> m_group m = k \<Longrightarrow> files_keep k fs (appendGroupMessageToHistory mx m fs)"
  using files_keep_crop [of k fs mx True]
  by (auto simp: files_keep_def appendGroupMessageToHistory_def append_file_def file_content_def)

lemma readable_other:
  assumes "readable mx j fs" and "files_keep k fs fs'" and "j \<noteq> k"
  shows "readable mx j fs'"
proof -
  obtain log where "history_rep mx j log fs" using assms(1) by (auto simp: readable_def)
  then have "history_rep mx j log fs'" using assms(2,3) by (simp add: history_rep_def files_keep_def)
  then show ?thesis by (auto simp: readable_def)
qed

subsection \<open>What is sent\<close>

lemma sent_typed_sends: "sends_only out w w' \<Longrightarrow> sent_typed w \<Longrightarrow> \<forall>x\<in>set out. packet_sized (snd x) \<Longrightarrow> sent_typed w'"
  by (auto simp: sends_only_def sent_typed_def)

lemma sent_typed_emit [simp]: "sent_typed (emit s p w) \<longleftrightarrow> packet_sized p \<and> sent_typed w"
  by (auto simp: emit_def sent_typed_def)

lemma sendPacketToSocketId_typed: "packet_sized p \<Longrightarrow> sent_typed w \<Longrightarrow> sent_typed (sendPacketToSocketId p f w)"
  using sent_typed_sends [OF sendPacketToSocketId_char] by simp

lemma message_packet_sized: "message_packet e m c = Some p \<Longrightarrow> env_ok e \<Longrightarrow> packet_sized p"
  by (auto simp: message_packet_def env_ok_def Packet_full_sized)

lemma broadcast_packets_sized:
  "env_ok e \<Longrightarrow> \<forall>x\<in>set cs. length (fst x) < UUID_SIZE \<Longrightarrow>
   \<forall>x\<in>set (broadcast_packets e m book cs). packet_sized (snd x)"
  using message_packet_defined message_packet_sized by (fastforce simp: broadcast_packets_def)

lemma history_packets_sized:
  "env_ok e \<Longrightarrow> length c < UUID_SIZE \<Longrightarrow> \<forall>x\<in>set (history_packets e c s ms). packet_sized (snd x)"
  using message_packet_defined message_packet_sized by (fastforce simp: history_packets_def)

subsection \<open>One group\<close>

definition group_typed :: "string \<Rightarrow> chat_group \<Rightarrow> world \<Rightarrow> bool" where
  "group_typed k g w \<longleftrightarrow> g_groupName g = k \<and> queue_typed k g \<and> readable (g_maxMessages g) k (w_files w)"

text \<open>What an operation of group \<open>k\<close> may do to the world.\<close>

definition world_keeps :: "string \<Rightarrow> world \<Rightarrow> world \<Rightarrow> bool" where
  "world_keeps k w w' \<longleftrightarrow> files_keep k (w_files w) (w_files w') \<and> (sent_typed w \<longrightarrow> sent_typed w')"

lemma world_keeps_refl [simp]: "world_keeps k w w"
  by (simp add: world_keeps_def)

lemma world_keeps_trans: "world_keeps k w w' \<Longrightarrow> world_keeps k w' w'' \<Longrightarrow> world_keeps k w w''"
  using files_keep_trans by (auto simp: world_keeps_def)

lemma sends_only_keeps:
  "sends_only out w w' \<Longrightarrow> \<forall>x\<in>set out. packet_sized (snd x) \<Longrightarrow> world_keeps k w w'"
  using sent_typed_sends by (auto simp: world_keeps_def sends_only_def)

lemma sendAcceptToUser_keeps:
  assumes "sendAcceptToUser e c f w = Some w'" and "env_ok e"
  shows "world_keeps k w w' \<and> w_files w' = w_files w"
proof -
  obtain buf where buf: "strcpy (p_user_id (e_mem e)) c = Some buf"
    and w': "w' = sendPacketToSocketId ((Packet_default (e_mem e))\<lparr>p_type := ACCEPT_PACKET, p_user_id := buf\<rparr>) f w"
    using assms(1) by (auto simp: sendAcceptToUser_def Packet_default_def bind_iff)
  have "packet_sized ((Packet_default (e_mem e))\<lparr>p_type := ACCEPT_PACKET, p_user_id := buf\<rparr>)"
    using assms(2) length_strcpy [OF buf] by (simp add: env_ok_def packet_sized_def Packet_default_def)
  then show ?thesis
    using sendPacketToSocketId_char [of w f] sends_only_keeps unfolding w' by (fastforce simp: sends_only_def)
qed

lemma sendHistoryToUser_keeps:
  assumes run: "sendHistoryToUser e c f g w = Some w'" and e: "env_ok e"
  shows "world_keeps (g_groupName g) w w'"
proof -
  let ?fs = "cropToFileHistoryLimit (g_maxMessages g) (g_groupName g) False (w_files w)"
  obtain ms where run': "foldM (\<lambda>m. sendMessageToAddress e (setIsNotification m True) c f) ms (w\<lparr>w_files := ?fs\<rparr>) = Some w'"
    using run by (auto simp: sendHistoryToUser_def readGroupHistoryMessages_def Let_def bind_iff)
  have "world_keeps (g_groupName g) w (w\<lparr>w_files := ?fs\<rparr>)"
    using files_keep_crop by (simp add: world_keeps_def sent_typed_def)
  moreover have "world_keeps (g_groupName g) (w\<lparr>w_files := ?fs\<rparr>) w'"
    using run'
  proof (rule foldM_invariant)
    fix m t t'
    assume t: "world_keeps (g_groupName g) (w\<lparr>w_files := ?fs\<rparr>) t"
      and "sendMessageToAddress e (setIsNotification m True) c f t = Some t'"
    then obtain p where p: "message_packet e m c = Some p"
        "sendMessageToSession e (setIsNotification m True) c f t = Some t'"
      by (auto simp: sendMessageToAddress_eq sendMessageToSession_def case_prod_beta Let_def bind_iff)
    obtain t'' where "sendMessageToSession e (setIsNotification m True) c f t = Some t''"
        "sends_only [(socket_of (w_book t) f, p)] t t''"
      using sendMessageToSession_char [of e "setIsNotification m True" c p f t] p(1) by auto
    then show "world_keeps (g_groupName g) (w\<lparr>w_files := ?fs\<rparr>) t'"
      using p sends_only_keeps message_packet_sized [OF p(1) e] world_keeps_trans [OF t] by simp
  qed simp
  ultimately show ?thesis by (rule world_keeps_trans)
qed

lemma registerNewSession_queue:
  assumes "registerNewSession e c f name (g, w) = Some (r, g', w')"
  shows "g_groupName g' = g_groupName g \<and> g_maxMessages g' = g_maxMessages g \<and>
    (\<forall>m\<in>set (g_messages_queue g'). m \<in> set (g_messages_queue g) \<or> m_isNotification m)"
  using assms
  by (auto simp: registerNewSession_def Let_def case_prod_beta bind_iff sendActivityMessage_def
      addMessageToMessageQueue_def setIsNotification_def split: option.splits if_splits)

lemma registerNewSession_typed:
  assumes e: "env_ok e" and c: "length c < UUID_SIZE" "NUL \<notin> set c" and g: "group_typed k g w"
  shows "\<exists>r g' w'. registerNewSession e c f name (g, w) = Some (r, g', w') \<and> group_typed k g' w' \<and>
    world_keeps k w w' \<and> g_maxMessages g' = g_maxMessages g"
proof -
  have k: "g_groupName g = k" using g by (simp add: group_typed_def)
  obtain log where rep: "history_rep (g_maxMessages g) (g_groupName g) log (w_files w)"
    using g by (auto simp: group_typed_def readable_def)
  obtain w' where w': "(if w_primary w then Option.bind (sendAcceptToUser e c f w) (sendHistoryToUser e c f g)
      else Some w) = Some w'" "readable (g_maxMessages g) k (w_files w')" "world_keeps k w w'"
  proof (cases "w_primary w")
    case True
    obtain w1 where w1: "sendAcceptToUser e c f w = Some w1" using sendAcceptToUser_effect [OF e c] by blast
    note k1 = sendAcceptToUser_keeps [OF w1 e]
    obtain w2 where w2: "sendHistoryToUser e c f g w1 = Some w2" "history_rep (g_maxMessages g) (g_groupName g) log (w_files w2)"
      using sendHistoryToUser_effect [OF e c(1), of g log w1 f] rep k1 by auto
    have "world_keeps k w w2" using k1 sendHistoryToUser_keeps [OF w2(1) e] k world_keeps_trans by metis
    then show ?thesis using that [of w2] True w1 w2 k by (auto simp: readable_def)
  next
    case False
    then show ?thesis using that [of w] rep k by (auto simp: readable_def)
  qed
  from w'(1) have "\<exists>r g'. registerNewSession e c f name (g, w) = Some (r, g', w')"
    unfolding registerNewSession_def Let_def prod.case w'(1) Option.bind.simps by (simp only: split_beta) blast
  then obtain r g' where r: "registerNewSession e c f name (g, w) = Some (r, g', w')" by blast
  have "group_typed k g' w'"
    using registerNewSession_queue [OF r] g w'(2) by (auto simp: group_typed_def queue_typed_def)
  then show ?thesis using r w'(3) registerNewSession_queue [OF r] by blast
qed

lemma consume_loop_typed:
  assumes e: "env_ok e" and ok: "group_ok g"
  shows "group_typed k g w \<Longrightarrow> ms = g_messages_queue g \<Longrightarrow>
    \<exists>g' w'. consume_loop e ms g w = Some (g', w') \<and> group_typed k g' w' \<and> world_keeps k w w' \<and>
      g_users g' = g_users g \<and> g_maxMessages g' = g_maxMessages g"
  using ok
proof (induction ms arbitrary: g w)
  case Nil
  then show ?case by (auto simp: group_typed_def queue_typed_def)
next
  case (Cons m ms)
  let ?g = "g\<lparr>g_messages_queue := ms\<rparr>"
  let ?w = "w\<lparr>w_files := appendGroupMessageToHistory (g_maxMessages g) m (w_files w)\<rparr>"
  obtain log where rep: "history_rep (g_maxMessages g) k log (w_files w)"
    using Cons.prems(1) by (auto simp: group_typed_def readable_def)
  have "set (m # ms) = set (g_messages_queue g)" using Cons.prems(2) by simp
  then have m: "m_isNotification m \<or> storable m \<and> m_group m = k"
    and ms: "queue_typed k ?g"
    using Cons.prems(1) by (auto simp: group_typed_def queue_typed_def)
  have "\<exists>log'. history_rep (g_maxMessages g) k log' (w_files ?w)"
    using appendGroupMessageToHistory_rep [OF rep m] by auto
  then have read: "readable (g_maxMessages g) k (w_files ?w)" by (simp add: readable_def)
  have keep: "world_keeps k w ?w" using files_keep_append m by (auto simp: world_keeps_def sent_typed_def)
  have cs: "\<forall>x\<in>set (conns ?g). length (fst x) < UUID_SIZE"
    using group_ok_conns [of g] Cons.prems(3) by (simp add: conns_users)
  obtain w1 where w1: "consumeMessage e m ?g w = Some w1" "world_keeps k ?w w1" "w_files w1 = w_files ?w"
  proof (cases "w_primary w")
    case True
    obtain w1 where "broadcastMessageToUsers e m (conns ?g) ?w = Some w1"
        "sends_only (broadcast_packets e m (w_book ?w) (conns ?g)) ?w w1"
      using broadcast_char [OF e cs] by blast
    then show ?thesis
      using that [of w1] True sends_only_keeps broadcast_packets_sized [OF e cs]
      by (simp add: consumeMessage_def Let_def sends_only_def)
  next
    case False
    then show ?thesis using that [of ?w] by (simp add: consumeMessage_def Let_def)
  qed
  have "group_typed k ?g w1"
    using Cons.prems(1) read w1(3) ms by (simp add: group_typed_def)
  moreover have "group_ok ?g" using Cons.prems(3) by (simp add: group_ok_def)
  ultimately obtain g' w' where IH: "consume_loop e ms ?g w1 = Some (g', w')" "group_typed k g' w'"
      "world_keeps k w1 w'" "g_users g' = g_users g" "g_maxMessages g' = g_maxMessages g"
    using Cons.IH [of ?g w1] by auto
  moreover have "world_keeps k w w'" using keep w1(2) IH(3) world_keeps_trans by blast
  ultimately show ?case using w1(1) by auto
qed

lemma consumeMessageQueue_typed:
  assumes e: "env_ok e" and ok: "group_ok g" and g: "group_typed k g w"
  shows "\<exists>g' w'. consumeMessageQueue e (g, w) = Some (g', w') \<and> group_typed k g' w' \<and> world_keeps k w w' \<and>
    g_users g' = g_users g \<and> g_maxMessages g' = g_maxMessages g"
proof (cases "g_consumer_locked g")
  case True
  then show ?thesis using g by (auto simp: consumeMessageQueue_def)
next
  case False
  let ?g = "g\<lparr>g_consumer_locked := True\<rparr>"
  have "group_ok ?g" "group_typed k ?g w"
    using ok g by (simp_all add: group_ok_def group_typed_def queue_typed_def)
  then show ?thesis using consume_loop_typed [OF e, of ?g k w] False by (simp add: consumeMessageQueue_def)
qed

end
