(* ===== verification/Server_Progress.thy ===== *)
theory Server_Progress
  imports Server_Types
begin

section \<open>Progress and preservation for the server\<close>

text \<open>
  The handlers of \<open>src/server/server.cpp\<close> under the types of theory \<open>Server_Types\<close>: joining, leaving,
  losing a front end, messages, replication and the consumer threads are each defined on typed
  inputs and keep the server typed. The locale \<open>typed_machine\<close> is interpreted on the step function
  of the server.
\<close>

subsection \<open>The whole server\<close>

lemma server_typedD:
  assumes "server_typed s"
  shows "server_ok s" "sent_typed (s_world s)" "readable (limit_of s k) k (w_files (s_world s))"
    "map_find (groups_of s) k = Some g \<Longrightarrow> group_typed k g (s_world s) \<and> group_ok g"
proof -
  show "server_ok s" "sent_typed (s_world s)" "readable (limit_of s k) k (w_files (s_world s))"
    using assms by (simp_all add: server_typed_def)
  have "readable (limit_of s k) k (w_files (s_world s))" using assms by (simp add: server_typed_def)
  then show "map_find (groups_of s) k = Some g \<Longrightarrow> group_typed k g (s_world s) \<and> group_ok g"
    using assms groups_ok_find [of "groups_of s" k g]
    by (simp add: server_typed_def server_ok_def group_typed_def limit_of_def)
qed

lemma server_typed_same:
  assumes "server_typed s" and "s_manager s' = s_manager s" and "s_connectionsCount s' = s_connectionsCount s"
    and "w_files (s_world s') = w_files (s_world s)" and "sent_typed (s_world s')"
  shows "server_typed s'"
  using assms server_ok_cong [OF assms(2,3)] by (simp add: server_typed_def limit_of_def groups_of_def cong: option.case_cong)

lemma server_typed_update:
  assumes typed: "server_typed s" and ok: "server_ok s'"
    and finds: "map_find (groups_of s') k = Some g'" "\<forall>j. j \<noteq> k \<longrightarrow> map_find (groups_of s') j = map_find (groups_of s) j"
    and mx: "gm_maxMessages (s_manager s') = gm_maxMessages (s_manager s)"
    and g': "group_typed k g' (s_world s')" and w: "world_keeps k (s_world s) (s_world s')"
  shows "server_typed s'"
proof -
  have "readable (limit_of s' j) j (w_files (s_world s'))" for j
  proof (cases "j = k")
    case True
    then show ?thesis using g' finds(1) by (simp add: group_typed_def limit_of_def)
  next
    case False
    then have "limit_of s' j = limit_of s j" using finds(2) mx by (simp add: limit_of_def cong: option.case_cong)
    then show ?thesis
      using readable_other [OF server_typedD(3) [OF typed], of k _ j] w False by (simp add: world_keeps_def)
  qed
  moreover have "queue_typed j g" if "map_find (groups_of s') j = Some g" for j g
    using that finds g' typed by (cases "j = k") (auto simp: group_typed_def server_typed_def)
  ultimately show ?thesis
    using ok w server_typedD(2) [OF typed] by (simp add: server_typed_def world_keeps_def)
qed

lemma server_typed_Server:
  assumes "\<And>k. readable mem k fs"
  shows "server_typed (Server fs primary mem mem')"
proof -
  have "limit_of (Server fs primary mem mem') k = mem" for k
    by (simp add: limit_of_def Server_def groups_of_def ServerGroupManager_def)
  then show ?thesis
    using assms server_ok_Server by (simp add: server_typed_def sent_typed_def)
      (simp add: Server_def groups_of_def ServerGroupManager_def)
qed

subsection \<open>Joining\<close>

lemma registerUserToGroup_typed:
  assumes typed: "server_typed s" and e: "env_ok e" and c: "length c < UUID_SIZE" "NUL \<notin> set c"
  shows "\<exists>r m w g'. registerUserToGroup e (c, f) name gname (s_manager s, s_world s) = Some (r, m, w) \<and>
    map_find (gm_groupMap m) gname = Some g' \<and>
    (\<forall>j. j \<noteq> gname \<longrightarrow> map_find (gm_groupMap m) j = map_find (groups_of s) j) \<and>
    gm_maxMessages m = gm_maxMessages (s_manager s) \<and> group_typed gname g' w \<and> world_keeps gname (s_world s) w"
proof -
  define g where "g = (case map_find (groups_of s) gname of Some g \<Rightarrow> g
    | None \<Rightarrow> configureGroup (gm_maxMessages (s_manager s)) (Group (e_int e) gname))"
  have "group_typed gname g (s_world s)"
  proof (cases "map_find (groups_of s) gname")
    case None
    then show ?thesis
      using server_typedD(3) [OF typed, of gname]
      by (simp add: g_def group_typed_def queue_typed_def limit_of_def configureGroup_def Group_def)
  next
    case (Some h)
    then show ?thesis using server_typedD(4) [OF typed] by (simp add: g_def)
  qed
  from registerNewSession_typed [OF e c this] obtain r g' w where
      r: "registerNewSession e c f name (g, s_world s) = Some (r, g', w)" "group_typed gname g' w"
        "world_keeps gname (s_world s) w" by blast
  show ?thesis
    using r by (cases "map_find (groups_of s) gname")
      (auto simp: registerUserToGroup_def groupExists_def groups_of_def g_def Let_def)
qed

lemma registerUserToServer_typed:
  assumes typed: "server_typed s" and e: "env_ok e" and ids: "ids_apart p f"
    and texts: "c_str (p_user_id p) = Some uid" "c_str (p_username p) = Some name" "c_str (p_group p) = Some gname"
  shows "\<exists>r s'. registerUserToServer e p f s = Some (r, s') \<and> server_typed s'"
proof -
  let ?inc = "incrementNumberOfConnectionsFromUser name (s_connectionsCount s)"
  have uid: "length uid < UUID_SIZE" "NUL \<notin> set uid"
    using c_str_length [OF texts(1)] c_str_no_NUL [OF texts(1)] ids by (auto simp: ids_apart_def packet_sized_def)
  have eu: "length (e_uuid e) < UUID_SIZE" "packet_sized (e_mem e)" using e by (simp_all add: env_ok_def UUID_SIZE_def)
  show ?thesis
  proof (cases "fst ?inc = USER_SESSIONS_LIMIT_REACHED")
    case True
    obtain refused where pt: "Packet_of_type (e_mem e) (e_uuid e) CONNECTION_REFUSED_PACKET = Some refused"
        "packet_sized refused"
      using Packet_of_type_defined [OF eu(2,1), of CONNECTION_REFUSED_PACKET] by blast
    obtain buf where buf: "strcpy (p_user_id refused) uid = Some buf"
      using strcpy_fits pt(2) uid(1) by (metis packet_sized_def)
    have "packet_sized (refused\<lparr>p_user_id := buf\<rparr>)"
      using pt(2) length_strcpy [OF buf] by (simp add: packet_sized_def)
    note sent = sendPacketToSocketId_typed [OF this server_typedD(2) [OF typed], of f]
    let ?s' = "if w_primary (s_world s)
      then s\<lparr>s_world := sendPacketToSocketId (refused\<lparr>p_user_id := buf\<rparr>) f (s_world s)\<rparr> else s"
    have "registerUserToServer e p f s = Some (-1, ?s')"
      using True pt(1) buf texts by (simp add: registerUserToServer_def case_prod_beta Let_def)
    moreover have "server_typed ?s'"
      using typed sent sendPacketToSocketId_char [of "s_world s" f "refused\<lparr>p_user_id := buf\<rparr>"]
      by (auto intro!: server_typed_same [OF typed] simp: sends_only_def)
    ultimately show ?thesis by blast
  next
    case False
    from registerUserToGroup_typed [OF typed e uid] obtain r m w g' where
        r: "registerUserToGroup e (uid, f) name gname (s_manager s, s_world s) = Some (r, m, w)"
          "map_find (gm_groupMap m) gname = Some g'"
          "\<forall>j. j \<noteq> gname \<longrightarrow> map_find (gm_groupMap m) j = map_find (groups_of s) j"
          "gm_maxMessages m = gm_maxMessages (s_manager s)" "group_typed gname g' w" "world_keeps gname (s_world s) w"
      by blast
    let ?s' = "s\<lparr>s_connectionsCount := snd ?inc, s_manager := m, s_world := w\<rparr>"
    have reg: "registerUserToServer e p f s = Some (r, ?s')"
      using False texts r(1) by (simp add: registerUserToServer_def registerUser_def case_prod_beta Let_def)
    have "server_ok ?s'" by (rule register_ok [OF server_typedD(1) [OF typed] ids reg])
    then have "server_typed ?s'"
      using r by (intro server_typed_update [OF typed, of ?s' gname g']) (simp_all add: groups_of_def)
    then show ?thesis using reg by blast
  qed
qed

subsection \<open>Leaving\<close>

lemma disconnectSession_queue:
  assumes "disconnectSession primary now c f (g, cs) = Some (g', cs')"
  shows "\<forall>m\<in>set (g_messages_queue g'). m \<in> set (g_messages_queue g) \<or> m_isNotification m"
proof (cases "getUserFromConnectionId c f g")
  case None
  then show ?thesis using assms by (simp add: disconnectSession_def)
next
  case (Some i)
  then obtain u where "releaseSession (g_users g ! i) c f = Some u"
    using assms by (auto simp: disconnectSession_def bind_iff Let_def)
  then show ?thesis
    using assms Some
    by (auto simp: disconnectSession_def Let_def sendActivityMessage_def addMessageToMessageQueue_def
        setIsNotification_def split: if_splits)
qed

lemma handleDisconnectEvent_queue:
  assumes "handleDisconnectEvent tag primary now c f (g, cs) = Some (g', cs')"
  shows "\<forall>m\<in>set (g_messages_queue g'). m \<in> set (g_messages_queue g) \<or> m_isNotification m"
proof (cases "c = tag")
  case True
  then have run: "foldM (\<lambda>conn st. if snd conn = f then disconnectSession primary now (fst conn) f st else Some st)
      (conns g) (g, cs) = Some (g', cs')"
    using assms by (simp add: handleDisconnectEvent_def)
  have "\<forall>m\<in>set (g_messages_queue (fst (g', cs'))). m \<in> set (g_messages_queue g) \<or> m_isNotification m"
    using run
  proof (rule foldM_invariant)
    fix x st st'
    assume st: "\<forall>m\<in>set (g_messages_queue (fst st)). m \<in> set (g_messages_queue g) \<or> m_isNotification m"
      and "(if snd x = f then disconnectSession primary now (fst x) f st else Some st) = Some st'"
    then show "\<forall>m\<in>set (g_messages_queue (fst st')). m \<in> set (g_messages_queue g) \<or> m_isNotification m"
      using disconnectSession_queue [of primary now "fst x" f "fst st" "snd st" "fst st'" "snd st'"]
      by (cases st; cases st') (auto split: if_splits)
  qed simp
  then show ?thesis by simp
next
  case False
  then show ?thesis using assms disconnectSession_queue by (simp add: handleDisconnectEvent_eq)
qed

lemma propagate_loop_typed:
  assumes "\<forall>e\<in>set groups. single_sessions (snd e) \<and> group_ok (snd e)" and "c \<noteq> f"
  shows "\<exists>groups' cs'. propagate_loop tag primary now (c, f) groups cs = Some (groups', cs') \<and>
    (\<forall>k g'. map_find groups' k = Some g' \<longrightarrow> (\<exists>g. map_find groups k = Some g \<and>
      g_maxMessages g' = g_maxMessages g \<and>
      (\<forall>m\<in>set (g_messages_queue g'). m \<in> set (g_messages_queue g) \<or> m_isNotification m))) \<and>
    (\<forall>k. map_find groups' k = None \<longrightarrow> map_find groups k = None)"
  using assms(1)
proof (induction groups arbitrary: cs)
  case Nil
  then show ?case by simp
next
  case (Cons e groups)
  obtain k g where e: "e = (k, g)" by (cases e)
  have ok: "single_sessions g" "group_ok g" using Cons.prems by (simp_all add: e)
  obtain g1 cs1 where h: "handleDisconnectEvent tag primary now c f (g, cs) = Some (g1, cs1)"
    using handleDisconnectEvent_single [OF ok assms(2)] by blast
  obtain groups1 cs' where rest: "propagate_loop tag primary now (c, f) groups cs1 = Some (groups1, cs')"
      "\<forall>k g'. map_find groups1 k = Some g' \<longrightarrow> (\<exists>g. map_find groups k = Some g \<and>
        g_maxMessages g' = g_maxMessages g \<and>
        (\<forall>m\<in>set (g_messages_queue g'). m \<in> set (g_messages_queue g) \<or> m_isNotification m))"
      "\<forall>k. map_find groups1 k = None \<longrightarrow> map_find groups k = None"
    using Cons.IH [of cs1] Cons.prems by auto
  then show ?case
    using h handleDisconnectEvent_queue [OF h] handleDisconnectEvent_invariant [OF h ok(2) assms(2)]
    by (auto simp: e)
qed

lemma closeClientConnection_typed:
  assumes typed: "server_typed s" and single: "all_single s" and "c \<noteq> f"
  shows "\<exists>s'. closeClientConnection tag now (c, f) s = Some s' \<and> server_typed s'"
proof -
  have ok: "server_ok s" using typed by (rule server_typedD)
  then have "\<forall>e\<in>set (groups_of s). single_sessions (snd e) \<and> group_ok (snd e)"
    using single by (simp add: all_single_def server_ok_def groups_ok_def)
  from propagate_loop_typed [OF this \<open>c \<noteq> f\<close>] obtain groups cs where
      pl: "propagate_loop tag (w_primary (s_world s)) now (c, f) (groups_of s) (s_connectionsCount s) = Some (groups, cs)"
    and same: "\<forall>k g'. map_find groups k = Some g' \<longrightarrow> (\<exists>g. map_find (groups_of s) k = Some g \<and>
        g_maxMessages g' = g_maxMessages g \<and>
        (\<forall>m\<in>set (g_messages_queue g'). m \<in> set (g_messages_queue g) \<or> m_isNotification m))"
      "\<forall>k. map_find groups k = None \<longrightarrow> map_find (groups_of s) k = None"
    by blast
  let ?s' = "s\<lparr>s_manager := (s_manager s)\<lparr>gm_groupMap := groups\<rparr>, s_connectionsCount := cs\<rparr>"
  have close: "closeClientConnection tag now (c, f) s = Some ?s'"
    using pl by (simp add: closeClientConnection_def propagateSocketDisconnectionEvent_def groups_of_def)
  have "limit_of ?s' k = limit_of s k" for k
  proof (cases "map_find groups k")
    case None
    then show ?thesis using same(2) by (simp add: limit_of_def groups_of_def)
  next
    case (Some g')
    then show ?thesis using same(1) by (fastforce simp: limit_of_def groups_of_def)
  qed
  moreover have "queue_typed k g'" if "map_find groups k = Some g'" for k g'
    using same(1) that typed unfolding server_typed_def queue_typed_def by meson
  ultimately have "server_typed ?s'"
    using closeClientConnection_effect [OF ok close \<open>c \<noteq> f\<close>] typed by (simp add: server_typed_def groups_of_def)
  then show ?thesis using close by blast
qed

lemma closeFrontEndConnection_typed:
  assumes typed: "server_typed s" and may: "f \<in> set (s_feAddresses s) \<longrightarrow> all_single s \<and> f \<notin> set (butlast (s_feAddresses s))"
    and "sent \<noteq> f"
  shows "\<exists>s'. closeFrontEndConnection sent compared now f s = Some s' \<and> server_typed s'"
proof (cases "f \<in> set (s_feAddresses s)")
  case False
  then show ?thesis using typed by (simp add: closeFrontEndConnection_unknown)
next
  case True
  obtain s1 where c: "closeClientConnection compared now (sent, f) s = Some s1" "server_typed s1"
    using closeClientConnection_typed [OF typed _ \<open>sent \<noteq> f\<close>] may True by blast
  obtain w where w: "getSocketFromAddress f (s_world s1) = (socket_of (w_book (s_world s1)) f, w)"
      "sends_only [] (s_world s1) w"
    using getSocketFromAddress_char by blast
  let ?s2 = "s1\<lparr>s_world := w, s_closed := s_closed s1 @ [socket_of (w_book (s_world s1)) f]\<rparr>"
  have fe: "s_feAddresses s1 = s_feAddresses s"
    using closeClientConnection_effect [OF server_typedD(1) [OF typed] c(1) \<open>sent \<noteq> f\<close>] by simp
  then have "\<exists>as. erase_in_range_for (\<lambda>address. address = f) (s_feAddresses ?s2) = Some as"
    using may True by (simp add: erase_in_range_for_char)
  then obtain s' where p: "purgeFeConnection f ?s2 = Some s'"
    by (auto simp: purgeFeConnection_def Let_def)
  have files: "w_files (s_world s') = w_files w \<and> w_sent (s_world s') = w_sent w"
    using p by (auto simp: purgeFeConnection_def bind_iff Let_def)
  have "server_typed s'"
    using purgeFeConnection_effect [OF p] files w(2) server_typedD(2) [OF c(2)]
    by (intro server_typed_same [OF c(2)]) (simp_all add: sends_only_def sent_typed_def)
  then show ?thesis using c(1) w(1) p True by (simp add: closeFrontEndConnection_def)
qed

subsection \<open>Packets\<close>

lemma handleMessage_typed:
  assumes typed: "server_typed s" and e: "env_typed e" and texts: "named_texts p"
  shows "\<exists>s'. handleMessage e p s = Some s' \<and> server_typed s'"
proof -
  obtain gname name body where t: "c_str (p_group p) = Some gname" "c_str (p_username p) = Some name"
      "c_str (p_message p) = Some body" "plain name" "plain body"
    using texts by (auto simp: named_texts_def split: option.splits)
  show ?thesis
  proof (cases "map_find (groups_of s) gname")
    case None
    then show ?thesis using t(1) typed by (simp add: handleMessage_def processReceivedPacket_def groups_of_def)
  next
    case (Some g)
    let ?g = "processReceivedMessage (e_now e) name body g"
    let ?s' = "s\<lparr>s_manager := (s_manager s)\<lparr>gm_groupMap := map_assign (groups_of s) gname ?g\<rparr>\<rparr>"
    have h: "handleMessage e p s = Some ?s'"
      using t(1-3) Some by (simp add: handleMessage_def processReceivedPacket_def groups_of_def)
    note g = server_typedD(4) [OF typed Some]
    have "storable (Message body name gname (e_now e))"
      using t(4,5) e by (simp add: storable_def plain_def env_typed_def Message_def)
    then have "group_typed gname ?g (s_world ?s')"
      using g by (auto simp: group_typed_def queue_typed_def group_defs Message_def)
    then have "server_typed ?s'"
      using handleMessage_ok [OF server_typedD(1) [OF typed] h]
      by (intro server_typed_update [OF typed, of ?s' gname ?g]) (simp_all add: groups_of_def)
    then show ?thesis using h by blast
  qed
qed

lemma sendAck_typed:
  assumes typed: "server_typed s" and e: "env_ok e" and p: "packet_sized p" "c_str (p_user_id p) \<noteq> None"
  shows "\<exists>s'. sendAck e sock p s = Some s' \<and> server_typed s'"
proof -
  obtain uid where uid: "c_str (p_user_id p) = Some uid" using p(2) by blast
  have len: "length uid < UUID_SIZE" using c_str_length [OF uid] p(1) by (simp add: packet_sized_def)
  obtain buf where buf: "strcpy (p_user_id (e_mem e)) uid = Some buf"
    using strcpy_fits len e by (metis env_ok_def packet_sized_def)
  let ?a = "(Packet_default (e_mem e))\<lparr>p_type := ACK_PACKET, p_user_id := buf\<rparr>"
  let ?s' = "s\<lparr>s_world := emit sock ?a (s_world s)\<rparr>"
  have "packet_sized ?a"
    using e length_strcpy [OF buf] by (simp add: env_ok_def packet_sized_def Packet_default_def)
  then have "server_typed ?s'"
    using server_typedD(2) [OF typed] by (intro server_typed_same [OF typed]) (simp_all, simp_all add: emit_def)
  moreover have "sendAck e sock p s = Some ?s'" using uid buf by (simp add: sendAck_def Packet_default_def Let_def)
  ultimately show ?thesis by blast
qed

lemma replication_step_typed:
  assumes typed: "server_typed s" and p: "packet_sized p" and f: "length f < 100" and all: "\<And>r. confirms r"
  shows "\<exists>q t. replication_step confirms f p s = Some (q, t) \<and> server_typed t"
proof (cases "w_primary (s_world s) \<and> replicates p \<and> s_rm_sockets s \<noteq> []")
  case False
  then have "replication_step confirms f p s = Some (p, s)" by (auto simp: replication_step_def)
  then show ?thesis using typed by blast
next
  case True
  obtain buf where buf: "strcpy (p_frontEndAddress p) f = Some buf"
    using strcpy_fits f p by (metis packet_sized_def)
  let ?q = "p\<lparr>p_frontEndAddress := buf\<rparr>"
  let ?t = "s\<lparr>s_world := (s_world s)\<lparr>w_sent := w_sent (s_world s) @ map (\<lambda>e. (fst e, ?q)) (s_rm_sockets s)\<rparr>\<rparr>"
  have "packet_sized ?q" using p length_strcpy [OF buf] by (simp add: packet_sized_def)
  then have "server_typed ?t"
    using server_typedD(2) [OF typed] by (intro server_typed_same [OF typed]) (auto simp: sent_typed_def)
  moreover have "replication_step confirms f p s = Some (?q, ?t)"
    using True buf all by (simp add: replication_step_def replicate_packet_char Let_def)
  ultimately show ?thesis by blast
qed

lemma packet_typed_fields:
  assumes "p_user_id q = p_user_id p" "p_type q = p_type p" "p_group q = p_group p" "p_username q = p_username p"
    "p_message q = p_message p" "packet_sized p \<longrightarrow> packet_sized q" and "packet_typed f p"
  shows "packet_typed f q"
  using assms by (simp add: packet_typed_def ids_apart_def replicates_def packet_kind_defs named_texts_def)

lemma join_typed:
  assumes "server_typed s" and "env_ok e" and p: "packet_typed f p" "isJoinMessage p"
  shows "\<exists>r s'. registerUserToServer e p f s = Some (r, s') \<and> server_typed s'"
proof -
  obtain uid name gname where "c_str (p_user_id p) = Some uid" "c_str (p_username p) = Some name"
      "c_str (p_group p) = Some gname"
    using p by (auto simp: packet_typed_def named_texts_def replicates_def split: option.splits)
  then show ?thesis using registerUserToServer_typed assms p by (auto simp: packet_typed_def)
qed

lemma leave_typed:
  assumes "server_typed s" and "all_single s" and p: "packet_typed f p" "isDisconnect p"
  shows "\<exists>uid s'. c_str (p_user_id p) = Some uid \<and> closeClientConnection tag now (uid, f) s = Some s' \<and> server_typed s'"
proof -
  obtain uid where "c_str (p_user_id p) = Some uid" "uid \<noteq> f"
    using p by (auto simp: packet_typed_def ids_apart_def replicates_def)
  then show ?thesis using closeClientConnection_typed assms(1,2) by blast
qed

lemma handleFrontEndPacket_typed:
  assumes typed: "server_typed s" and e: "env_typed e" and p: "packet_typed f p" and f: "length f < 100"
    and all: "\<And>r. confirms r" and may: "isDisconnect p \<longrightarrow> all_single s"
  shows "\<exists>s'. handleFrontEndPacket e tag confirms f sock p s = Some s' \<and> server_typed s'"
proof -
  have e': "env_ok e" using e by (simp add: env_typed_def)
  have "packet_sized p" using p by (simp add: packet_typed_def ids_apart_def)
  then obtain q t where r: "replication_step confirms f p s = Some (q, t)" and t: "server_typed t"
    using replication_step_typed [OF typed _ f, of p confirms] all by blast
  note k = replication_step_keeps [OF r]
  have q: "packet_typed f q" using packet_typed_fields [OF _ _ _ _ _ _ p, of q] k by simp
  have may': "isDisconnect q \<longrightarrow> all_single t" using may k by (simp add: all_single_def groups_of_def packet_kind_defs)
  consider "isMessage q" | "isKeepAlive q" "\<not> isMessage q" | "isJoinMessage q" "\<not> isMessage q" "\<not> isKeepAlive q"
    | "isDisconnect q" "\<not> isMessage q" "\<not> isKeepAlive q" "\<not> isJoinMessage q"
    | "\<not> isMessage q" "\<not> isKeepAlive q" "\<not> isJoinMessage q" "\<not> isDisconnect q" by blast
  then show ?thesis
  proof cases
    case 1
    then have "packet_sized q" "c_str (p_user_id q) \<noteq> None" "named_texts q"
      using q by (simp_all add: packet_typed_def ids_apart_def replicates_def)
    then obtain u where u: "sendAck e sock q t = Some u" "server_typed u" using sendAck_typed [OF t e'] by blast
    then show ?thesis
      using handleMessage_typed [OF u(2) e \<open>named_texts q\<close>] r 1 by (simp add: handleFrontEndPacket_def)
  next
    case 2
    let ?s' = "t\<lparr>s_monitor := refresh (e_now e) sock (s_monitor t)\<rparr>"
    have "server_typed ?s'" using server_typedD(2) [OF t] by (intro server_typed_same [OF t]) simp_all
    then show ?thesis using r 2 by (simp add: handleFrontEndPacket_def)
  next
    case 3
    then show ?thesis using join_typed [OF t e' q] r by (auto simp: handleFrontEndPacket_def)
  next
    case 4
    then show ?thesis
      using leave_typed [OF t _ q 4(1), of tag "e_now e"] may' r by (auto simp: handleFrontEndPacket_def)
  next
    case 5
    then show ?thesis using t r by (simp add: handleFrontEndPacket_def)
  qed
qed

lemma handleReplicationPacket_typed:
  assumes typed: "server_typed s" and e: "env_typed e" and a: "c_str (p_frontEndAddress p) = Some f"
    and p: "packet_typed f p" and may: "isDisconnect p \<longrightarrow> all_single s"
  shows "\<exists>s'. handleReplicationPacket e tag sock p s = Some s' \<and> server_typed s'"
proof -
  have e': "env_ok e" using e by (simp add: env_typed_def)
  have "\<exists>t. (if isMessage p then handleMessage e (p\<lparr>p_type := REPLICATION_PACKET\<rparr>) s
      else if isJoinMessage p then map_option snd (registerUserToServer e p f s)
      else if isDisconnect p then
        Option.bind (c_str (p_user_id p)) (\<lambda>uid. closeClientConnection tag (e_now e) (uid, f) s)
      else Some s) = Some t \<and> server_typed t"
  proof -
    consider "isMessage p" | "isJoinMessage p" "\<not> isMessage p" | "isDisconnect p" "\<not> isMessage p" "\<not> isJoinMessage p"
      | "\<not> isMessage p" "\<not> isJoinMessage p" "\<not> isDisconnect p" by blast
    then show ?thesis
    proof cases
      case 1
      then have "named_texts (p\<lparr>p_type := REPLICATION_PACKET\<rparr>)" using p by (simp add: packet_typed_def named_texts_def)
      then show ?thesis using handleMessage_typed [OF typed e] 1 by simp
    next
      case 2
      then show ?thesis using join_typed [OF typed e' p] by auto
    next
      case 3
      then show ?thesis using leave_typed [OF typed _ p 3(1), of tag "e_now e"] may by auto
    next
      case 4
      then show ?thesis using typed by simp
    qed
  qed
  then obtain t where t: "(if isMessage p then handleMessage e (p\<lparr>p_type := REPLICATION_PACKET\<rparr>) s
      else if isJoinMessage p then map_option snd (registerUserToServer e p f s)
      else if isDisconnect p then
        Option.bind (c_str (p_user_id p)) (\<lambda>uid. closeClientConnection tag (e_now e) (uid, f) s)
      else Some s) = Some t" "server_typed t" by blast
  let ?c = "(Packet_default (e_mem e))\<lparr>p_type := REPLICATION_CONFIRMATION_PACKET\<rparr>"
  have "packet_sized ?c" using e' by (simp add: env_ok_def packet_sized_def Packet_default_def)
  then have "server_typed (t\<lparr>s_world := emit sock ?c (s_world t)\<rparr>)"
    using server_typedD(2) [OF t(2)] by (intro server_typed_same [OF t(2)]) (simp_all, simp_all add: emit_def)
  then show ?thesis using a t(1) unfolding handleReplicationPacket_def by (simp add: Let_def)
qed

subsection \<open>Progress and preservation\<close>

lemma consumeGroup_typed:
  assumes typed: "server_typed s" and e: "env_ok e"
  shows "\<exists>s'. consumeGroup e gname s = Some s' \<and> server_typed s'"
proof (cases "map_find (groups_of s) gname")
  case None
  then show ?thesis using typed by (simp add: consumeGroup_def groups_of_def)
next
  case (Some g)
  note g = server_typedD(4) [OF typed Some]
  obtain g' w' where c: "consumeMessageQueue e (g, s_world s) = Some (g', w')" "group_typed gname g' w'"
      "world_keeps gname (s_world s) w'"
    using consumeMessageQueue_typed [OF e, of g gname "s_world s"] g by blast
  let ?s' = "s\<lparr>s_manager := (s_manager s)\<lparr>gm_groupMap := map_assign (groups_of s) gname g'\<rparr>, s_world := w'\<rparr>"
  have h: "consumeGroup e gname s = Some ?s'"
    using Some c(1) by (simp add: consumeGroup_def groups_of_def Let_def)
  have "server_ok ?s'" by (rule consumeGroup_ok [OF server_typedD(1) [OF typed] h])
  then have "server_typed ?s'"
    using c by (intro server_typed_update [OF typed, of ?s' gname g']) (simp_all add: groups_of_def)
  then show ?thesis using h by blast
qed

lemma server_progress:
  assumes typed: "server_typed s" and ev: "event_typed ev" and may: "can_leave ev s"
  shows "\<exists>s'. server_step ev s = Some s' \<and> server_typed s'"
proof -
  note sent = server_typedD(2) [OF typed]
  show ?thesis
  proof (cases ev)
    case (FE_Packet e tag lost f sock p)
    then show ?thesis using handleFrontEndPacket_typed [OF typed, of e f p "\<lambda>r. r \<notin> set lost"] ev may by simp
  next
    case (RM_Packet e tag sock p)
    then show ?thesis
      using handleReplicationPacket_typed [OF typed, of e p] ev may by (auto split: option.splits)
  next
    case (FE_Listener_Ends s1 s2 now f sock)
    let ?s = "s\<lparr>s_monitor := killSocket sock (s_monitor s)\<rparr>"
    have "server_typed ?s" using sent by (intro server_typed_same [OF typed]) simp_all
    then show ?thesis
      using closeFrontEndConnection_typed [of ?s f s1 s2 now] FE_Listener_Ends ev may
      by (simp add: frontEndListenerEnds_def all_single_def groups_of_def)
  next
    case (FE_Times_Out s1 s2 now f sock)
    let ?s = "s\<lparr>s_monitor := map_erase (s_monitor s) sock\<rparr>"
    have "server_typed ?s" using sent by (intro server_typed_same [OF typed]) simp_all
    then show ?thesis
      using closeFrontEndConnection_typed [of ?s f s1 s2 now] FE_Times_Out ev may
      by (simp add: frontEndTimesOut_def all_single_def groups_of_def)
  next
    case (Consume e gname)
    then show ?thesis using consumeGroup_typed [OF typed] ev by simp
  next
    case (RM_Listener_Ends sock)
    then show ?thesis using sent server_typed_same [OF typed] by (simp add: replicationListenerEnds_def)
  next
    case (Connect_FE sock r f port)
    then show ?thesis using sent typed server_typed_same [OF typed]
      by (simp add: connectToFE_def Let_def sent_typed_def)
  next
    case (Accept_RM sock port)
    then show ?thesis using sent typed server_typed_same [OF typed] by (simp add: acceptRMConnection_def)
  next
    case Become_Primary
    then show ?thesis using sent server_typed_same [OF typed] by (simp add: becomePrimary_def sent_typed_def)
  qed
qed

interpretation typed_server: typed_machine server_step event_typed can_leave server_typed
  by unfold_locales (rule server_progress)

end
