(* ===== verification/Elections.thy ===== *)
theory Elections
  imports Delivery
begin

section \<open>Electing the primary on the ring\<close>

text \<open>
  \<open>src/server/Election.cpp\<close>: one server's part in the ring election, and the election itself,
  the composition of these parts around a ring of servers. A message is a status and an
  identifier printed into the text of a packet. The identifiers are the servers' listening ports.
\<close>

record election =
  el_isParticipating :: bool

definition Election :: election where
  "Election = \<lparr>el_isParticipating = False\<rparr>"

text \<open>
  The buffer is zeroed, filled with at most 253 characters and terminated. The constructor used
  sets no packet type.
\<close>

definition election_buildPacket :: "env \<Rightarrow> int \<Rightarrow> string \<Rightarrow> packet option" where
  "election_buildPacket e server_ID status =
     (let message = status @ '' '' @ to_string server_ID;
          messageBuffer = (strncpy (replicate MESSAGE_MAX_SIZE NUL) message (MESSAGE_MAX_SIZE - 2))
                            [MESSAGE_MAX_SIZE - 1 := NUL]
      in do {
        text \<leftarrow> c_str messageBuffer;
        Packet_text (e_mem e) (e_uuid e) [] [] text (word_of_int (e_now e))
      })"

definition sendMessageToNextServer ::
    "env \<Rightarrow> int \<Rightarrow> string \<Rightarrow> packet list option" where
  \<comment> \<open>the packets written to the socket of the next server\<close>
  "sendMessageToNextServer e server_ID status =
     map_option (\<lambda>p. [p]) (election_buildPacket e server_ID status)"

definition startElection :: "env \<Rightarrow> int \<Rightarrow> packet list option" where
  "startElection e server_ID = sendMessageToNextServer e server_ID ''ELECTION''"

text \<open>
  \<open>processElectionInfo\<close>: the result is the new primary or 0, with the state and the packets sent.
  \<open>Inl\<close> is the exception of \<open>stoi\<close>, which nothing catches.
\<close>

definition processElectionInfo ::
    "env \<Rightarrow> string \<Rightarrow> int \<Rightarrow> election \<Rightarrow> (stoi_error + int \<times> election \<times> packet list) option" where
  "processElectionInfo e message server_ID el =
     (let (status, rest) = next_word message; (receivedID, _) = next_word rest in
      case stoi receivedID of
        Inl err \<Rightarrow> Some (Inl err)
      | Inr client_ID \<Rightarrow>
          if \<not> el_isParticipating el then do {
            out \<leftarrow> sendMessageToNextServer e
                    (if client_ID > server_ID then client_ID else server_ID) ''ELECTION'';
            Some (Inr (0, el\<lparr>el_isParticipating := True\<rparr>, out))
          }
          else if status = ''ELECTION'' then do {
            out \<leftarrow> sendMessageToNextServer e client_ID
                    (if client_ID \<noteq> server_ID then ''ELECTION'' else ''ELECTED'');
            Some (Inr (0, el, out))
          }
          else do {
            out \<leftarrow> (if client_ID \<noteq> server_ID then sendMessageToNextServer e client_ID ''ELECTED''
                   else Some []);
            Some (Inr (client_ID, el\<lparr>el_isParticipating := False\<rparr>, out))
          })"

subsection \<open>Messages survive the wire\<close>

text \<open>The decision without packets: who is sent on, with which status, and the result.\<close>

definition decide :: "string \<Rightarrow> int \<Rightarrow> int \<Rightarrow> bool \<Rightarrow> int \<times> bool \<times> (string \<times> int) option" where
  "decide status client_ID server_ID participating =
     (if \<not> participating then (0, True, Some (''ELECTION'', max client_ID server_ID))
      else if status = ''ELECTION'' then
        (0, True, Some (if client_ID \<noteq> server_ID then ''ELECTION'' else ''ELECTED'', client_ID))
      else (client_ID, False, if client_ID \<noteq> server_ID then Some (''ELECTED'', client_ID) else None))"

definition int_range :: "int \<Rightarrow> bool" where
  "int_range i \<longleftrightarrow> - (2 ^ 31) \<le> i \<and> i < 2 ^ 31"

lemma length_to_string: "int_range i \<Longrightarrow> length (to_string i) \<le> 11"
proof -
  assume r: "int_range i"
  have "\<bar>i\<bar> < 10 ^ 10" using r by (simp add: int_range_def abs_if)
  then have "nat \<bar>i\<bar> < 10 ^ 10" by (simp add: nat_less_iff)
  from show_nat_length [OF _ this] have "length (show_nat (nat \<bar>i\<bar>)) \<le> 10" by simp
  then show ?thesis by (simp add: to_string_def abs_if split: if_splits)
qed

definition carries :: "packet \<Rightarrow> string \<Rightarrow> int \<Rightarrow> bool" where
  "carries p status i \<longleftrightarrow> c_str (p_message p) = Some (status @ '' '' @ to_string i)"

definition status_word :: "string \<Rightarrow> bool" where
  "status_word st \<longleftrightarrow> st = ''ELECTION'' \<or> st = ''ELECTED''"

lemma to_string_no_NUL: "NUL \<notin> set (to_string i)"
  using to_string_chars [of i] by (auto simp: is_digit_def)

lemma election_buildPacket_carries:
  assumes e: "env_ok e" and i: "int_range i" and st: "status_word status"
  shows "\<exists>p. election_buildPacket e i status = Some p \<and> carries p status i \<and> packet_sized p"
proof -
  let ?m = "status @ '' '' @ to_string i"
  let ?buf = "(strncpy (replicate MESSAGE_MAX_SIZE NUL) ?m (MESSAGE_MAX_SIZE - 2))[MESSAGE_MAX_SIZE - 1 := NUL]"
  have len: "length ?m < 21" using length_to_string [OF i] st by (auto simp: status_word_def)
  have nul: "NUL \<notin> set ?m" using to_string_no_NUL st by (auto simp: status_word_def)
  have sized: "packet_sized (e_mem e)" using e by (simp add: env_ok_def)
  have "c_str (strncpy (replicate MESSAGE_MAX_SIZE NUL) ?m (MESSAGE_MAX_SIZE - 2)) = Some ?m"
    using len nul by (intro c_str_strncpy_short) (simp_all add: MESSAGE_MAX_SIZE_def)
  then have buf: "c_str ?buf = Some ?m"
    using len by (intro c_str_update) (simp_all add: MESSAGE_MAX_SIZE_def)
  obtain mid where mid: "strcpy (p_message_id (e_mem e)) (e_uuid e) = Some mid"
    using strcpy_fits e sized by (metis env_ok_def packet_sized_def UUID_SIZE_def lessI eval_nat_numeral(3))
  have "election_buildPacket e i status =
      Packet_text (e_mem e) (e_uuid e) [] [] ?m (word_of_int (e_now e))"
    using buf by (simp add: election_buildPacket_def)
  then obtain p where p: "election_buildPacket e i status = Some p"
    and tx: "p_message p = strncpy (p_message (e_mem e)) ?m (MESSAGE_MAX_SIZE - 1)"
    and ps: "packet_sized p"
    using mid sized length_strcpy [OF mid]
    by (auto simp: Packet_text_def packet_sized_def size_defs)
  have "carries p status i"
    unfolding carries_def tx using len nul
    by (intro c_str_strncpy_short) (simp_all add: MESSAGE_MAX_SIZE_def)
  then show ?thesis using p ps by blast
qed

lemma next_word_message:
  assumes "status_word status"
  shows "next_word (status @ CHR '' '' # to_string i) = (status, CHR '' '' # to_string i)"
    and "next_word (CHR '' '' # to_string i) = (to_string i, [])"
proof -
  have "status \<noteq> []" "\<forall>c\<in>set status. \<not> isspace c" "isspace CHR '' ''"
    using assms by (auto simp: status_word_def isspace_def)
  then show "next_word (status @ CHR '' '' # to_string i) = (status, CHR '' '' # to_string i)"
    using next_word_first [of status "CHR '' ''" "to_string i"] by simp
  show "next_word (CHR '' '' # to_string i) = (to_string i, [])"
    using next_word_last [of "to_string i" "CHR '' ''"] to_string_not_space \<open>isspace CHR '' ''\<close> by simp
qed

text \<open>What a server does with a message is the decision on its two words.\<close>

lemma processElectionInfo_decide:
  assumes e: "env_ok e" and i: "int_range i" "int_range me" and st: "status_word status"
  shows "\<exists>out. processElectionInfo e (status @ '' '' @ to_string i) me el =
      Some (Inr (fst (decide status i me (el_isParticipating el)),
        el\<lparr>el_isParticipating := fst (snd (decide status i me (el_isParticipating el)))\<rparr>, out)) \<and>
    (case snd (snd (decide status i me (el_isParticipating el))) of
       None \<Rightarrow> out = [] | Some (st', j) \<Rightarrow> \<exists>p. out = [p] \<and> carries p st' j \<and> packet_sized p)"
proof -
  have stoi: "stoi (to_string i) = Inr i"
    using i(1) by (intro stoi_to_string) (simp_all add: int_range_def)
  have send: "\<exists>p. sendMessageToNextServer e j st' = Some [p] \<and> carries p st' j \<and> packet_sized p"
    if "int_range j" "status_word st'" for j st'
    using election_buildPacket_carries [OF e that] by (auto simp: sendMessageToNextServer_def)
  have words: "status_word ''ELECTION''" "status_word ''ELECTED''" by (simp_all add: status_word_def)
  have mx: "(if i > me then i else me) = max i me" "int_range (max i me)"
    using i by (auto simp: max_def)
  obtain p1 where p1: "sendMessageToNextServer e (max i me) ''ELECTION'' = Some [p1]"
      "carries p1 ''ELECTION'' (max i me)" "packet_sized p1"
    using send [OF mx(2) words(1)] by blast
  obtain p2 where p2: "sendMessageToNextServer e i ''ELECTION'' = Some [p2]"
      "carries p2 ''ELECTION'' i" "packet_sized p2"
    using send [OF i(1) words(1)] by blast
  obtain p3 where p3: "sendMessageToNextServer e i ''ELECTED'' = Some [p3]"
      "carries p3 ''ELECTED'' i" "packet_sized p3"
    using send [OF i(1) words(2)] by blast
  note words = next_word_message [OF st]
  have run: "processElectionInfo e (status @ '' '' @ to_string i) me el =
     (if \<not> el_isParticipating el then Some (Inr (0, el\<lparr>el_isParticipating := True\<rparr>, [p1]))
      else if status = ''ELECTION''
      then Some (Inr (0, el, [if i \<noteq> me then p2 else p3]))
      else Some (Inr (i, el\<lparr>el_isParticipating := False\<rparr>, if i \<noteq> me then [p3] else [])))"
    using p1(1) p2(1) p3(1) stoi
    by (cases "i = me") (simp_all add: processElectionInfo_def words mx(1))
  have el: "el_isParticipating el \<Longrightarrow> el\<lparr>el_isParticipating := True\<rparr> = el" by (cases el) simp
  show ?thesis
    unfolding run using p1(2,3) p2(2,3) p3(2,3) el by (auto simp: decide_def)
qed

end
