(* ===== verification/Ring.thy ===== *)
theory Ring
  imports Elections
begin

section \<open>One server of the ring\<close>

text \<open>
  \<open>src/server/ServersRing.cpp\<close>: the list of ports in \<open>config.txt\<close>, from which a server takes
  its own port and then, again and again, the port of the server it connects to; the choice of
  the first port as the primary's; the detection of a broken ring and the start of an election.
  A \<open>sin_port\<close> holds 16 bits. \<open>Inl\<close> is the exception of \<open>stoi\<close>.
\<close>

record ring =
  rg_lines :: "string list"  \<comment> \<open>the lines of \<open>config.txt\<close>\<close>
  rg_pos :: nat  \<comment> \<open>lines of \<open>myfile\<close> already read\<close>
  rg_own_port :: int  \<comment> \<open>\<open>serv_addr.sin_port\<close>\<close>
  rg_next_port :: int  \<comment> \<open>\<open>client_addr.sin_port\<close>\<close>
  rg_server_ID :: int
  rg_primary :: int
  rg_isPrimary :: bool
  rg_disconnected :: bool
  rg_server_primary :: bool  \<comment> \<open>\<open>Server::isPrimaryServer\<close>\<close>
  rg_elect :: election

definition htons :: "int \<Rightarrow> int" where
  \<comment> \<open>what \<open>ntohs\<close> gives back for the stored port\<close>
  "htons port = port mod 65536"

text \<open>
  \<open>getNewPortFromFile\<close>: the next line, or the first one of the file opened again. An empty file
  leaves \<open>port\<close> empty, which \<open>stoi\<close> refuses.
\<close>

definition getNewPortFromFile :: "string list \<Rightarrow> nat \<Rightarrow> stoi_error + int \<times> nat" where
  "getNewPortFromFile ls pos =
     (let (port, pos') = (if pos < length ls then (ls ! pos, Suc pos)
                          else if ls = [] then ([], 0) else (ls ! 0, 1))
      in case stoi port of Inl err \<Rightarrow> Inl err | Inr portInt \<Rightarrow> Inr (portInt, pos'))"

definition ServersRing :: "string \<Rightarrow> ring \<Rightarrow> stoi_error + ring" where
  \<comment> \<open>\<open>mem\<close> is what the members the constructor does not write hold\<close>
  "ServersRing config mem =
     (let ls = getlines CHR 0x0A config in
      case getNewPortFromFile ls 0 of
        Inl err \<Rightarrow> Inl err
      | Inr (serverPort, pos) \<Rightarrow>
          Inr (mem\<lparr>rg_lines := ls, rg_pos := pos, rg_own_port := htons serverPort,
                   rg_primary := serverPort, rg_isPrimary := True, rg_disconnected := False,
                   rg_elect := Election\<rparr>))"

text \<open>
  The loop around \<open>bind\<close> in \<open>prepareServerConnection\<close>: \<open>free\<close> says which ports can be bound.
  It tries the next port of the file until one can, and does not end when none can.
\<close>

partial_function (option) bind_loop ::
    "(int \<Rightarrow> bool) \<Rightarrow> string list \<Rightarrow> nat \<Rightarrow> int \<Rightarrow> (stoi_error + int \<times> nat) option" where
  "bind_loop free ls pos port =
     (if free port then Some (Inr (port, pos))
      else case getNewPortFromFile ls pos of
             Inl err \<Rightarrow> Some (Inl err)
           | Inr (p, pos') \<Rightarrow> bind_loop free ls pos' (htons p))"

definition prepareServerConnection :: "(int \<Rightarrow> bool) \<Rightarrow> ring \<Rightarrow> (stoi_error + ring) option" where
  "prepareServerConnection free r = do {
     result \<leftarrow> bind_loop free (rg_lines r) (rg_pos r) (rg_own_port r);
     Some (case result of
        Inl err \<Rightarrow> Inl err
      | Inr (port, pos) \<Rightarrow>
          Inr (r\<lparr>rg_pos := pos, rg_own_port := port, rg_isPrimary := (port = rg_primary r),
                 rg_server_ID := port\<rparr>))
   }"

definition isServerPrimary :: "ring \<Rightarrow> bool" where
  "isServerPrimary r = rg_isPrimary r"

subsection \<open>Connecting to the next server\<close>

text \<open>
  One round of the loop in \<open>connectToServer\<close> after a failed \<open>connect\<close>, and the loop over the
  results of the successive calls: \<open>accepts\<close> says for each call which ports accept. When the
  list is used up the server is still trying, which is the result \<open>Connecting\<close>.
\<close>

definition connect_failed :: "ring \<Rightarrow> stoi_error + ring" where
  "connect_failed r =
     (if rg_disconnected r then
        (case getNewPortFromFile (rg_lines r) (rg_pos r) of
           Inl err \<Rightarrow> Inl err
         | Inr (port, pos) \<Rightarrow>
             (let r1 = r\<lparr>rg_next_port := htons port, rg_pos := pos\<rparr> in
              if htons port = rg_own_port r then
                (case getNewPortFromFile (rg_lines r) pos of
                   Inl err \<Rightarrow> Inl err
                 | Inr (port', pos') \<Rightarrow>
                     Inr (r1\<lparr>rg_primary := rg_server_ID r, rg_isPrimary := True,
                             rg_disconnected := False, rg_server_primary := True,
                             rg_next_port := htons port', rg_pos := pos'\<rparr>))
              else Inr r1))
      else Inr r)"

datatype connecting = Connected ring | Connecting ring | Port_Error stoi_error

fun connect_loop :: "(int \<Rightarrow> bool) list \<Rightarrow> ring \<Rightarrow> connecting" where
  "connect_loop [] r = Connecting r"
| "connect_loop (accepts # later) r =
     (if accepts (rg_next_port r) then Connected r
      else case connect_failed r of
             Inl err \<Rightarrow> Port_Error err
           | Inr r' \<Rightarrow> connect_loop later r')"

text \<open>The whole of \<open>connectToServer\<close>: the state after it has connected and what it sent.\<close>

definition connectToServer :: "env \<Rightarrow> (int \<Rightarrow> bool) list \<Rightarrow> ring \<Rightarrow> (connecting \<times> packet list) option" where
  "connectToServer e attempts r =
     (let canStartElection = (rg_next_port r = rg_primary r) in
      case getNewPortFromFile (rg_lines r) (rg_pos r) of
        Inl err \<Rightarrow> Some (Port_Error err, [])
      | Inr (port, pos) \<Rightarrow>
          (case connect_loop attempts (r\<lparr>rg_next_port := htons port, rg_pos := pos\<rparr>) of
             Connected r' \<Rightarrow> do {
               out \<leftarrow> (if rg_disconnected r' \<and> canStartElection
                      then startElection e (rg_server_ID r') else Some []);
               Some (Connected (r'\<lparr>rg_disconnected := False\<rparr>), out)
             }
           | other \<Rightarrow> Some (other, [])))"

definition connectionLost :: "ring \<Rightarrow> ring" where
  \<comment> \<open>the ends of \<open>checkIfConnectionFailed\<close> and of \<open>listenClientCommunication\<close>\<close>
  "connectionLost r = r\<lparr>rg_disconnected := True\<rparr>"

subsection \<open>Receiving an election message\<close>

definition listenClientCommunication :: "env \<Rightarrow> packet \<Rightarrow> ring \<Rightarrow> (stoi_error + ring \<times> packet list) option" where
  "listenClientCommunication e p r = do {
     text \<leftarrow> c_str (p_message p);
     result \<leftarrow> processElectionInfo e text (rg_server_ID r) (rg_elect r);
     Some (case result of
        Inl err \<Rightarrow> Inl err
      | Inr (newPrimary, el, out) \<Rightarrow>
          (let r1 = r\<lparr>rg_elect := el\<rparr> in
           if newPrimary \<noteq> 0 then
             (let r2 = r1\<lparr>rg_primary := newPrimary\<rparr> in
              Inr (if newPrimary = rg_server_ID r
                   then r2\<lparr>rg_isPrimary := True, rg_server_primary := True\<rparr> else r2, out))
           else Inr (r1, out)))
   }"

subsection \<open>The ports come round\<close>

definition port_at :: "string list \<Rightarrow> nat \<Rightarrow> stoi_error + int" where
  "port_at ls k = stoi (ls ! (k mod length ls))"

lemma getNewPort_cyclic:
  assumes "ls \<noteq> []" and "port_at ls pos = Inr p" and "pos \<le> length ls"
  shows "getNewPortFromFile ls pos = Inr (p, pos mod length ls + 1)"
  using assms by (cases "pos < length ls") (auto simp: getNewPortFromFile_def port_at_def)

definition ports_ok :: "string list \<Rightarrow> int list \<Rightarrow> bool" where
  "ports_ok ls ps \<longleftrightarrow> ls \<noteq> [] \<and> map stoi ls = map Inr ps \<and> (\<forall>p\<in>set ps. 0 \<le> p \<and> p < 65536)"

lemma ports_okD:
  assumes "ports_ok ls ps"
  shows "length ls = length ps" "ps \<noteq> []" "\<And>i. i < length ps \<Longrightarrow> stoi (ls ! i) = Inr (ps ! i)"
    "\<And>i. i < length ps \<Longrightarrow> htons (ps ! i) = ps ! i"
proof -
  have m: "map stoi ls = map Inr ps" and ne: "ls \<noteq> []" using assms by (simp_all add: ports_ok_def)
  show len: "length ls = length ps" using map_eq_imp_length_eq [OF m] .
  show "ps \<noteq> []" using len ne by auto
  show "stoi (ls ! i) = Inr (ps ! i)" if "i < length ps" for i
    using m that len by (metis nth_map)
  show "htons (ps ! i) = ps ! i" if "i < length ps" for i
    using assms that by (simp add: ports_ok_def htons_def)
qed

text \<open>Reading position \<open>pos\<close>, any number of times past the end, goes through the list cyclically.\<close>

lemma getNewPort_ports:
  assumes "ports_ok ls ps" and "pos \<le> length ps"
  shows "getNewPortFromFile ls pos = Inr (ps ! (pos mod length ps), pos mod length ps + 1)"
proof -
  note d = ports_okD [OF assms(1)]
  have "ls \<noteq> []" using assms(1) by (simp add: ports_ok_def)
  moreover have "pos mod length ps < length ps" using d(2) by simp
  then have "port_at ls pos = Inr (ps ! (pos mod length ps))" using d(1,3) by (simp add: port_at_def)
  ultimately show ?thesis using getNewPort_cyclic [of ls pos] assms(2) d(1) by simp
qed

fun read_ports :: "nat \<Rightarrow> string list \<Rightarrow> nat \<Rightarrow> stoi_error + int list" where
  \<comment> \<open>the results of \<open>k\<close> successive calls\<close>
  "read_ports 0 ls pos = Inr []"
| "read_ports (Suc k) ls pos =
     (case getNewPortFromFile ls pos of Inl err \<Rightarrow> Inl err
      | Inr (p, pos') \<Rightarrow> (case read_ports k ls pos' of Inl err \<Rightarrow> Inl err | Inr ps \<Rightarrow> Inr (p # ps)))"

lemma read_ports_cyclic:
  assumes "ports_ok ls ps" and "pos \<le> length ps"
  shows "read_ports k ls pos = Inr (map (\<lambda>j. ps ! ((pos + j) mod length ps)) [0..<k])"
  using assms(2)
proof (induction k arbitrary: pos)
  case 0
  then show ?case by simp
next
  case (Suc k)
  let ?n = "length ps"
  have n: "0 < ?n" using ports_okD(2) [OF assms(1)] by simp
  have le: "pos mod ?n + 1 \<le> ?n" using n by (simp add: Suc_leI)
  have "read_ports k ls (pos mod ?n + 1) = Inr (map (\<lambda>j. ps ! ((pos mod ?n + 1 + j) mod ?n)) [0..<k])"
    by (rule Suc.IH [OF le])
  moreover have "(pos mod ?n + 1 + j) mod ?n = (pos + Suc j) mod ?n" for j
    by (metis add.assoc add.commute mod_add_left_eq plus_1_eq_Suc)
  moreover have "map (\<lambda>j. ps ! ((pos + j) mod ?n)) [0..<Suc k] =
      ps ! (pos mod ?n) # map (\<lambda>j. ps ! ((pos + Suc j) mod ?n)) [0..<k]"
    by (simp add: upt_conv_Cons map_Suc_upt [symmetric] del: upt_Suc map_Suc_upt)
  ultimately show ?case
    using getNewPort_ports [OF assms(1) Suc.prems] by simp
qed

lemma getNewPort_mod:
  assumes "ports_ok ls ps"
  shows "getNewPortFromFile ls (i mod length ps + 1) =
    Inr (ps ! (Suc i mod length ps), Suc i mod length ps + 1)"
proof -
  have n: "0 < length ps" using ports_okD(2) [OF assms] by simp
  have "i mod length ps + 1 \<le> length ps" using n by (simp add: Suc_leI)
  moreover have "(i mod length ps + 1) mod length ps = Suc i mod length ps"
    by (simp add: mod_Suc_eq)
  ultimately show ?thesis using getNewPort_ports [OF assms, of "i mod length ps + 1"] by simp
qed

subsection \<open>The port a server takes\<close>

lemma bind_loop_finds:
  assumes "ports_ok ls ps" and "free (ps ! ((i + d) mod length ps))"
    and "\<forall>c<d. \<not> free (ps ! ((i + c) mod length ps))"
  shows "bind_loop free ls (i mod length ps + 1) (ps ! (i mod length ps)) =
    Some (Inr (ps ! ((i + d) mod length ps), (i + d) mod length ps + 1))"
  using assms(2,3)
proof (induction d arbitrary: i)
  case 0
  then show ?case by (subst bind_loop.simps) simp
next
  case (Suc d)
  have n: "0 < length ps" using ports_okD(2) [OF assms(1)] by simp
  have "\<not> free (ps ! (i mod length ps))" using Suc.prems(2) by force
  moreover have "htons (ps ! (Suc i mod length ps)) = ps ! (Suc i mod length ps)"
    using ports_okD(4) [OF assms(1)] n by simp
  moreover have "bind_loop free ls (Suc i mod length ps + 1) (ps ! (Suc i mod length ps)) =
      Some (Inr (ps ! ((Suc i + d) mod length ps), (Suc i + d) mod length ps + 1))"
  proof (rule Suc.IH)
    show "free (ps ! ((Suc i + d) mod length ps))" using Suc.prems(1) by simp
    show "\<forall>c<d. \<not> free (ps ! ((Suc i + c) mod length ps))"
      using Suc.prems(2) by (metis add_Suc_shift Suc_mono)
  qed
  ultimately show ?case
    using getNewPort_mod [OF assms(1)] by (subst bind_loop.simps) simp
qed

lemma bind_loop_result:
  assumes "bind_loop free ls pos port = Some res" and "ports_ok ls ps" and "pos \<le> length ps"
  shows "\<exists>q pos'. res = Inr (q, pos') \<and> free q"
proof -
  have "\<forall>ps. ports_ok ls ps \<longrightarrow> pos \<le> length ps \<longrightarrow> (\<exists>q pos'. res = Inr (q, pos') \<and> free q)"
  proof (rule bind_loop.raw_induct [OF _ assms(1), where P = "\<lambda>free ls pos port res.
      \<forall>ps. ports_ok ls ps \<longrightarrow> pos \<le> length ps \<longrightarrow> (\<exists>q pos'. res = Inr (q, pos') \<and> free q)"], intro allI impI)
    fix bind_loop and free :: "int \<Rightarrow> bool" and ls and pos and port and res and ps :: "int list"
    assume IH: "\<And>free ls pos port res. bind_loop free ls pos port = Some res \<Longrightarrow>
        \<forall>ps. ports_ok ls ps \<longrightarrow> pos \<le> length ps \<longrightarrow> (\<exists>q pos'. res = Inr (q, pos') \<and> free q)"
      and step: "(if free port then Some (Inr (port, pos))
        else case getNewPortFromFile ls pos of
             Inl err \<Rightarrow> Some (Inl err)
           | Inr (p, pos') \<Rightarrow> bind_loop free ls pos' (htons p)) = Some res"
      and ok: "ports_ok ls ps" and pos: "pos \<le> length ps"
    have n: "0 < length ps" using ports_okD(2) [OF ok] by simp
    show "\<exists>q pos'. res = Inr (q, pos') \<and> free q"
    proof (cases "free port")
      case True
      then show ?thesis using step by auto
    next
      case False
      then have "bind_loop free ls (pos mod length ps + 1) (htons (ps ! (pos mod length ps))) = Some res"
        using step getNewPort_ports [OF ok pos] by simp
      moreover have "pos mod length ps + 1 \<le> length ps" using n by (simp add: Suc_leI)
      ultimately show ?thesis using IH ok by blast
    qed
  qed
  then show ?thesis using assms(2,3) by blast
qed

lemma ServersRing_ports:
  assumes "ports_ok (getlines CHR 0x0A config) ps"
  shows "ServersRing config mem = Inr (mem\<lparr>rg_lines := getlines CHR 0x0A config, rg_pos := 1,
    rg_own_port := ps ! 0, rg_primary := ps ! 0, rg_isPrimary := True, rg_disconnected := False,
    rg_elect := Election\<rparr>)"
proof -
  have n: "0 < length ps" using ports_okD(2) [OF assms] by simp
  then show ?thesis
    using getNewPort_ports [OF assms, of 0] ports_okD(4) [OF assms n]
    by (simp add: ServersRing_def Let_def)
qed

text \<open>The loop ends exactly when some port of the file is free, with the first such port.\<close>

lemma prepareServerConnection_first_free:
  assumes ok: "ports_ok (getlines CHR 0x0A config) ps" and r: "ServersRing config mem = Inr r"
    and d: "d < length ps" "free (ps ! d)" "\<forall>c<d. \<not> free (ps ! c)"
  shows "prepareServerConnection free r = Some (Inr (r\<lparr>rg_pos := d + 1, rg_own_port := ps ! d,
    rg_isPrimary := (ps ! d = ps ! 0), rg_server_ID := ps ! d\<rparr>))"
proof -
  have dm: "(0 + d) mod length ps = d" using d(1) by simp
  have "\<forall>c<d. \<not> free (ps ! ((0 + c) mod length ps))" using d by simp
  moreover have "free (ps ! ((0 + d) mod length ps))" using d dm by simp
  ultimately have "bind_loop free (getlines CHR 0x0A config) (0 mod length ps + 1) (ps ! (0 mod length ps)) =
      Some (Inr (ps ! ((0 + d) mod length ps), (0 + d) mod length ps + 1))"
    using bind_loop_finds [OF ok, of free 0 d] by blast
  then show ?thesis
    using r ServersRing_ports [OF ok, of mem] dm
    by (auto simp: prepareServerConnection_def)
qed

lemma prepareServerConnection_none_free:
  assumes ok: "ports_ok (getlines CHR 0x0A config) ps" and r: "ServersRing config mem = Inr r"
    and none: "\<forall>p. \<not> free p"
  shows "prepareServerConnection free r = None"
proof -
  have "1 \<le> length ps" using ports_okD(2) [OF ok] by (simp add: Suc_leI)
  then have "bind_loop free (rg_lines r) (rg_pos r) (rg_own_port r) = None"
    using bind_loop_result [of free "rg_lines r" "rg_pos r" "rg_own_port r" _ ps] none ok r
      ServersRing_ports [OF ok, of mem]
    by (cases "bind_loop free (rg_lines r) (rg_pos r) (rg_own_port r)") auto
  then show ?thesis by (simp add: prepareServerConnection_def)
qed

subsection \<open>Alone in the ring\<close>

definition ring_alone :: "ring \<Rightarrow> bool" where
  "ring_alone r \<longleftrightarrow> rg_isPrimary r \<and> rg_server_primary r \<and> rg_primary r = rg_server_ID r \<and>
     \<not> rg_disconnected r"

lemma connect_loop_waits:
  "\<not> rg_disconnected r \<Longrightarrow> \<forall>accepts\<in>set attempts. \<not> accepts (rg_next_port r) \<Longrightarrow>
   connect_loop attempts r = Connecting r"
  by (induction attempts) (auto simp: connect_failed_def)

lemma connect_loop_alone:
  assumes ok: "ports_ok ls ps" and "ps ! ((i + Suc d) mod length ps) = own"
    and "\<forall>c\<le>d. c \<noteq> 0 \<longrightarrow> ps ! ((i + c) mod length ps) \<noteq> own"
    and "rg_lines r = ls" "rg_pos r = i mod length ps + 1" "rg_own_port r = own" "rg_disconnected r"
    and "Suc d \<le> length attempts" and "\<forall>accepts\<in>set attempts. \<forall>p. \<not> accepts p"
  shows "\<exists>r'. connect_loop attempts r = Connecting r' \<and> ring_alone r' \<and> rg_server_ID r' = rg_server_ID r"
  using assms(2-)
proof (induction d arbitrary: i r attempts)
  case 0
  then obtain a later where att: "attempts = a # later" by (cases attempts) auto
  have n: "0 < length ps" using ports_okD(2) [OF ok] by simp
  have h: "htons (ps ! (k mod length ps)) = ps ! (k mod length ps)" for k
    using ports_okD(4) [OF ok] n by simp
  obtain r' where r': "connect_failed r = Inr r'" "ring_alone r'" "rg_server_ID r' = rg_server_ID r"
    using 0 getNewPort_mod [OF ok, of i] getNewPort_mod [OF ok, of "Suc i"] h
    by (auto simp: connect_failed_def Let_def ring_alone_def)
  have "connect_loop later r' = Connecting r'"
    using 0(8) att r'(2) by (intro connect_loop_waits) (auto simp: ring_alone_def)
  then show ?case using r' 0(8) att by (intro exI [of _ r']) simp
next
  case (Suc d)
  then obtain a later where att: "attempts = a # later" by (cases attempts) auto
  have n: "0 < length ps" using ports_okD(2) [OF ok] by simp
  have h: "htons (ps ! (Suc i mod length ps)) = ps ! (Suc i mod length ps)"
    using ports_okD(4) [OF ok] n by simp
  let ?r = "r\<lparr>rg_next_port := ps ! (Suc i mod length ps), rg_pos := Suc i mod length ps + 1\<rparr>"
  have "1 \<le> Suc d" by simp
  then have "ps ! ((i + 1) mod length ps) \<noteq> own" using Suc.prems(2) by blast
  then have step: "connect_failed r = Inr ?r"
    using Suc.prems getNewPort_mod [OF ok, of i] h by (simp add: connect_failed_def)
  have "\<exists>r'. connect_loop later ?r = Connecting r' \<and> ring_alone r' \<and> rg_server_ID r' = rg_server_ID ?r"
  proof (rule Suc.IH)
    show "ps ! ((Suc i + Suc d) mod length ps) = own" using Suc.prems(1) by simp
    show "\<forall>c\<le>d. c \<noteq> 0 \<longrightarrow> ps ! ((Suc i + c) mod length ps) \<noteq> own"
      using Suc.prems(2) by (metis Suc_le_mono add_Suc_shift nat.distinct(1))
    show "rg_lines ?r = ls" "rg_pos ?r = Suc i mod length ps + 1" "rg_own_port ?r = own" "rg_disconnected ?r"
      using Suc.prems by simp_all
    show "Suc d \<le> length later" using Suc.prems(7) att by simp
    show "\<forall>accepts\<in>set later. \<forall>p. \<not> accepts p" using Suc.prems(8) att by auto
  qed
  then show ?case using step Suc.prems(8) att by auto
qed

end
