(* ===== verification/Ring_Election.thy ===== *)
theory Ring_Election
  imports Ring
begin

section \<open>An election around the ring\<close>

text \<open>
  Every server listens to the server before it and writes to the server after it. The ring is a
  list with the server about to receive at its head; a hop hands the packet on the wire to it and
  moves it to the end, so that the next server is the head. Each server's part is
  \<open>listenClientCommunication\<close> (theory \<open>Ring\<close>), with its own storage and time in the \<open>env\<close> of
  the hop. The run ends when no packet is on the wire.
\<close>

fun ring_hops :: "env list \<Rightarrow> ring list \<times> packet list \<Rightarrow> (stoi_error + ring list \<times> packet list) option" where
  "ring_hops [] st = Some (Inr st)"
| "ring_hops (e # es) (servers, []) = Some (Inr (servers, []))"
| "ring_hops (e # es) ([], wire) = Some (Inr ([], wire))"
| "ring_hops (e # es) (r # servers, p # wire) = do {
     result \<leftarrow> listenClientCommunication e p r;
     (case result of
        Inl err \<Rightarrow> Some (Inl err)
      | Inr (r', out) \<Rightarrow> ring_hops es (servers @ [r'], wire @ out))
   }"

definition server_ids_ok :: "ring list \<Rightarrow> bool" where
  "server_ids_ok servers \<longleftrightarrow> distinct (map rg_server_ID servers) \<and>
     (\<forall>r\<in>set servers. 0 < rg_server_ID r \<and> int_range (rg_server_ID r))"

subsection \<open>The three phases\<close>

text \<open>What a server becomes in each phase of an election won by \<open>M\<close>.\<close>

definition joined :: "ring \<Rightarrow> ring" where
  "joined r = r\<lparr>rg_elect := (rg_elect r)\<lparr>el_isParticipating := True\<rparr>\<rparr>"

definition settled :: "int \<Rightarrow> ring \<Rightarrow> ring" where
  "settled M r =
     (let r' = r\<lparr>rg_elect := (rg_elect r)\<lparr>el_isParticipating := False\<rparr>, rg_primary := M\<rparr>
      in if rg_server_ID r = M then r'\<lparr>rg_isPrimary := True, rg_server_primary := True\<rparr> else r')"

abbreviation participates :: "ring \<Rightarrow> bool" where
  "participates r \<equiv> el_isParticipating (rg_elect r)"

lemma joined_simps [simp]:
  "rg_server_ID (joined r) = rg_server_ID r" "participates (joined r)"
  by (simp_all add: joined_def)

lemma settled_joined: "settled M (joined r) = settled M r"
  by (simp add: settled_def joined_def Let_def)

lemma server_receives:
  assumes e: "env_ok e" and i: "int_range i" "int_range (rg_server_ID r)" and st: "status_word status"
    and p: "carries p status i"
  shows "\<exists>out. listenClientCommunication e p r = Some (Inr (
      (if participates r \<and> status = ''ELECTED'' then (if i \<noteq> 0 then settled i r else r\<lparr>rg_elect := (rg_elect r)\<lparr>el_isParticipating := False\<rparr>\<rparr>) else joined r), out)) \<and>
    (case snd (snd (decide status i (rg_server_ID r) (participates r))) of
       None \<Rightarrow> out = [] | Some (st', j) \<Rightarrow> \<exists>q. out = [q] \<and> carries q st' j)"
proof -
  obtain out where out: "processElectionInfo e (status @ '' '' @ to_string i) (rg_server_ID r) (rg_elect r) =
      Some (Inr (fst (decide status i (rg_server_ID r) (participates r)),
        (rg_elect r)\<lparr>el_isParticipating := fst (snd (decide status i (rg_server_ID r) (participates r)))\<rparr>, out))"
    and sent: "case snd (snd (decide status i (rg_server_ID r) (participates r))) of
       None \<Rightarrow> out = [] | Some (st', j) \<Rightarrow> \<exists>q. out = [q] \<and> carries q st' j \<and> packet_sized q"
    using processElectionInfo_decide [OF e i st, of "rg_elect r"] by blast
  have tx: "c_str (p_message p) = Some (status @ '' '' @ to_string i)" using p by (simp add: carries_def)
  have same: "participates r \<Longrightarrow> (rg_elect r)\<lparr>el_isParticipating := True\<rparr> = rg_elect r"
    by (cases "rg_elect r") simp
  have ne: "''ELECTED'' \<noteq> ''ELECTION''" by simp
  have "listenClientCommunication e p r = Some (Inr (
      (if participates r \<and> status = ''ELECTED'' then (if i \<noteq> 0 then settled i r else r\<lparr>rg_elect := (rg_elect r)\<lparr>el_isParticipating := False\<rparr>\<rparr>) else joined r), out))"
    unfolding listenClientCommunication_def tx bind.bind_lunit out
    using st by (auto simp: decide_def status_word_def settled_def joined_def Let_def same)
  then show ?thesis using sent by (auto split: option.splits)
qed

text \<open>First lap: no server participates yet, and the largest identifier so far is passed on.\<close>

lemma joining_lap:
  assumes "\<forall>r\<in>set xs. \<not> participates r \<and> int_range (rg_server_ID r)" and "int_range i"
    and "carries p ''ELECTION'' i" and "length xs = length es" and "\<forall>e\<in>set es. env_ok e"
  shows "\<exists>q. ring_hops (es @ fs) (xs @ ys, [p]) = ring_hops fs (ys @ map joined xs, [q]) \<and>
    carries q ''ELECTION'' (foldl max i (map rg_server_ID xs)) \<and>
    int_range (foldl max i (map rg_server_ID xs))"
  using assms
proof (induction xs arbitrary: i p es ys)
  case Nil
  then show ?case by auto
next
  case (Cons r xs)
  obtain e es' where es: "es = e # es'" using Cons.prems(4) by (cases es) auto
  have ir: "int_range (rg_server_ID r)" and np: "\<not> participates r" and eok: "env_ok e"
    using Cons.prems(1,5) es by simp_all
  obtain q where q: "listenClientCommunication e p r = Some (Inr (joined r, [q]))"
      "carries q ''ELECTION'' (max i (rg_server_ID r))"
    using server_receives [OF eok Cons.prems(2) ir _ Cons.prems(3)] np
    by (auto simp: status_word_def decide_def)
  have mr: "int_range (max i (rg_server_ID r))" using ir Cons.prems(2) by (auto simp: max_def)
  obtain q' where "ring_hops (es' @ fs) (xs @ ys @ [joined r], [q]) =
      ring_hops fs ((ys @ [joined r]) @ map joined xs, [q'])"
      "carries q' ''ELECTION'' (foldl max (max i (rg_server_ID r)) (map rg_server_ID xs))"
      "int_range (foldl max (max i (rg_server_ID r)) (map rg_server_ID xs))"
    using Cons.IH [OF _ mr q(2), of es' "ys @ [joined r]"] Cons.prems(1,4,5) es by auto
  then show ?case using q(1) by (auto simp: es)
qed

text \<open>Second lap: the winner's identifier passes the other participants unchanged.\<close>

lemma passing_lap:
  assumes "\<forall>r\<in>set xs. participates r \<and> int_range (rg_server_ID r) \<and> rg_server_ID r \<noteq> M"
    and "int_range M" and "carries p ''ELECTION'' M"
    and "length xs = length es" and "\<forall>e\<in>set es. env_ok e"
  shows "\<exists>q. ring_hops (es @ fs) (xs @ ys, [p]) = ring_hops fs (ys @ map joined xs, [q]) \<and>
    carries q ''ELECTION'' M"
  using assms
proof (induction xs arbitrary: p es ys)
  case Nil
  then show ?case by auto
next
  case (Cons r xs)
  obtain e es' where es: "es = e # es'" using Cons.prems(4) by (cases es) auto
  have ir: "int_range (rg_server_ID r)" "participates r" "rg_server_ID r \<noteq> M" and eok: "env_ok e"
    using Cons.prems(1,5) es by simp_all
  obtain q where q: "listenClientCommunication e p r = Some (Inr (joined r, [q]))"
      "carries q ''ELECTION'' M"
    using server_receives [OF eok Cons.prems(2) ir(1) _ Cons.prems(3)] ir
    by (auto simp: status_word_def decide_def)
  obtain q' where "ring_hops (es' @ fs) (xs @ ys @ [joined r], [q]) =
      ring_hops fs ((ys @ [joined r]) @ map joined xs, [q'])" "carries q' ''ELECTION'' M"
    using Cons.IH [OF _ Cons.prems(2) q(2), of es' "ys @ [joined r]"] Cons.prems(1,4,5) es by auto
  then show ?case using q(1) by (auto simp: es)
qed

text \<open>Third lap: the result settles every participant it passes.\<close>

lemma settling_lap:
  assumes "\<forall>r\<in>set xs. participates r \<and> int_range (rg_server_ID r) \<and> rg_server_ID r \<noteq> M"
    and "int_range M" and "M \<noteq> 0" and "carries p ''ELECTED'' M"
    and "length xs = length es" and "\<forall>e\<in>set es. env_ok e"
  shows "\<exists>q. ring_hops (es @ fs) (xs @ ys, [p]) = ring_hops fs (ys @ map (settled M) xs, [q]) \<and>
    carries q ''ELECTED'' M"
  using assms
proof (induction xs arbitrary: p es ys)
  case Nil
  then show ?case by auto
next
  case (Cons r xs)
  obtain e es' where es: "es = e # es'" using Cons.prems(5) by (cases es) auto
  have ir: "int_range (rg_server_ID r)" "participates r" "rg_server_ID r \<noteq> M" and eok: "env_ok e"
    using Cons.prems(1,6) es by simp_all
  obtain q where q: "listenClientCommunication e p r = Some (Inr (settled M r, [q]))"
      "carries q ''ELECTED'' M"
    using server_receives [OF eok Cons.prems(2) ir(1) _ Cons.prems(4)] ir Cons.prems(3)
    by (auto simp: status_word_def decide_def)
  obtain q' where "ring_hops (es' @ fs) (xs @ ys @ [settled M r], [q]) =
      ring_hops fs ((ys @ [settled M r]) @ map (settled M) xs, [q'])" "carries q' ''ELECTED'' M"
    using Cons.IH [OF _ Cons.prems(2,3) q(2), of es' "ys @ [settled M r]"] Cons.prems(1,5,6) es by auto
  then show ?case using q(1) by (auto simp: es)
qed

subsection \<open>The election ends, and everyone agrees\<close>

lemma ring_hops_quiet [simp]: "ring_hops es (servers, []) = Some (Inr (servers, []))"
  by (cases es) auto

lemma foldl_max: "foldl max (i::int) xs = Max (insert i (set xs))"
proof (induction xs arbitrary: i)
  case Nil
  then show ?case by simp
next
  case (Cons a xs)
  have "Max (insert (max i a) (set xs)) = Max (insert i (insert a (set xs)))"
    by (cases "xs = []") (simp_all add: max.assoc)
  with Cons show ?case by simp
qed

definition winner :: "ring list \<Rightarrow> int" where
  "winner servers = Max (set (map rg_server_ID servers))"

lemma winner_split:
  assumes ok: "server_ids_ok servers" and ne: "servers \<noteq> []"
  obtains A m B where "servers = A @ m # B" "rg_server_ID m = winner servers"
    "\<forall>r\<in>set A \<union> set B. rg_server_ID r \<noteq> winner servers"
proof -
  have "winner servers \<in> set (map rg_server_ID servers)"
    unfolding winner_def using ne by (intro Max_in) auto
  then obtain m where m: "m \<in> set servers" "rg_server_ID m = winner servers" by auto
  then obtain A B where s: "servers = A @ m # B" by (meson split_list)
  have "distinct (map rg_server_ID servers)" using ok by (simp add: server_ids_ok_def)
  then have "\<forall>r\<in>set A \<union> set B. rg_server_ID r \<noteq> rg_server_ID m" by (force simp: s image_iff)
  then show ?thesis using that [OF s m(2)] m(2) by simp
qed

lemma election_completes:
  assumes ok: "server_ids_ok servers" and ne: "servers \<noteq> []"
    and np: "\<forall>r\<in>set servers. \<not> participates r"
    and e0: "env_ok e0" and start: "startElection e0 (rg_server_ID (last servers)) = Some wire"
    and es: "\<forall>e\<in>set es. env_ok e" "3 * length servers \<le> length es"
  shows "\<exists>k. ring_hops es (servers, wire) =
    Some (Inr (rotate k (map (settled (winner servers)) servers), []))"
proof -
  let ?M = "winner servers"
  let ?n = "length servers"
  have ids: "\<forall>r\<in>set servers. 0 < rg_server_ID r \<and> int_range (rg_server_ID r)"
    using ok by (simp add: server_ids_ok_def)
  have lst: "last servers \<in> set servers" using ne by simp
  obtain p where p: "wire = [p]" "carries p ''ELECTION'' (rg_server_ID (last servers))"
    using election_buildPacket_carries [OF e0, of "rg_server_ID (last servers)" "''ELECTION''"] start ids lst
    by (auto simp: startElection_def sendMessageToNextServer_def status_word_def)
  obtain A m B where sp: "servers = A @ m # B" and m: "rg_server_ID m = ?M"
    and other: "\<forall>r\<in>set A \<union> set B. rg_server_ID r \<noteq> ?M"
    using winner_split [OF ok ne] by blast
  have M: "int_range ?M" "?M \<noteq> 0" using ids m by (auto simp: sp)
  obtain e1 e2 ea e3 eb rest where split: "es = e1 @ e2 @ [ea] @ e3 @ [eb] @ rest"
    and len: "length e1 = ?n" "length e2 = length A" "length e3 = length (B @ A)"
  proof -
    let ?r1 = "drop ?n es"
    let ?r2 = "drop (length A) ?r1"
    have l: "length A + length B + 1 = ?n" by (simp add: sp)
    have "length ?r2 \<ge> Suc (Suc (length (B @ A)))" using es(2) l by simp
    then obtain ea r3 where r2: "?r2 = ea # r3" "Suc (length (B @ A)) \<le> length r3"
      unfolding Suc_le_length_iff [of "Suc (length (B @ A))"] by blast
    then have "drop (length (B @ A)) r3 \<noteq> []" by simp
    then obtain eb rest where r3: "drop (length (B @ A)) r3 = eb # rest"
      by (cases "drop (length (B @ A)) r3") auto
    have "es = take ?n es @ take (length A) ?r1 @ [ea] @ take (length (B @ A)) r3 @ [eb] @ rest"
      using r2(1) r3 by (metis append_Cons append_Nil append_take_drop_id)
    moreover have "length (take ?n es) = ?n" "length (take (length A) ?r1) = length A"
        "length (take (length (B @ A)) r3) = length (B @ A)"
      using es(2) l r2(2) by simp_all
    ultimately show ?thesis using that by blast
  qed
  have envs: "\<forall>e\<in>set e1. env_ok e" "\<forall>e\<in>set e2. env_ok e" "env_ok ea" "\<forall>e\<in>set e3. env_ok e" "env_ok eb"
    using es(1) by (auto simp: split)
  have "foldl max (rg_server_ID (last servers)) (map rg_server_ID servers) = ?M"
    unfolding foldl_max winner_def using lst by (simp add: insert_absorb)
  then obtain q1 where q1: "ring_hops es (servers, wire) =
      ring_hops (e2 @ [ea] @ e3 @ [eb] @ rest) (map joined servers, [q1])" "carries q1 ''ELECTION'' ?M"
    using joining_lap [of servers "rg_server_ID (last servers)" p e1 "e2 @ [ea] @ e3 @ [eb] @ rest" "[]"]
      np ids lst p len(1) envs(1) by (auto simp: split)
  have js: "map joined servers = map joined A @ joined m # map joined B" by (simp add: sp)
  obtain q2 where q2: "ring_hops (e2 @ [ea] @ e3 @ [eb] @ rest) (map joined servers, [q1]) =
      ring_hops ([ea] @ e3 @ [eb] @ rest) ((joined m # map joined B) @ map joined (map joined A), [q2])"
      "carries q2 ''ELECTION'' ?M"
    using passing_lap [of "map joined A" ?M q1 e2 "[ea] @ e3 @ [eb] @ rest" "joined m # map joined B"]
      q1(2) M(1) len(2) envs(2) ids other unfolding js by (auto simp: sp)
  have mi: "int_range (rg_server_ID (joined m))" using M(1) m by simp
  obtain q3 where q3: "listenClientCommunication ea q2 (joined m) = Some (Inr (joined (joined m), [q3]))"
      "carries q3 ''ELECTED'' ?M"
    using server_receives [OF envs(3) M(1) mi _ q2(2)] m by (auto simp: status_word_def decide_def)
  let ?BA = "map joined B @ map joined (map joined A)"
  have BA: "\<forall>r\<in>set ?BA. participates r \<and> int_range (rg_server_ID r) \<and> rg_server_ID r \<noteq> ?M"
    using ids other by (auto simp: sp)
  have l3: "length ?BA = length e3" using len(3) by simp
  obtain q4 where q4: "ring_hops (e3 @ [eb] @ rest) (?BA @ [joined (joined m)], [q3]) =
      ring_hops ([eb] @ rest) ([joined (joined m)] @ map (settled ?M) ?BA, [q4])" "carries q4 ''ELECTED'' ?M"
    using settling_lap [OF BA M q3(2) l3 envs(4)] by blast
  have q5: "listenClientCommunication eb q4 (joined (joined m)) = Some (Inr (settled ?M (joined (joined m)), []))"
    using server_receives [OF envs(5) M(1) _ _ q4(2), of "joined (joined m)"] m M
    by (auto simp: status_word_def decide_def)
  have final: "map (settled ?M) ?BA @ [settled ?M (joined (joined m))] =
      map (settled ?M) (B @ A @ [m])"
    by (simp add: settled_joined)
  have "ring_hops es (servers, wire) = Some (Inr (map (settled ?M) (B @ A @ [m]), []))"
    using q1(1) q2(1) q3(1) q4(1) q5 final by simp
  moreover have "rotate (length (A @ [m])) ((A @ [m]) @ B) = B @ (A @ [m])"
    by (rule rotate_append)
  then have "rotate (length (A @ [m])) (map (settled ?M) servers) = map (settled ?M) (B @ A @ [m])"
    unfolding sp rotate_map by simp
  ultimately show ?thesis by metis
qed

lemma settled_agree:
  "rg_primary (settled M r) = M \<and> \<not> participates (settled M r) \<and> rg_server_ID (settled M r) = rg_server_ID r \<and>
   rg_isPrimary (settled M r) = (rg_isPrimary r \<or> rg_server_ID r = M)"
  by (auto simp: settled_def Let_def)

end
