(* ===== verification/Listening.thy ===== *)
theory Listening
  imports Server_State Ring
begin

section \<open>Opening the listening sockets\<close>

text \<open>
  The set-up of the sockets on which the programs accept connections: \<open>prepareSocketConnection\<close>
  of the front end, \<open>createRMListenerSocket\<close> of the server and the part around the \<open>bind\<close> loop
  in the ring's \<open>prepareServerConnection\<close>. The results of \<open>socket\<close>, \<open>setsockopt\<close>, \<open>bind\<close> and
  \<open>listen\<close> are arguments; every failure ends the process with code 1, and the value says
  after which call.
\<close>

record socket_calls =
  sc_socket :: socket
  sc_setsockopt :: int
  sc_bind :: int
  sc_listen :: int

datatype setup_exit = Address | Opening | Options | Binding | Listening_Failed

definition prepareSocketConnection :: "socket_calls \<Rightarrow> setup_exit + socket" where
  "prepareSocketConnection c =
     (if sc_socket c \<le> 0 then Inl Opening
      else if sc_setsockopt c \<noteq> 0 then Inl Options
      else if sc_bind c < 0 then Inl Binding
      else if sc_listen c < 0 then Inl Listening_Failed
      else Inr (sc_socket c))"

text \<open>The two sockets of a front end, the server's first.\<close>

definition prepareConnection :: "socket_calls \<Rightarrow> socket_calls \<Rightarrow> setup_exit + socket \<times> socket" where
  "prepareConnection server clients =
     (case prepareSocketConnection server of
        Inl err \<Rightarrow> Inl err
      | Inr connections_server_socket_fd \<Rightarrow>
          (case prepareSocketConnection clients of
             Inl err \<Rightarrow> Inl err
           | Inr clients_socket_fd \<Rightarrow> Inr (connections_server_socket_fd, clients_socket_fd)))"

definition createRMListenerSocket :: "socket_calls \<Rightarrow> server \<Rightarrow> setup_exit + socket \<times> int" where
  \<comment> \<open>the socket and the port it is bound to, as the network order holds it\<close>
  "createRMListenerSocket c s =
     (let port = htons (rmListeningPort s) in
      if sc_socket c \<le> 0 then Inl Opening
      else if sc_setsockopt c \<noteq> 0 then Inl Options
      else if sc_bind c < 0 then Inl Binding
      else if sc_listen c < 0 then Inl Listening_Failed
      else Inr (sc_socket c, port))"

text \<open>
  The set-up of replication: the machines with higher numbers are connected to, and all machines
  but number 0 (or lower) then listen. The ports tried, and the listening socket with its port.
\<close>

definition prepareReplicationManager ::
    "(int \<Rightarrow> socket option) \<Rightarrow> socket_calls \<Rightarrow> int \<Rightarrow> server \<Rightarrow>
     setup_exit + server \<times> int list \<times> (socket \<times> int) option" where
  "prepareReplicationManager attempt c rmNumber s =
     (let (s', tried) = connectToRmServers attempt (setRmNumber rmNumber s)
      in if s_rmNumber s' > 0 then
           (case createRMListenerSocket c s' of
              Inl failed \<Rightarrow> Inl failed
            | Inr listener \<Rightarrow> Inr (s', tried, Some listener))
         else Inr (s', tried, None))"

text \<open>
  The ring's listener: \<open>free\<close> says which ports can be bound. \<open>None\<close> when none can.
\<close>

definition ring_listener :: "socket \<Rightarrow> int \<Rightarrow> (int \<Rightarrow> bool) \<Rightarrow> ring \<Rightarrow> (setup_exit + stoi_error + ring) option" where
  "ring_listener socket_server listened free r =
     (if socket_server \<le> 0 then Some (Inl Opening)
      else do {
        result \<leftarrow> prepareServerConnection free r;
        Some (case result of
           Inl err \<Rightarrow> Inr (Inl err)
         | Inr r' \<Rightarrow> if listened < 0 then Inl Listening_Failed else Inr (Inr r'))
      })"

lemma prepareSocketConnection_Inr [simp]:
  "prepareSocketConnection c = Inr sock \<longleftrightarrow>
   0 < sc_socket c \<and> sc_setsockopt c = 0 \<and> 0 \<le> sc_bind c \<and> 0 \<le> sc_listen c \<and> sock = sc_socket c"
  by (auto simp: prepareSocketConnection_def)

lemma createRMListenerSocket_eq:
  "createRMListenerSocket c s =
     map_sum id (\<lambda>sock. (sock, htons (rmListeningPort s))) (prepareSocketConnection c)"
  by (simp add: createRMListenerSocket_def prepareSocketConnection_def Let_def)

lemma createRMListenerSocket_Inr:
  "createRMListenerSocket c s = Inr (sock, port) \<longleftrightarrow>
   prepareSocketConnection c = Inr sock \<and> port = htons (rmListeningPort s)"
  by (cases "prepareSocketConnection c")
    (auto simp: createRMListenerSocket_eq simp del: prepareSocketConnection_Inr)

lemma prepareConnection_Inr:
  "prepareConnection server clients = Inr (a, b) \<longleftrightarrow>
   prepareSocketConnection server = Inr a \<and> prepareSocketConnection clients = Inr b"
  by (auto simp: prepareConnection_def simp del: prepareSocketConnection_Inr split: sum.splits)

end
