(* ===== verification/Sockets.thy ===== *)
theory Sockets
  imports Packets
begin

section \<open>Reading and writing packets on sockets\<close>

text \<open>
  \<open>src/util/Socket.cpp\<close>. The peer and the kernel are the environment: what arrives on a
  connection is a list of arrivals, each a chunk of bytes, the end of the connection or a read
  error, and one \<open>read\<close> call takes at most the bytes asked for from the first chunk. The empty
  list is a connection on which nothing arrives any more and which stays open: a \<open>read\<close> then
  blocks for ever, which is the value \<open>None\<close>.
\<close>

datatype arrival = Bytes string | Closed | Failed

text \<open>
  \<open>Socket::readPacket\<close>: \<open>n\<close> is \<open>packetSize\<close>, \<open>acc\<close> the \<open>receivedBytes\<close> read so far and
  \<open>conn\<close> the caller's flag. The result is what was received, the flag and what is still to
  arrive. An empty chunk is a \<open>read\<close> that returns 0.
\<close>

fun read_loop :: "nat \<Rightarrow> bool \<Rightarrow> string \<Rightarrow> arrival list \<Rightarrow> (string \<times> bool \<times> arrival list) option" where
  "read_loop n conn acc [] = None"
| "read_loop n conn acc (Failed # as) = Some (acc, False, as)"
| "read_loop n conn acc (Closed # as) = Some (acc, False, Closed # as)"
| "read_loop n conn acc (Bytes bs # as) =
     (let got = take (n - length acc) bs; left = drop (n - length acc) bs;
          acc' = acc @ got; as' = (if left = [] then as else Bytes left # as)
      in if got = [] then Some (acc, False, as)
         else if length acc' = n then Some (acc', conn, as')
         else read_loop n conn acc' as)"

definition readPacket :: "bool \<Rightarrow> arrival list \<Rightarrow> (string \<times> bool \<times> arrival list) option" where
  "readPacket conn as = read_loop packetSize conn [] as"

text \<open>
  \<open>Socket::sendPacket\<close>, both overloads: \<open>n\<close> is what \<open>write\<close> returned. The bytes that went out
  are the first \<open>n\<close> of the packet; any result that is not negative counts as success, and a
  failure shuts the socket down.
\<close>

definition sendPacket ::
    "int \<Rightarrow> socket \<Rightarrow> string \<Rightarrow> (socket \<times> string) list \<times> socket list \<Rightarrow>
     int \<times> (socket \<times> string) list \<times> socket list" where
  "sendPacket n sock img st = (case st of (written, shut) \<Rightarrow>
     if n < 0 then (0, written, shut @ [sock])
     else (1, written @ [(sock, take (nat n) img)], shut))"

text \<open>
  The loop all reader threads of the program run: read packets until the connection ends. The
  result is the images of the packets handled, in order; \<open>None\<close> when the thread stays blocked.
\<close>

definition arrivals_size :: "arrival list \<Rightarrow> nat" where
  "arrivals_size as = sum_list (map (\<lambda>a. case a of Bytes bs \<Rightarrow> Suc (length bs) | _ \<Rightarrow> 1) as)"

lemma arrivals_size_simps [simp]:
  "arrivals_size [] = 0"
  "arrivals_size (Bytes bs # as) = Suc (length bs) + arrivals_size as"
  "arrivals_size (Closed # as) = Suc (arrivals_size as)"
  "arrivals_size (Failed # as) = Suc (arrivals_size as)"
  by (simp_all add: arrivals_size_def)

lemma read_loop_size:
  "read_loop n conn acc as = Some (got, True, as') \<Longrightarrow> arrivals_size as' < arrivals_size as"
proof (induction n conn acc as rule: read_loop.induct)
  case (4 n conn acc bs as)
  let ?k = "n - length acc"
  show ?case
  proof (cases "take ?k bs = [] \<or> length (acc @ take ?k bs) = n")
    case True
    with "4.prems" show ?thesis by (auto simp: Let_def split: if_splits)
  next
    case False
    then show ?thesis
      using "4.prems" "4.IH" [OF refl refl refl refl] by (simp add: Let_def split: if_splits)
  qed
qed auto

function receive_loop :: "arrival list \<Rightarrow> string list option" where
  "receive_loop as =
     (case readPacket True as of
        None \<Rightarrow> None
      | Some (got, conn, as') \<Rightarrow>
          if conn then map_option ((#) got) (receive_loop as') else Some [])"
  by pat_completeness auto
termination
  by (relation "measure arrivals_size") (auto simp: readPacket_def dest: read_loop_size)

declare receive_loop.simps [simp del]

subsection \<open>Framing\<close>

fun stream_bytes :: "arrival list \<Rightarrow> string" where
  "stream_bytes (Bytes bs # as) = bs @ stream_bytes as"
| "stream_bytes _ = []"

definition chunks_ok :: "arrival list \<Rightarrow> bool" where
  "chunks_ok as \<longleftrightarrow> (\<forall>a\<in>set as. a \<noteq> Bytes [])"

text \<open>
  However the bytes are cut into chunks, one call returns exactly the next \<open>n\<close> of them and leaves
  the rest, provided they arrive.
\<close>

lemma read_loop_frame:
  assumes "length acc < n" and "n \<le> length acc + length (stream_bytes as)" and "chunks_ok as"
  shows "\<exists>as'. read_loop n conn acc as =
      Some (acc @ take (n - length acc) (stream_bytes as), conn, as') \<and>
    stream_bytes as' = drop (n - length acc) (stream_bytes as) \<and> chunks_ok as'"
  using assms
proof (induction n conn acc as rule: read_loop.induct)
  case (4 n conn acc bs as)
  have ne: "bs \<noteq> []" and ok: "chunks_ok as"
    using "4.prems"(3) by (auto simp: chunks_ok_def)
  let ?k = "n - length acc"
  have got: "take ?k bs \<noteq> []" using ne "4.prems"(1) by simp
  show ?case
  proof (cases "length bs < ?k")
    case True
    have "length (acc @ take ?k bs) < n" using True by simp
    moreover have "n \<le> length (acc @ take ?k bs) + length (stream_bytes as)"
      using "4.prems"(2) True by simp
    ultimately obtain as' where as': "read_loop n conn (acc @ take ?k bs) as =
        Some ((acc @ take ?k bs) @ take (n - length (acc @ take ?k bs)) (stream_bytes as), conn, as')"
        "stream_bytes as' = drop (n - length (acc @ take ?k bs)) (stream_bytes as)" "chunks_ok as'"
      using "4.IH" [OF refl refl refl refl got] ok by fastforce
    then show ?thesis using True got ok by (simp add: Let_def)
  next
    case False
    then have "length (acc @ take ?k bs) = n" using "4.prems"(1) by simp
    then show ?thesis using False got ok
      by (auto simp: Let_def chunks_ok_def)
  qed
qed auto

lemma readPacket_frame:
  assumes "packetSize \<le> length (stream_bytes as)" and "chunks_ok as"
  shows "\<exists>as'. readPacket conn as = Some (take packetSize (stream_bytes as), conn, as') \<and>
    stream_bytes as' = drop packetSize (stream_bytes as) \<and> chunks_ok as'"
  using read_loop_frame [of "[]" packetSize as conn] assms
  by (simp add: readPacket_def packetSize_def)

text \<open>The end of the connection in the middle of a packet is seen as the end, not as a packet.\<close>

lemma read_loop_ends:
  assumes "read_loop n conn acc as = Some (got, conn', as')" and "length acc < n"
    and "length got < n"
  shows "\<not> conn'"
  using assms
  by (induction n conn acc as rule: read_loop.induct) (auto simp: Let_def split: if_splits)

lemma receive_loop_step:
  assumes "packetSize \<le> length (stream_bytes as)" and "chunks_ok as"
  shows "\<exists>as'. receive_loop as =
      map_option ((#) (take packetSize (stream_bytes as))) (receive_loop as') \<and>
    stream_bytes as' = drop packetSize (stream_bytes as) \<and> chunks_ok as'"
proof -
  obtain as' where "readPacket True as = Some (take packetSize (stream_bytes as), True, as')"
    "stream_bytes as' = drop packetSize (stream_bytes as)" "chunks_ok as'"
    using readPacket_frame [OF assms, of True] by blast
  then show ?thesis by (subst receive_loop.simps) auto
qed

text \<open>
  A stream that closes: every arrival is a chunk, followed by the end of the connection.
\<close>

fun closes :: "arrival list \<Rightarrow> bool" where
  "closes [Closed] = True"
| "closes (Bytes bs # as) = closes as"
| "closes _ = False"

lemma read_loop_closes:
  assumes "read_loop n conn acc as = Some (got, True, as')" and "closes as" and "length acc < n"
  shows "closes as'"
  using assms
proof (induction n conn acc as rule: read_loop.induct)
  case (4 n conn acc bs as)
  let ?k = "n - length acc"
  show ?case
  proof (cases "take ?k bs = [] \<or> length (acc @ take ?k bs) = n")
    case True
    with "4.prems" show ?thesis by (auto simp: Let_def split: if_splits)
  next
    case False
    then show ?thesis
      using "4.prems" "4.IH" [OF refl refl refl refl] by (auto simp: Let_def split: if_splits)
  qed
qed auto

lemma read_loop_short_closes:
  assumes "length acc + length (stream_bytes as) < n" and "closes as" and "chunks_ok as"
  shows "\<exists>got as'. read_loop n conn acc as = Some (got, False, as')"
  using assms
proof (induction n conn acc as rule: read_loop.induct)
  case (4 n conn acc bs as)
  let ?k = "n - length acc"
  have "take ?k bs = bs" and "bs \<noteq> []" using "4.prems" by (auto simp: chunks_ok_def)
  moreover have "length (acc @ take ?k bs) \<noteq> n" using "4.prems" by simp
  ultimately show ?case
    using "4.IH" [OF refl refl refl refl] "4.prems" by (simp add: Let_def chunks_ok_def)
qed auto

text \<open>
  The packets that were written one after the other, cut into chunks in any way, are exactly the
  packets the reader handles before it sees the end of the connection.
\<close>

lemma receive_loop_images:
  assumes "\<forall>im\<in>set ims. length im = packetSize" and "stream_bytes as = concat ims"
    and "chunks_ok as" and "closes as"
  shows "receive_loop as = Some ims"
  using assms
proof (induction ims arbitrary: as)
  case Nil
  then obtain got as' where "read_loop packetSize True [] as = Some (got, False, as')"
    using read_loop_short_closes [of "[]" as packetSize True] by (auto simp: packetSize_def)
  then show ?case by (subst receive_loop.simps) (simp add: readPacket_def)
next
  case (Cons im ims)
  have len: "length im = packetSize" using Cons.prems(1) by simp
  obtain as' where rd: "readPacket True as = Some (im, True, as')"
    and st: "stream_bytes as' = concat ims" and ok: "chunks_ok as'"
    using readPacket_frame [of as True] Cons.prems(2,3) len by auto
  have "closes as'"
    using rd Cons.prems(4) read_loop_closes [of packetSize True "[]" as im as']
    by (simp add: readPacket_def packetSize_def)
  then have "receive_loop as' = Some ims"
    using Cons.IH [of as'] Cons.prems(1) st ok by simp
  with rd show ?case by (subst receive_loop.simps) simp
qed

end
