(* ===== verification/Ring_Threads.thy ===== *)
theory Ring_Threads
  imports Ring_Election Listening Sockets
begin

section \<open>The threads of the ring, and fail-over\<close>

text \<open>
  \<open>src/server/ServersRing.cpp\<close>: the start of a server's part in the ring, its accepting,
  listening and watching threads from start to end, and what their composition gives when the
  primary is lost: the server before it connects to the next living server and starts the
  election of theory \<open>Ring_Election\<close>.
\<close>

definition connectServersRing ::
    "int \<Rightarrow> socket \<Rightarrow> int \<Rightarrow> (int \<Rightarrow> bool) \<Rightarrow> ring \<Rightarrow> (setup_exit + stoi_error + ring) option" where
  \<comment> \<open>\<open>inet\<close> is the result of \<open>inet_pton\<close>; afterwards the accepting thread is started\<close>
  "connectServersRing inet socket_server listened free r =
     (if inet \<le> 0 then Some (Inl Address) else ring_listener socket_server listened free r)"

definition AcceptServerConnection :: "socket \<Rightarrow> ring \<Rightarrow> bool \<times> socket option" where
  \<comment> \<open>whether the connecting thread is started, and the socket to listen on; \<open>None\<close> ends the process\<close>
  "AcceptServerConnection newsockfd r =
     (\<not> rg_disconnected r, if newsockfd = -1 then None else Some newsockfd)"

text \<open>The listening thread over all the packets it reads: the state at its end, what it sent.\<close>

fun ring_listener_thread :: "(env \<times> packet) list \<Rightarrow> ring \<Rightarrow> (stoi_error + ring \<times> packet list) option" where
  "ring_listener_thread [] r = Some (Inr (connectionLost r, []))"
| "ring_listener_thread ((e, p) # received) r = do {
     result \<leftarrow> listenClientCommunication e p r;
     (case result of
        Inl err \<Rightarrow> Some (Inl err)
      | Inr (r1, out) \<Rightarrow> do {
          rest \<leftarrow> ring_listener_thread received r1;
          Some (case rest of Inl err \<Rightarrow> Inl err | Inr (r2, out') \<Rightarrow> Inr (r2, out @ out'))
        })
   }"

definition checkIfConnectionFailed :: "arrival list \<Rightarrow> ring \<Rightarrow> ring option" where
  \<comment> \<open>the packets read are dropped; \<open>None\<close> while the connection lasts\<close>
  "checkIfConnectionFailed as r = map_option (\<lambda>_. connectionLost r) (receive_loop as)"

subsection \<open>What the threads keep\<close>

lemma listenClientCommunication_keeps:
  assumes "listenClientCommunication e p r = Some (Inr (r', out))"
  shows "rg_server_ID r' = rg_server_ID r \<and> rg_lines r' = rg_lines r \<and> rg_pos r' = rg_pos r \<and>
   (rg_isPrimary r \<longrightarrow> rg_isPrimary r')"
proof -
  obtain t result where t: "c_str (p_message p) = Some t"
      "processElectionInfo e t (rg_server_ID r) (rg_elect r) = Some result"
    using assms by (auto simp: listenClientCommunication_def bind_iff)
  show ?thesis
  proof (cases result)
    case (Inl err)
    then show ?thesis using assms t by (simp add: listenClientCommunication_def)
  next
    case (Inr res)
    obtain newPrimary el o' where "res = (newPrimary, el, o')" by (cases res)
    then show ?thesis using assms t Inr
      by (auto simp: listenClientCommunication_def Let_def split: if_splits)
  qed
qed

text \<open>A server that has become primary never stops being primary.\<close>

lemma ring_listener_thread_primary:
  "ring_listener_thread received r = Some (Inr (r', out)) \<Longrightarrow>
   rg_disconnected r' \<and> rg_server_ID r' = rg_server_ID r \<and> (rg_isPrimary r \<longrightarrow> rg_isPrimary r')"
proof (induction received r arbitrary: r' out rule: ring_listener_thread.induct)
  case (1 r)
  then show ?case by (auto simp: connectionLost_def)
next
  case (2 e p received r)
  then obtain result where res: "listenClientCommunication e p r = Some result"
    by (auto simp: bind_iff)
  then obtain r1 out1 where r1: "result = Inr (r1, out1)" using "2.prems" by (cases result) auto
  then obtain rest where rest: "ring_listener_thread received r1 = Some rest"
    using "2.prems" res by (auto simp: bind_iff)
  then obtain out2 where "rest = Inr (r', out2)" using "2.prems" res r1 by (cases rest) auto
  then show ?case
    using "2.IH" [OF res r1 refl, of r' out2] rest listenClientCommunication_keeps [of e p r r1 out1] res r1
    by simp
qed

subsection \<open>The next living server\<close>

lemma connect_loop_finds:
  assumes ok: "ports_ok ls ps"
    and "accepts (ps ! ((i + d) mod length ps))" and "\<forall>c<d. \<not> accepts (ps ! ((i + c) mod length ps))"
    and "\<forall>c\<le>d. c \<noteq> 0 \<longrightarrow> ps ! ((i + c) mod length ps) \<noteq> rg_own_port r"
    and "rg_lines r = ls" "rg_pos r = i mod length ps + 1" "rg_next_port r = ps ! (i mod length ps)"
    and "rg_disconnected r" and "d < length attempts" and "\<forall>a\<in>set attempts. a = accepts"
  shows "connect_loop attempts r = Connected (r\<lparr>rg_next_port := ps ! ((i + d) mod length ps),
    rg_pos := (i + d) mod length ps + 1\<rparr>)"
  using assms(2-)
proof (induction d arbitrary: i r attempts)
  case 0
  then obtain later where "attempts = accepts # later" by (cases attempts) auto
  moreover have "r\<lparr>rg_next_port := ps ! (i mod length ps), rg_pos := i mod length ps + 1\<rparr> = r"
    using 0(5,6) by (cases r) simp
  moreover have "accepts (rg_next_port r)" using 0(1,6) by simp
  ultimately show ?case by simp
next
  case (Suc d)
  then obtain later where att: "attempts = accepts # later" by (cases attempts) auto
  have n: "0 < length ps" using ports_okD(2) [OF ok] by simp
  have h: "htons (ps ! (Suc i mod length ps)) = ps ! (Suc i mod length ps)"
    using ports_okD(4) [OF ok] n by simp
  let ?r = "r\<lparr>rg_next_port := ps ! (Suc i mod length ps), rg_pos := Suc i mod length ps + 1\<rparr>"
  have "1 \<le> Suc d" by simp
  then have own: "ps ! ((i + 1) mod length ps) \<noteq> rg_own_port r" using Suc.prems(3) by blast
  have dead: "\<not> accepts (rg_next_port r)" using Suc.prems(2) spec [of _ 0] Suc.prems(6) by force
  have step: "connect_failed r = Inr ?r"
    using Suc.prems own getNewPort_mod [OF ok, of i] h by (simp add: connect_failed_def)
  have "connect_loop later ?r = Connected (?r\<lparr>rg_next_port := ps ! ((Suc i + d) mod length ps),
      rg_pos := (Suc i + d) mod length ps + 1\<rparr>)"
  proof (rule Suc.IH)
    show "accepts (ps ! ((Suc i + d) mod length ps))" using Suc.prems(1) by simp
    show "\<forall>c<d. \<not> accepts (ps ! ((Suc i + c) mod length ps))"
      using Suc.prems(2) by (metis Suc_mono add_Suc_shift)
    show "\<forall>c\<le>d. c \<noteq> 0 \<longrightarrow> ps ! ((Suc i + c) mod length ps) \<noteq> rg_own_port ?r"
    proof (intro allI impI)
      fix c
      assume "c \<le> d" "c \<noteq> 0"
      then show "ps ! ((Suc i + c) mod length ps) \<noteq> rg_own_port ?r"
        using Suc.prems(3) [rule_format, of "Suc c"] by simp
    qed
    show "rg_lines ?r = ls" "rg_pos ?r = Suc i mod length ps + 1"
      "rg_next_port ?r = ps ! (Suc i mod length ps)" "rg_disconnected ?r"
      using Suc.prems(4,7) by simp_all
    show "d < length later" using Suc.prems(8) att by simp
    show "\<forall>a\<in>set later. a = accepts" using Suc.prems(9) att by simp
  qed
  then show ?case using step dead att by simp
qed

text \<open>The server before the lost primary.\<close>

lemma connectToServer_after_loss:
  assumes ok: "ports_ok ls ps"
    and "accepts (ps ! ((i + Suc d) mod length ps))"
    and "\<forall>c<d. \<not> accepts (ps ! ((i + Suc c) mod length ps))"
    and "\<forall>c\<le>d. c \<noteq> 0 \<longrightarrow> ps ! ((i + Suc c) mod length ps) \<noteq> rg_own_port r"
    and "rg_lines r = ls" "rg_pos r = i mod length ps + 1" "rg_disconnected r"
    and "d < length attempts" and "\<forall>a\<in>set attempts. a = accepts"
    and lost: "rg_next_port r = rg_primary r"
    and send: "startElection e (rg_server_ID r) = Some wire"
  shows "connectToServer e attempts r = Some (Connected (r\<lparr>rg_next_port := ps ! ((i + Suc d) mod length ps),
    rg_pos := (i + Suc d) mod length ps + 1, rg_disconnected := False\<rparr>), wire)"
proof -
  have n: "0 < length ps" using ports_okD(2) [OF ok] by simp
  have h: "htons (ps ! (Suc i mod length ps)) = ps ! (Suc i mod length ps)"
    using ports_okD(4) [OF ok] n by simp
  let ?r = "r\<lparr>rg_next_port := ps ! (Suc i mod length ps), rg_pos := Suc i mod length ps + 1\<rparr>"
  have "connect_loop attempts ?r = Connected (?r\<lparr>rg_next_port := ps ! ((Suc i + d) mod length ps),
      rg_pos := (Suc i + d) mod length ps + 1\<rparr>)"
    using assms by (intro connect_loop_finds [OF ok, where accepts = accepts]) auto
  then show ?thesis
    using assms(5-7) getNewPort_mod [OF ok, of i] h lost send by (simp add: connectToServer_def)
qed

subsection \<open>Fail-over\<close>

text \<open>
  The primary is lost: the server before it, \<open>r\<close>, connects to the first living server after the
  dead ones and starts the election, which the living servers then settle.
\<close>

lemma failover_elects:
  assumes ok: "ports_ok ls ps"
    and "accepts (ps ! ((i + Suc d) mod length ps))"
    and "\<forall>c<d. \<not> accepts (ps ! ((i + Suc c) mod length ps))"
    and "\<forall>c\<le>d. c \<noteq> 0 \<longrightarrow> ps ! ((i + Suc c) mod length ps) \<noteq> rg_own_port r"
    and "rg_lines r = ls" "rg_pos r = i mod length ps + 1" "rg_disconnected r"
    and "d < length attempts" and "\<forall>a\<in>set attempts. a = accepts"
    and lost: "rg_next_port r = rg_primary r"
    and ids: "server_ids_ok (servers @ [r])" and np: "\<forall>s\<in>set (servers @ [r]). \<not> participates s"
    and e0: "env_ok e0" and es: "\<forall>e\<in>set es. env_ok e" "3 * Suc (length servers) \<le> length es"
  shows "\<exists>r' wire k. connectToServer e0 attempts r = Some (Connected r', wire) \<and>
    rg_next_port r' = ps ! ((i + Suc d) mod length ps) \<and> \<not> rg_disconnected r' \<and>
    rg_server_ID r' = rg_server_ID r \<and> ring_hops es (servers @ [r'], wire) =
      Some (Inr (rotate k (map (settled (winner (servers @ [r]))) (servers @ [r'])), []))"
proof -
  have "int_range (rg_server_ID r)" using ids by (simp add: server_ids_ok_def)
  then obtain wire where wire: "startElection e0 (rg_server_ID r) = Some wire"
    using election_buildPacket_carries [OF e0, of "rg_server_ID r" "''ELECTION''"]
    by (auto simp: startElection_def sendMessageToNextServer_def status_word_def)
  let ?r = "r\<lparr>rg_next_port := ps ! ((i + Suc d) mod length ps),
    rg_pos := (i + Suc d) mod length ps + 1, rg_disconnected := False\<rparr>"
  have con: "connectToServer e0 attempts r = Some (Connected ?r, wire)"
    by (rule connectToServer_after_loss [OF assms(1-10) wire])
  have ids': "server_ids_ok (servers @ [?r])" and np': "\<forall>s\<in>set (servers @ [?r]). \<not> participates s"
    using ids np by (simp_all add: server_ids_ok_def)
  have "winner (servers @ [?r]) = winner (servers @ [r])" by (simp add: winner_def)
  moreover have "startElection e0 (rg_server_ID (last (servers @ [?r]))) = Some wire" using wire by simp
  moreover have "3 * length (servers @ [?r]) \<le> length es" using es(2) by simp
  ultimately obtain k where "ring_hops es (servers @ [?r], wire) =
      Some (Inr (rotate k (map (settled (winner (servers @ [r]))) (servers @ [?r])), []))"
    using election_completes [OF ids' _ np' e0 _ es(1)] by fastforce
  then show ?thesis using con by (intro exI [of _ ?r] exI [of _ wire] exI [of _ k]) simp
qed

end
