(* ===== verification/Semaphores.thy ===== *)
theory Semaphores
  imports Prelude
begin

section \<open>The semaphore\<close>

text \<open>
  \<open>src/util/Semaphore.cpp\<close>: a counter and a condition variable, with which every shared table
  of the server, the proxy and the client is protected. The state holds the counter and, for each
  thread, where it is: outside, blocked in \<open>m_waitcond.wait\<close>, notified but not yet running
  again, or past its \<open>wait\<close> and not yet at its \<open>post\<close>. The bodies of \<open>wait\<close> and \<open>post\<close> run
  under \<open>m_mux\<close>, so each is one step. The parameter \<open>spurious\<close> says whether the condition
  variable may wake a thread nobody has notified, which C++ allows.
\<close>

datatype thread_pc = Outside | Blocked | Notified | Inside

instantiation thread_pc :: enum
begin

definition enum_thread_pc :: "thread_pc list" where
  "enum_thread_pc = [Outside, Blocked, Notified, Inside]"

definition enum_all_thread_pc :: "(thread_pc \<Rightarrow> bool) \<Rightarrow> bool" where
  "enum_all_thread_pc P \<longleftrightarrow> P Outside \<and> P Blocked \<and> P Notified \<and> P Inside"

definition enum_ex_thread_pc :: "(thread_pc \<Rightarrow> bool) \<Rightarrow> bool" where
  "enum_ex_thread_pc P \<longleftrightarrow> P Outside \<or> P Blocked \<or> P Notified \<or> P Inside"

instance
proof
  have univ: "(UNIV :: thread_pc set) = set Enum.enum"
    by (auto simp: enum_thread_pc_def intro: thread_pc.exhaust)
  then show "UNIV = set (Enum.enum :: thread_pc list)" .
  show "distinct (Enum.enum :: thread_pc list)" by (simp add: enum_thread_pc_def)
  show "Enum.enum_all P \<longleftrightarrow> Ball UNIV P" for P :: "thread_pc \<Rightarrow> bool"
    by (simp add: univ enum_thread_pc_def enum_all_thread_pc_def)
  show "Enum.enum_ex P \<longleftrightarrow> Bex UNIV P" for P :: "thread_pc \<Rightarrow> bool"
    by (simp add: univ enum_thread_pc_def enum_ex_thread_pc_def)
qed

end

record semaphore =
  m_value :: int
  m_threads :: "thread_pc list"

definition Semaphore :: "int \<Rightarrow> nat \<Rightarrow> semaphore" where
  "Semaphore init n = \<lparr>m_value = init, m_threads = replicate n Outside\<rparr>"

definition sem_wait :: "nat \<Rightarrow> semaphore \<Rightarrow> semaphore" where
  "sem_wait t s =
     (let v = m_value s - 1
      in s\<lparr>m_value := v, m_threads := (m_threads s)[t := if v < 0 then Blocked else Inside]\<rparr>)"

definition notify_one :: "nat option \<Rightarrow> thread_pc list \<Rightarrow> thread_pc list" where
  \<comment> \<open>the thread the condition variable chooses, if one is blocked\<close>
  "notify_one u ts = (case u of None \<Rightarrow> ts | Some u \<Rightarrow> ts[u := Notified])"

definition sem_post :: "nat \<Rightarrow> nat option \<Rightarrow> semaphore \<Rightarrow> semaphore" where
  "sem_post t u s =
     (let v = m_value s + 1; ts = (m_threads s)[t := Outside]
      in s\<lparr>m_value := v, m_threads := if v \<le> 0 then notify_one u ts else ts\<rparr>)"

definition may_notify :: "nat option \<Rightarrow> thread_pc list \<Rightarrow> bool" where
  "may_notify u ts = (case u of None \<Rightarrow> Blocked \<notin> set ts
     | Some u \<Rightarrow> u < length ts \<and> ts ! u = Blocked)"

inductive sem_step :: "bool \<Rightarrow> semaphore \<Rightarrow> semaphore \<Rightarrow> bool" for spurious where
  Wait: "t < length (m_threads s) \<Longrightarrow> m_threads s ! t = Outside \<Longrightarrow> sem_step spurious s (sem_wait t s)"
| Post: "t < length (m_threads s) \<Longrightarrow> m_threads s ! t = Inside \<Longrightarrow> may_notify u (m_threads s) \<Longrightarrow>
    sem_step spurious s (sem_post t u s)"
| Resume: "t < length (m_threads s) \<Longrightarrow> m_threads s ! t = Notified \<Longrightarrow>
    sem_step spurious s (s\<lparr>m_threads := (m_threads s)[t := Inside]\<rparr>)"
| Spurious: "spurious \<Longrightarrow> t < length (m_threads s) \<Longrightarrow> m_threads s ! t = Blocked \<Longrightarrow>
    sem_step spurious s (s\<lparr>m_threads := (m_threads s)[t := Inside]\<rparr>)"

definition reachable_sem :: "bool \<Rightarrow> int \<Rightarrow> nat \<Rightarrow> semaphore \<Rightarrow> bool" where
  "reachable_sem spurious init n s \<longleftrightarrow> (sem_step spurious)\<^sup>*\<^sup>* (Semaphore init n) s"

abbreviation threads_at :: "thread_pc \<Rightarrow> semaphore \<Rightarrow> nat" where
  "threads_at pc s \<equiv> count_list (m_threads s) pc"

text \<open>
  The invariant without spurious wake-ups: the counter is what is left of the permits after
  everyone past the decrement, the permits handed out are at most \<open>init\<close>, and while a thread is
  blocked all of them are out.
\<close>

definition sem_inv :: "int \<Rightarrow> semaphore \<Rightarrow> bool" where
  "sem_inv init s \<longleftrightarrow>
     m_value s = init - int (threads_at Inside s) - int (threads_at Notified s) - int (threads_at Blocked s) \<and>
     int (threads_at Inside s) + int (threads_at Notified s) \<le> init \<and>
     (0 < threads_at Blocked s \<longrightarrow> int (threads_at Inside s) + int (threads_at Notified s) = init)"

lemma sem_inv_init: "0 \<le> init \<Longrightarrow> sem_inv init (Semaphore init n)"
  by (simp add: sem_inv_def Semaphore_def count_list_replicate)

lemma sem_inv_wait:
  assumes "sem_inv init s" and t: "t < length (m_threads s)" "m_threads s ! t = Outside"
  shows "sem_inv init (sem_wait t s)"
proof -
  have b: "Outside \<noteq> Blocked" "Outside \<noteq> Inside" by simp_all
  show ?thesis
    using assms(1) count_list_moved [OF t b(1)] count_list_moved [OF t b(2)]
    by (auto simp: sem_inv_def sem_wait_def Let_def)
qed

lemma sem_inv_post:
  assumes inv: "sem_inv init s" and t: "t < length (m_threads s)" "m_threads s ! t = Inside"
    and u: "may_notify u (m_threads s)"
  shows "sem_inv init (sem_post t u s)"
proof -
  let ?ts = "(m_threads s)[t := Outside]"
  have io: "Inside \<noteq> Outside" by simp
  note up = count_list_moved [OF t io]
  show ?thesis
  proof (cases u)
    case None
    then have "threads_at Blocked s = 0" using u by (simp add: may_notify_def count_list_0_iff)
    then show ?thesis
      using inv up None by (simp add: sem_inv_def sem_post_def Let_def notify_one_def)
  next
    case (Some v)
    then have v: "v < length (m_threads s)" "m_threads s ! v = Blocked" using u by (simp_all add: may_notify_def)
    have ne: "v \<noteq> t" using v(2) t(2) by auto
    then have v': "v < length ?ts" "?ts ! v = Blocked" using v by simp_all
    have bn: "Blocked \<noteq> Notified" by simp
    note up2 = count_list_moved [OF v' bn]
    have pos: "0 < threads_at Blocked s" using count_list_pos [OF v(1)] v(2) by simp
    then have full: "int (threads_at Inside s) + int (threads_at Notified s) = init"
      using inv by (simp add: sem_inv_def)
    have "m_value s + 1 \<le> 0" using inv pos full by (simp add: sem_inv_def)
    then have post: "sem_post t u s = s\<lparr>m_value := m_value s + 1, m_threads := ?ts[v := Notified]\<rparr>"
      by (simp add: sem_post_def Let_def notify_one_def Some)
    show ?thesis unfolding post using inv up up2 full by (simp add: sem_inv_def)
  qed
qed

lemma sem_inv_resume:
  assumes "sem_inv init s" and t: "t < length (m_threads s)" "m_threads s ! t = Notified"
  shows "sem_inv init (s\<lparr>m_threads := (m_threads s)[t := Inside]\<rparr>)"
proof -
  have ni: "Notified \<noteq> Inside" by simp
  show ?thesis
    using assms(1) count_list_moved [OF t ni] by (auto simp: sem_inv_def)
qed

inductive_cases sem_stepE: "sem_step b s s'"

lemma sem_inv_step: "sem_step False s s' \<Longrightarrow> sem_inv init s \<Longrightarrow> sem_inv init s'"
  by (erule sem_stepE) (auto intro: sem_inv_wait sem_inv_post sem_inv_resume)

lemma sem_inv_reachable:
  assumes "reachable_sem False init n s" and "0 \<le> init"
  shows "sem_inv init s"
  using assms(1) unfolding reachable_sem_def
  by (induction rule: rtranclp_induct) (auto intro: sem_inv_init sem_inv_step assms(2))

lemma reachable_sem_step:
  "reachable_sem b init n s \<Longrightarrow> sem_step b s s' \<Longrightarrow> reachable_sem b init n s'"
  unfolding reachable_sem_def by (rule rtranclp.rtrancl_into_rtrancl)

lemma reachable_sem_init: "reachable_sem b init n (Semaphore init n)"
  by (simp add: reachable_sem_def)

subsection \<open>No deadlock\<close>

text \<open>Every thread is at exactly one of the enumerated places.\<close>

lemma threads_somewhere: "(\<Sum>pc\<leftarrow>Enum.enum. threads_at pc s) = length (m_threads s)"
proof -
  have "(\<Sum>pc\<leftarrow>Enum.enum. count_list ts pc) = length ts" for ts :: "thread_pc list"
  proof (induction ts)
    case (Cons t ts)
    then show ?case by (cases t) (simp_all add: enum_thread_pc_def)
  qed (simp add: enum_thread_pc_def)
  then show ?thesis .
qed

inductive_simps sem_step_iff: "sem_step spurious s s'"

lemma sem_stuck_iff:
  "(\<nexists>s'. sem_step False s s') \<longleftrightarrow> (\<forall>pc\<in>set (m_threads s). pc = Blocked)"
proof
  assume stuck: "\<nexists>s'. sem_step False s s'"
  have "m_threads s ! t = Blocked" if t: "t < length (m_threads s)" for t
  proof (cases "m_threads s ! t")
    case Inside
    have "\<exists>u. may_notify u (m_threads s)"
    proof (cases "Blocked \<in> set (m_threads s)")
      case True
      then obtain u where "u < length (m_threads s)" "m_threads s ! u = Blocked" by (auto simp: in_set_conv_nth)
      then have "may_notify (Some u) (m_threads s)" by (simp add: may_notify_def)
      then show ?thesis ..
    next
      case False
      then have "may_notify None (m_threads s)" by (simp add: may_notify_def)
      then show ?thesis ..
    qed
    then show ?thesis using stuck t Inside sem_step.Post by blast
  qed (use stuck t in \<open>auto simp: sem_step_iff\<close>)
  then show "\<forall>pc\<in>set (m_threads s). pc = Blocked" by (metis in_set_conv_nth)
next
  assume "\<forall>pc\<in>set (m_threads s). pc = Blocked"
  then have "m_threads s ! t = Blocked" if "t < length (m_threads s)" for t using that nth_mem by blast
  then show "\<nexists>s'. sem_step False s s'" by (auto simp: sem_step_iff)
qed

text \<open>With a permit to give, the threads never all wait for one another.\<close>

lemma sem_no_deadlock:
  assumes reach: "reachable_sem False init n s" and init: "0 < init" and "m_threads s \<noteq> []"
  shows "\<exists>s'. sem_step False s s'"
proof (rule ccontr)
  assume "\<nexists>s'. sem_step False s s'"
  then have all: "\<forall>pc\<in>set (m_threads s). pc = Blocked" using sem_stuck_iff by blast
  then have "Inside \<notin> set (m_threads s)" "Notified \<notin> set (m_threads s)" "Outside \<notin> set (m_threads s)" by auto
  then have none: "threads_at Inside s = 0" "threads_at Notified s = 0" "threads_at Outside s = 0"
    by (simp_all add: count_list_0_iff)
  then have "0 < threads_at Blocked s"
    using threads_somewhere [of s] assms(3) by (simp add: enum_thread_pc_def)
  then show False using sem_inv_reachable [OF reach] none init by (simp add: sem_inv_def)
qed

lemma sem_step_threads: "sem_step b s s' \<Longrightarrow> length (m_threads s') = length (m_threads s)"
  by (auto simp: sem_step_iff sem_wait_def sem_post_def notify_one_def Let_def split: option.splits)

lemma reachable_sem_threads: "reachable_sem b init n s \<Longrightarrow> length (m_threads s) = n"
  unfolding reachable_sem_def
  by (induction rule: rtranclp_induct) (simp_all add: Semaphore_def sem_step_threads)

subsection \<open>A spurious wake-up\<close>

text \<open>
  The wait has no loop that tests a condition again. A run with three threads: the second and
  third block, and one is woken spuriously while the first is inside.
\<close>

definition spurious_run :: "semaphore list" where
  "spurious_run =
     (let s0 = Semaphore 1 3; s1 = sem_wait 0 s0; s2 = sem_wait 1 s1
      in [s0, s1, s2, s2\<lparr>m_threads := (m_threads s2)[1 := Inside]\<rparr>])"

lemma spurious_run_reachable: "reachable_sem True 1 3 (last spurious_run)"
proof -
  let ?s0 = "Semaphore 1 3"
  let ?s1 = "sem_wait 0 ?s0"
  let ?s2 = "sem_wait 1 ?s1"
  have "reachable_sem True 1 3 ?s1"
    by (rule reachable_sem_step [OF reachable_sem_init sem_step.Wait]) (simp_all add: Semaphore_def)
  then have "reachable_sem True 1 3 ?s2"
    by (rule reachable_sem_step [OF _ sem_step.Wait])
      (simp_all add: Semaphore_def sem_wait_def numeral_3_eq_3)
  then have "reachable_sem True 1 3 (?s2\<lparr>m_threads := (m_threads ?s2)[1 := Inside]\<rparr>)"
    by (rule reachable_sem_step [OF _ sem_step.Spurious])
      (simp_all add: Semaphore_def sem_wait_def numeral_3_eq_3)
  then show ?thesis by (simp add: spurious_run_def Let_def)
qed

end
