(* ===== verification/Handoff.thy ===== *)
theory Handoff
  imports Semaphores Chat_Groups
begin

section \<open>Handing messages from one thread to another\<close>

text \<open>
  Three places of the program hand messages to a consumer thread with a queue and a mutex used
  as a signal: the producer unlocks the mutex, the consumer parks in \<open>pthread_mutex_lock\<close> until
  it can lock it. They are the queue of a group (\<open>Group::addMessageToMessageQueue\<close>,
  \<open>Group::consumeMessageQueue\<close>), the queue of a client (\<open>Client::sendToServer\<close>,
  \<open>Client::consumeMessagesToSendQueue\<close>), and the single slot of a front end
  (\<open>ProxyFE::processIncomingClientMessage\<close>, \<open>ProxyFE::handleProcessingMessage\<close>). The locale
  states what they have in common; each is a step relation over its threads, with every access
  to shared data as one step, and is an interpretation of it.

  An unlock of a mutex another thread has locked, which is how these signals work, sets it free
  here, as the C library of the build does it.
\<close>

locale signalled_queue =
  fixes step :: "'s \<Rightarrow> 's \<Rightarrow> bool"
    and start :: 's
    and pushed :: "'s \<Rightarrow> 'm list"  \<comment> \<open>all that was ever put in\<close>
    and taken :: "'s \<Rightarrow> 'm list"  \<comment> \<open>all the consumer has taken out\<close>
    and queue :: "'s \<Rightarrow> 'm list"
    and parked :: "'s \<Rightarrow> bool"
    and signalled :: "'s \<Rightarrow> bool"  \<comment> \<open>the mutex is free, or a producer is about to free it\<close>
    and inv :: "'s \<Rightarrow> bool"
  assumes start_law: "pushed start = [] \<and> taken start = [] \<and> queue start = [] \<and> inv start"
    and inv_law: "inv s \<Longrightarrow> step s t \<Longrightarrow> inv t"
    and step_law: "inv s \<Longrightarrow> step s t \<Longrightarrow>
      (\<exists>m. pushed t = pushed s @ [m] \<and> queue t = queue s @ [m] \<and> taken t = taken s \<and> signalled t) \<or>
      (\<exists>m. pushed t = pushed s \<and> queue s = m # queue t \<and> taken t = taken s @ [m] \<and> \<not> parked t) \<or>
      (pushed t = pushed s \<and> queue t = queue s \<and> taken t = taken s \<and>
       (parked t \<longrightarrow> queue t = [] \<or> parked s \<and> (signalled s \<longrightarrow> signalled t)))"
begin

lemma invariant: "step\<^sup>*\<^sup>* start s \<Longrightarrow> inv s"
proof (induction rule: rtranclp_induct)
  case base
  then show ?case using start_law by simp
next
  case (step s t)
  then show ?case using inv_law by blast
qed

lemma fifo: "step\<^sup>*\<^sup>* start s \<Longrightarrow> pushed s = taken s @ queue s"
proof (induction rule: rtranclp_induct)
  case base
  then show ?case using start_law by simp
next
  case (step s t)
  then show ?case using step_law [OF invariant [OF step(1)] step(2)] by auto
qed

lemma not_stranded: "step\<^sup>*\<^sup>* start s \<Longrightarrow> parked s \<Longrightarrow> queue s = [] \<or> signalled s"
proof (induction rule: rtranclp_induct)
  case base
  then show ?case using start_law by simp
next
  case (step s t)
  then show ?case using step_law [OF invariant [OF step(1)] step(2)] by auto
qed

end

subsection \<open>The queue of a group\<close>

datatype 'm consumer = Parked | Draining | Working 'm

record 'm mailbox =
  mb_queue :: "'m list"
  mb_locked :: bool
  mb_unlocks :: nat  \<comment> \<open>producers between their push and their unlock\<close>
  mb_consumer :: "'m consumer"
  mb_done :: "'m list"  \<comment> \<open>messages the consumer has finished\<close>
  mb_pushed :: "'m list"  \<comment> \<open>all messages pushed so far\<close>

definition mailbox0 :: "'m mailbox" where
  "mailbox0 = \<lparr>mb_queue = [], mb_locked = True, mb_unlocks = 0, mb_consumer = Parked,
     mb_done = [], mb_pushed = []\<rparr>"

inductive mailbox_step :: "'m mailbox \<Rightarrow> 'm mailbox \<Rightarrow> bool" where
  Push: "mailbox_step s (s\<lparr>mb_queue := mb_queue s @ [m], mb_pushed := mb_pushed s @ [m],
           mb_unlocks := Suc (mb_unlocks s)\<rparr>)"
| Unlock: "mb_unlocks s = Suc n \<Longrightarrow> mailbox_step s (s\<lparr>mb_unlocks := n, mb_locked := False\<rparr>)"
| Lock: "mb_consumer s = Parked \<Longrightarrow> \<not> mb_locked s \<Longrightarrow>
    mailbox_step s (s\<lparr>mb_consumer := Draining, mb_locked := True\<rparr>)"
| Pop: "mb_consumer s = Draining \<Longrightarrow> mb_queue s = m # ms \<Longrightarrow>
    mailbox_step s (s\<lparr>mb_consumer := Working m, mb_queue := ms\<rparr>)"
| Finish: "mb_consumer s = Working m \<Longrightarrow>
    mailbox_step s (s\<lparr>mb_consumer := Draining, mb_done := mb_done s @ [m]\<rparr>)"
| Empty: "mb_consumer s = Draining \<Longrightarrow> mb_queue s = [] \<Longrightarrow>
    mailbox_step s (s\<lparr>mb_consumer := Parked\<rparr>)"

inductive_cases mailbox_stepE: "mailbox_step s t"

definition in_work :: "'m consumer \<Rightarrow> 'm list" where
  "in_work c = (case c of Working m \<Rightarrow> [m] | _ \<Rightarrow> [])"

lemma in_work_simps [simp]: "in_work Parked = []" "in_work Draining = []" "in_work (Working m) = [m]"
  by (simp_all add: in_work_def)

lemma mailbox_law:
  "mailbox_step s t \<Longrightarrow>
    (\<exists>m. mb_pushed t = mb_pushed s @ [m] \<and> mb_queue t = mb_queue s @ [m] \<and>
      mb_done t @ in_work (mb_consumer t) = mb_done s @ in_work (mb_consumer s) \<and>
      (\<not> mb_locked t \<or> 0 < mb_unlocks t)) \<or>
    (\<exists>m. mb_pushed t = mb_pushed s \<and> mb_queue s = m # mb_queue t \<and>
      mb_done t @ in_work (mb_consumer t) = (mb_done s @ in_work (mb_consumer s)) @ [m] \<and>
      mb_consumer t \<noteq> Parked) \<or>
    (mb_pushed t = mb_pushed s \<and> mb_queue t = mb_queue s \<and>
      mb_done t @ in_work (mb_consumer t) = mb_done s @ in_work (mb_consumer s) \<and>
      (mb_consumer t = Parked \<longrightarrow> mb_queue t = [] \<or> mb_consumer s = Parked \<and>
        ((\<not> mb_locked s \<or> 0 < mb_unlocks s) \<longrightarrow> (\<not> mb_locked t \<or> 0 < mb_unlocks t))))"
  by (erule mailbox_stepE) auto

interpretation group_queue: signalled_queue mailbox_step mailbox0 mb_pushed
  "\<lambda>s. mb_done s @ in_work (mb_consumer s)" mb_queue "\<lambda>s. mb_consumer s = Parked"
  "\<lambda>s. \<not> mb_locked s \<or> 0 < mb_unlocks s" "\<lambda>_. True"
  by unfold_locales (simp add: mailbox0_def, rule TrueI, rule mailbox_law)

definition mailbox_reachable :: "'m mailbox \<Rightarrow> bool" where
  "mailbox_reachable s \<longleftrightarrow> mailbox_step\<^sup>*\<^sup>* mailbox0 s"

text \<open>The steps of the threads themselves, everything but the arrival of another message.\<close>

definition mailbox_quiet :: "'m mailbox \<Rightarrow> bool" where
  "mailbox_quiet s \<longleftrightarrow> (\<forall>t. mailbox_step s t \<longrightarrow> mb_pushed t \<noteq> mb_pushed s)"

lemma mailbox_quiet_all_done:
  assumes "mailbox_reachable s" and "mailbox_quiet s"
  shows "mb_done s = mb_pushed s"
proof -
  have fifo: "mb_pushed s = (mb_done s @ in_work (mb_consumer s)) @ mb_queue s"
    and stuck: "mb_consumer s = Parked \<Longrightarrow> mb_queue s = [] \<or> \<not> mb_locked s \<or> 0 < mb_unlocks s"
    using assms(1) group_queue.fifo [of s] group_queue.not_stranded [of s]
    by (auto simp: mailbox_reachable_def)
  have quiet: "mailbox_step s t \<Longrightarrow> mb_pushed t \<noteq> mb_pushed s" for t
    using assms(2) by (simp add: mailbox_quiet_def)
  have "mb_consumer s \<noteq> Working m" for m using quiet [OF mailbox_step.Finish [of s m]] by auto
  moreover have "mb_consumer s \<noteq> Draining"
    using quiet [OF mailbox_step.Empty [of s]] quiet [OF mailbox_step.Pop [of s]]
    by (cases "mb_queue s") auto
  ultimately have parked: "mb_consumer s = Parked" by (cases "mb_consumer s") auto
  have "mb_unlocks s = 0" using quiet [OF mailbox_step.Unlock [of s]] by (cases "mb_unlocks s") auto
  moreover have "mb_locked s" using quiet [OF mailbox_step.Lock [OF parked]] by auto
  ultimately have "mb_queue s = []" using stuck [OF parked] by simp
  then show ?thesis using fifo parked by simp
qed

text \<open>
  The sequential model of the queue (theory \<open>Chat_Groups\<close>) is one schedule of these threads:
  \<open>addMessageToMessageQueue\<close> is a push and its unlock, \<open>consumeMessageQueue\<close> a lock followed by
  a pop and a finish for each message.
\<close>

definition mailbox_of :: "message list \<Rightarrow> message list \<Rightarrow> chat_group \<Rightarrow> message mailbox" where
  "mailbox_of done_so_far all_pushed g =
     \<lparr>mb_queue = g_messages_queue g, mb_locked = g_consumer_locked g, mb_unlocks = 0,
      mb_consumer = Parked, mb_done = done_so_far, mb_pushed = all_pushed\<rparr>"

lemma push_is_run:
  "mailbox_step\<^sup>*\<^sup>* (mailbox_of D A g) (mailbox_of D (A @ [m]) (addMessageToMessageQueue m g))"
proof -
  let ?s = "mailbox_of D A g"
  let ?t = "?s\<lparr>mb_queue := mb_queue ?s @ [m], mb_pushed := mb_pushed ?s @ [m], mb_unlocks := Suc (mb_unlocks ?s)\<rparr>"
  have "mailbox_step ?s ?t" by (rule mailbox_step.Push)
  moreover have "mailbox_step ?t (?t\<lparr>mb_unlocks := 0, mb_locked := False\<rparr>)"
    by (rule mailbox_step.Unlock) (simp add: mailbox_of_def)
  moreover have "?t\<lparr>mb_unlocks := 0, mb_locked := False\<rparr> = mailbox_of D (A @ [m]) (addMessageToMessageQueue m g)"
    by (simp add: mailbox_of_def addMessageToMessageQueue_def)
  ultimately show ?thesis by (simp add: converse_rtranclp_into_rtranclp)
qed

lemma drain_is_run:
  assumes "mb_consumer s = Draining"
  shows "mailbox_step\<^sup>*\<^sup>* s (s\<lparr>mb_queue := [], mb_done := mb_done s @ mb_queue s, mb_consumer := Parked\<rparr>)"
  using assms
proof (induction "mb_queue s" arbitrary: s)
  case Nil
  then have "mailbox_step s (s\<lparr>mb_consumer := Parked\<rparr>)" by (intro mailbox_step.Empty) simp_all
  moreover have "s\<lparr>mb_queue := [], mb_done := mb_done s @ mb_queue s, mb_consumer := Parked\<rparr> =
      s\<lparr>mb_consumer := Parked\<rparr>" using Nil by (cases s) simp
  ultimately show ?case by simp
next
  case (Cons m ms)
  let ?t = "s\<lparr>mb_consumer := Working m, mb_queue := ms\<rparr>"
  let ?u = "?t\<lparr>mb_consumer := Draining, mb_done := mb_done ?t @ [m]\<rparr>"
  have "mailbox_step s ?t" using Cons by (intro mailbox_step.Pop) simp_all
  moreover have "mailbox_step ?t ?u" by (rule mailbox_step.Finish) simp
  moreover have "mailbox_step\<^sup>*\<^sup>* ?u (?u\<lparr>mb_queue := [], mb_done := mb_done ?u @ mb_queue ?u, mb_consumer := Parked\<rparr>)"
    by (rule Cons.hyps(1)) simp_all
  moreover have "?u\<lparr>mb_queue := [], mb_done := mb_done ?u @ mb_queue ?u, mb_consumer := Parked\<rparr> =
      s\<lparr>mb_queue := [], mb_done := mb_done s @ mb_queue s, mb_consumer := Parked\<rparr>"
    using Cons.hyps(2) [symmetric] by simp
  ultimately show ?case
    by (metis (no_types, lifting) converse_rtranclp_into_rtranclp)
qed

lemma consume_loop_queue:
  "consume_loop e ms g w = Some (g', w') \<Longrightarrow>
   g_messages_queue g' = [] \<and> g_consumer_locked g' = g_consumer_locked g"
proof (induction ms arbitrary: g w)
  case Nil
  then show ?case by auto
next
  case (Cons m ms)
  then obtain w1 where "consume_loop e ms (g\<lparr>g_messages_queue := ms\<rparr>) w1 = Some (g', w')"
    by (auto simp: bind_iff)
  from Cons.IH [OF this] show ?case by simp
qed

lemma consume_is_run:
  assumes "consumeMessageQueue e (g, w) = Some (g', w')" and "\<not> g_consumer_locked g"
  shows "mailbox_step\<^sup>*\<^sup>* (mailbox_of D A g) (mailbox_of (D @ g_messages_queue g) A g')"
proof -
  let ?s = "mailbox_of D A g"
  let ?t = "?s\<lparr>mb_consumer := Draining, mb_locked := True\<rparr>"
  have g': "g_messages_queue g' = []" "g_consumer_locked g'"
    using assms consume_loop_queue [of e "g_messages_queue g" "g\<lparr>g_consumer_locked := True\<rparr>" w]
    by (auto simp: consumeMessageQueue_def)
  have "mailbox_step ?s ?t" using assms(2) by (intro mailbox_step.Lock) (simp_all add: mailbox_of_def)
  moreover have "mailbox_step\<^sup>*\<^sup>* ?t (?t\<lparr>mb_queue := [], mb_done := mb_done ?t @ mb_queue ?t, mb_consumer := Parked\<rparr>)"
    by (rule drain_is_run) simp
  moreover have "?t\<lparr>mb_queue := [], mb_done := mb_done ?t @ mb_queue ?t, mb_consumer := Parked\<rparr> =
      mailbox_of (D @ g_messages_queue g) A g'"
    using g' by (simp add: mailbox_of_def)
  ultimately show ?thesis by (metis (no_types, lifting) converse_rtranclp_into_rtranclp)
qed

subsection \<open>The queue of a client, with its acknowledgements\<close>

text \<open>
  \<open>src/client/client.cpp\<close>: \<open>sendToServer\<close> pushes what the user types, \<open>consumeMessagesToSendQueue\<close>
  sends one packet and then locks \<open>mutex_ack\<close>, which \<open>receiveFromServer\<close> unlocks for each
  \<open>ACK_PACKET\<close> it reads.
\<close>

datatype 'm sender = Idle | Looking | Sending 'm | Awaiting

record 'm outbox =
  ob_queue :: "'m list"
  ob_locked :: bool  \<comment> \<open>\<open>mutex_consumer\<close>\<close>
  ob_unlocks :: nat
  ob_sender :: "'m sender"
  ob_ack_locked :: bool  \<comment> \<open>\<open>mutex_ack\<close>\<close>
  ob_acks :: nat  \<comment> \<open>acknowledgements read so far\<close>
  ob_confirmed :: nat  \<comment> \<open>times the sender has got past \<open>mutex_ack\<close>\<close>
  ob_sent :: "'m list"
  ob_typed :: "'m list"

definition outbox0 :: "'m outbox" where
  "outbox0 = \<lparr>ob_queue = [], ob_locked = True, ob_unlocks = 0, ob_sender = Idle,
     ob_ack_locked = True, ob_acks = 0, ob_confirmed = 0, ob_sent = [], ob_typed = []\<rparr>"

inductive outbox_step :: "'m outbox \<Rightarrow> 'm outbox \<Rightarrow> bool" where
  Type: "outbox_step s (s\<lparr>ob_queue := ob_queue s @ [m], ob_typed := ob_typed s @ [m],
           ob_unlocks := Suc (ob_unlocks s)\<rparr>)"
| Unlock: "ob_unlocks s = Suc n \<Longrightarrow> outbox_step s (s\<lparr>ob_unlocks := n, ob_locked := False\<rparr>)"
| Lock: "ob_sender s = Idle \<Longrightarrow> \<not> ob_locked s \<Longrightarrow>
    outbox_step s (s\<lparr>ob_sender := Looking, ob_locked := True\<rparr>)"
| Pop: "ob_sender s = Looking \<Longrightarrow> ob_queue s = m # ms \<Longrightarrow>
    outbox_step s (s\<lparr>ob_sender := Sending m, ob_queue := ms\<rparr>)"
| Empty: "ob_sender s = Looking \<Longrightarrow> ob_queue s = [] \<Longrightarrow> outbox_step s (s\<lparr>ob_sender := Idle\<rparr>)"
| Send: "ob_sender s = Sending m \<Longrightarrow>
    outbox_step s (s\<lparr>ob_sender := Awaiting, ob_sent := ob_sent s @ [m]\<rparr>)"
| Ack: "outbox_step s (s\<lparr>ob_ack_locked := False, ob_acks := Suc (ob_acks s)\<rparr>)"
| Ack_Lock: "ob_sender s = Awaiting \<Longrightarrow> \<not> ob_ack_locked s \<Longrightarrow>
    outbox_step s (s\<lparr>ob_sender := Looking, ob_ack_locked := True, ob_confirmed := Suc (ob_confirmed s)\<rparr>)"

inductive_cases outbox_stepE: "outbox_step s t"

definition to_send :: "'m sender \<Rightarrow> 'm list" where
  "to_send c = (case c of Sending m \<Rightarrow> [m] | _ \<Rightarrow> [])"

lemma to_send_simps [simp]:
  "to_send Idle = []" "to_send Looking = []" "to_send (Sending m) = [m]" "to_send Awaiting = []"
  by (simp_all add: to_send_def)

definition outbox_inv :: "'m outbox \<Rightarrow> bool" where
  "outbox_inv s \<longleftrightarrow>
     length (ob_sent s) = ob_confirmed s + (if ob_sender s = Awaiting then 1 else 0) \<and>
     ob_confirmed s + (if ob_ack_locked s then 0 else 1) \<le> ob_acks s"

lemma outbox_inv_step: "outbox_inv s \<Longrightarrow> outbox_step s t \<Longrightarrow> outbox_inv t"
  by (erule outbox_stepE) (auto simp: outbox_inv_def split: if_splits)

lemma outbox_law:
  "outbox_step s t \<Longrightarrow>
    (\<exists>m. ob_typed t = ob_typed s @ [m] \<and> ob_queue t = ob_queue s @ [m] \<and>
      ob_sent t @ to_send (ob_sender t) = ob_sent s @ to_send (ob_sender s) \<and>
      (\<not> ob_locked t \<or> 0 < ob_unlocks t)) \<or>
    (\<exists>m. ob_typed t = ob_typed s \<and> ob_queue s = m # ob_queue t \<and>
      ob_sent t @ to_send (ob_sender t) = (ob_sent s @ to_send (ob_sender s)) @ [m] \<and>
      ob_sender t \<noteq> Idle) \<or>
    (ob_typed t = ob_typed s \<and> ob_queue t = ob_queue s \<and>
      ob_sent t @ to_send (ob_sender t) = ob_sent s @ to_send (ob_sender s) \<and>
      (ob_sender t = Idle \<longrightarrow> ob_queue t = [] \<or> ob_sender s = Idle \<and>
        ((\<not> ob_locked s \<or> 0 < ob_unlocks s) \<longrightarrow> (\<not> ob_locked t \<or> 0 < ob_unlocks t))))"
  by (erule outbox_stepE) auto

interpretation client_queue: signalled_queue outbox_step outbox0 ob_typed
  "\<lambda>s. ob_sent s @ to_send (ob_sender s)" ob_queue "\<lambda>s. ob_sender s = Idle"
  "\<lambda>s. \<not> ob_locked s \<or> 0 < ob_unlocks s" outbox_inv
  by unfold_locales (simp add: outbox0_def outbox_inv_def, erule (1) outbox_inv_step, rule outbox_law)

definition outbox_reachable :: "'m outbox \<Rightarrow> bool" where
  "outbox_reachable s \<longleftrightarrow> outbox_step\<^sup>*\<^sup>* outbox0 s"

subsection \<open>The single slot of a front end\<close>

text \<open>
  \<open>src/proxy_fe/ProxyFE.cpp\<close>: every client thread that has read a message waits for
  \<open>processing_message_semaphore\<close> (one permit), stores its message in \<open>processing_message\<close> and
  unlocks \<open>mutex_consumer_message\<close>; the consumer locks it, forwards what the slot holds and
  posts the semaphore. The slot is not cleared.
\<close>

datatype forwarder = Asleep | Forwarding | Posting

record 'm slot =
  sl_free :: bool  \<comment> \<open>the permit is there\<close>
  sl_holder :: "'m option"  \<comment> \<open>message of the thread that has the permit and has not stored yet\<close>
  sl_packet :: "'m option"  \<comment> \<open>\<open>processing_message\<close>\<close>
  sl_unlocks :: nat
  sl_locked :: bool
  sl_forwarder :: forwarder
  sl_sent :: "'m list"
  sl_stored :: "'m list"

definition slot0 :: "'m slot" where
  "slot0 = \<lparr>sl_free = True, sl_holder = None, sl_packet = None, sl_unlocks = 0, sl_locked = True,
     sl_forwarder = Asleep, sl_sent = [], sl_stored = []\<rparr>"

inductive slot_step :: "'m slot \<Rightarrow> 'm slot \<Rightarrow> bool" where
  Acquire: "sl_free s \<Longrightarrow> slot_step s (s\<lparr>sl_free := False, sl_holder := Some m\<rparr>)"
| Store: "sl_holder s = Some m \<Longrightarrow>
    slot_step s (s\<lparr>sl_holder := None, sl_packet := Some m, sl_unlocks := Suc (sl_unlocks s),
                   sl_stored := sl_stored s @ [m]\<rparr>)"
| Unlock: "sl_unlocks s = Suc n \<Longrightarrow> slot_step s (s\<lparr>sl_unlocks := n, sl_locked := False\<rparr>)"
| Lock: "sl_forwarder s = Asleep \<Longrightarrow> \<not> sl_locked s \<Longrightarrow>
    slot_step s (s\<lparr>sl_forwarder := Forwarding, sl_locked := True\<rparr>)"
| Forward: "sl_forwarder s = Forwarding \<Longrightarrow> sl_packet s = Some m \<Longrightarrow>
    slot_step s (s\<lparr>sl_forwarder := Posting, sl_sent := sl_sent s @ [m]\<rparr>)"
| Post: "sl_forwarder s = Posting \<Longrightarrow>
    slot_step s (s\<lparr>sl_forwarder := Asleep, sl_free := True\<rparr>)"

inductive_cases slot_stepE: "slot_step s t"

definition slot_full :: "'m slot \<Rightarrow> bool" where
  "slot_full s \<longleftrightarrow> 0 < sl_unlocks s \<or> \<not> sl_locked s \<or> sl_forwarder s = Forwarding"

definition slot_queue :: "'m slot \<Rightarrow> 'm list" where
  "slot_queue s = (if slot_full s then (case sl_packet s of None \<Rightarrow> [] | Some m \<Rightarrow> [m]) else [])"

text \<open>Exactly one party holds the permit at any time.\<close>

definition slot_inv :: "'m slot \<Rightarrow> bool" where
  "slot_inv s \<longleftrightarrow>
     (if sl_free s then 1 else 0) + (if sl_holder s = None then 0 else 1) + sl_unlocks s +
     (if sl_locked s then 0 else 1) + (if sl_forwarder s = Asleep then 0 else 1) = (1::nat) \<and>
     (slot_full s \<longrightarrow> sl_packet s \<noteq> None)"

lemma slot_inv_step: "slot_inv s \<Longrightarrow> slot_step s t \<Longrightarrow> slot_inv t"
  by (erule slot_stepE) (auto simp: slot_inv_def slot_full_def split: if_splits)

lemma slot_law:
  "slot_inv s \<Longrightarrow> slot_step s t \<Longrightarrow>
    (\<exists>m. sl_stored t = sl_stored s @ [m] \<and> slot_queue t = slot_queue s @ [m] \<and>
      sl_sent t = sl_sent s \<and> (\<not> sl_locked t \<or> 0 < sl_unlocks t)) \<or>
    (\<exists>m. sl_stored t = sl_stored s \<and> slot_queue s = m # slot_queue t \<and>
      sl_sent t = sl_sent s @ [m] \<and> sl_forwarder t \<noteq> Asleep) \<or>
    (sl_stored t = sl_stored s \<and> slot_queue t = slot_queue s \<and> sl_sent t = sl_sent s \<and>
      (sl_forwarder t = Asleep \<longrightarrow> slot_queue t = [] \<or> sl_forwarder s = Asleep \<and>
        ((\<not> sl_locked s \<or> 0 < sl_unlocks s) \<longrightarrow> (\<not> sl_locked t \<or> 0 < sl_unlocks t))))"
  by (erule slot_stepE) (auto simp: slot_inv_def slot_queue_def slot_full_def split: if_splits option.splits)

interpretation fe_slot: signalled_queue slot_step slot0 sl_stored sl_sent slot_queue
  "\<lambda>s. sl_forwarder s = Asleep" "\<lambda>s. \<not> sl_locked s \<or> 0 < sl_unlocks s" slot_inv
  by unfold_locales
    (simp add: slot0_def slot_inv_def slot_queue_def slot_full_def, erule (1) slot_inv_step, erule (1) slot_law)

definition slot_reachable :: "'m slot \<Rightarrow> bool" where
  "slot_reachable s \<longleftrightarrow> slot_step\<^sup>*\<^sup>* slot0 s"

end
