(* ===== verification/Proxy_FE.thy ===== *)
theory Proxy_FE
  imports Handoff Keep_Alive
begin

section \<open>The front end\<close>

text \<open>
  \<open>src/proxy_fe/ProxyFE.cpp\<close>: the proxy between the clients and the primary server. It keeps two
  tables, from client identifiers to sockets and back, forwards packets both ways, and waits for
  the next primary when it loses its server. Each handler is a function on the state; \<open>None\<close> is
  undefined behaviour, or a \<open>sendToServer\<close> that does not return within the attempts given.

  \<open>px_attempts\<close> is what the environment answers to the successive \<open>sendPacket\<close> calls towards the
  server: the value of \<open>serverRM_socket\<close> at that time and whether the write succeeds. The single
  slot by which messages reach the forwarding thread is theory \<open>Handoff\<close>; here
  \<open>px_stored\<close> is what has been stored in it, in order.
\<close>

record proxy =
  px_usersMap :: "(string, socket) cmap"
  px_socketsMap :: "(socket, string) cmap"
  px_monitor :: alive_times
  px_sent :: "(socket \<times> packet) list"
  px_attempts :: "(socket \<times> bool) list"
  px_stored :: "packet list"
  px_serverRM_socket :: socket
  px_online :: bool
  px_reconnect_locked :: bool  \<comment> \<open>\<open>mutex_server_reconnect\<close>\<close>
  px_accepting :: bool  \<comment> \<open>some thread is in \<open>handleServerConnection\<close>\<close>
  px_closed :: "socket list"
  px_shut :: "socket list"

definition ProxyFE :: "(socket \<times> bool) list \<Rightarrow> proxy" where
  \<comment> \<open>after the constructor; the main thread then enters \<open>handleServerConnection\<close>\<close>
  "ProxyFE attempts = \<lparr>px_usersMap = [], px_socketsMap = [], px_monitor = [], px_sent = [],
     px_attempts = attempts, px_stored = [], px_serverRM_socket = 0, px_online = False,
     px_reconnect_locked = True, px_accepting = True, px_closed = [], px_shut = []\<rparr>"

subsection \<open>Sending to the server\<close>

text \<open>
  The loop of \<open>sendToServer\<close>: a failed write shuts the socket down, waits a second and tries
  again with whatever \<open>serverRM_socket\<close> is by then.
\<close>

fun sendToServer :: "packet \<Rightarrow> (socket \<times> bool) list \<Rightarrow> proxy \<Rightarrow> proxy option" where
  "sendToServer p [] px = None"
| "sendToServer p ((sock, success) # attempts) px =
     (if success then Some (px\<lparr>px_attempts := attempts, px_sent := px_sent px @ [(sock, p)]\<rparr>)
      else sendToServer p attempts (px\<lparr>px_shut := px_shut px @ [sock]\<rparr>))"

definition disconnectUser :: "env \<Rightarrow> string \<Rightarrow> proxy \<Rightarrow> proxy option" where
  "disconnectUser e userID px = do {
     disconnect_packet \<leftarrow> Packet_for_user (e_mem e) (e_uuid e) DISCONNECT_PACKET userID;
     sendToServer disconnect_packet (px_attempts px) px
   }"

subsection \<open>Packets from the server\<close>

definition to_user :: "string \<Rightarrow> packet \<Rightarrow> proxy \<Rightarrow> proxy" where
  \<comment> \<open>the common tail of the cases: look the user up, send unless the socket is 0\<close>
  "to_user userID p px =
     (let (clientSocket, users) = map_index 0 (px_usersMap px) userID;
          px1 = px\<lparr>px_usersMap := users\<rparr>
      in if clientSocket \<noteq> 0 then px1\<lparr>px_sent := px_sent px1 @ [(clientSocket, p)]\<rparr> else px1)"

definition processServerPacket :: "env \<Rightarrow> packet \<Rightarrow> socket \<Rightarrow> proxy \<Rightarrow> proxy option" where
  "processServerPacket e p sock px =
     (if p_type p = MESSAGE_PACKET then do {
        userID \<leftarrow> c_str (p_user_id p);
        Some (to_user userID p px)
      }
      else if p_type p = KEEP_ALIVE_PACKET then
        Some (px\<lparr>px_monitor := refresh (e_now e) sock (px_monitor px)\<rparr>)
      else if p_type p = ACCEPT_PACKET then do {
        userID \<leftarrow> c_str (p_user_id p);
        reply \<leftarrow> Packet_of_type (e_mem e) (e_uuid e) ACCEPT_PACKET;
        Some (to_user userID reply px)
      }
      else if p_type p = CONNECTION_REFUSED_PACKET then do {
        userID \<leftarrow> c_str (p_user_id p);
        reply \<leftarrow> Packet_of_type (e_mem e) (e_uuid e) CONNECTION_REFUSED_PACKET;
        Some (to_user userID reply px)
      }
      else if p_type p = ACK_PACKET then do {
        userID \<leftarrow> c_str (p_user_id p);
        reply \<leftarrow> Packet_of_type (e_mem e) (e_uuid e) ACK_PACKET;
        Some (to_user userID reply px)
      }
      else Some px)"

subsection \<open>Packets from the clients\<close>

definition registerUserSocket :: "packet \<Rightarrow> socket \<Rightarrow> proxy \<Rightarrow> proxy option" where
  "registerUserSocket p sock px = do {
     userID \<leftarrow> c_str (p_user_id p);
     let px1 = px\<lparr>px_usersMap := map_assign (px_usersMap px) userID sock,
                   px_socketsMap := map_assign (px_socketsMap px) sock userID\<rparr>;
     sendToServer (p\<lparr>p_clientSocket := word_of_int sock\<rparr>) (px_attempts px1) px1
   }"

definition processIncomingClientMessage :: "packet \<Rightarrow> proxy \<Rightarrow> proxy" where
  "processIncomingClientMessage message px = px\<lparr>px_stored := px_stored px @ [message]\<rparr>"

definition processClientPacket :: "timestamp \<Rightarrow> packet \<Rightarrow> socket \<Rightarrow> proxy \<Rightarrow> proxy option" where
  "processClientPacket now p sock px =
     (if p_type p = MESSAGE_PACKET then Some (processIncomingClientMessage p px)
      else if p_type p = KEEP_ALIVE_PACKET then
        Some (px\<lparr>px_monitor := refresh now sock (px_monitor px)\<rparr>)
      else if p_type p = JOIN_PACKET then registerUserSocket p sock px
      else Some px)"

definition forwardMessage :: "packet \<Rightarrow> proxy \<Rightarrow> proxy option" where
  \<comment> \<open>one round of \<open>handleProcessingMessage\<close>\<close>
  "forwardMessage processing_message px = sendToServer processing_message (px_attempts px) px"

subsection \<open>Losing a connection\<close>

definition handleSocketDisconnection :: "socket \<Rightarrow> proxy \<Rightarrow> proxy" where
  "handleSocketDisconnection sock px =
     (let userID = fst (map_index [] (px_socketsMap px) sock);
          sockets = map_erase (snd (map_index [] (px_socketsMap px) sock)) sock
      in px\<lparr>px_monitor := killSocket sock (px_monitor px), px_socketsMap := sockets,
             px_usersMap := map_erase (px_usersMap px) userID, px_closed := px_closed px @ [sock]\<rparr>)"

definition handleServerDisconnection :: "socket \<Rightarrow> proxy \<Rightarrow> proxy" where
  "handleServerDisconnection sock px =
     (handleSocketDisconnection sock px)\<lparr>px_online := False, px_reconnect_locked := False\<rparr>"

definition handleServerConnection :: "socket \<Rightarrow> proxy \<Rightarrow> int \<times> proxy" where
  \<comment> \<open>\<open>newsockfd\<close> is what \<open>accept\<close> returned\<close>
  "handleServerConnection newsockfd px =
     (if newsockfd = -1 then (-1, px\<lparr>px_reconnect_locked := False, px_accepting := False\<rparr>)
      else (0, px\<lparr>px_serverRM_socket := newsockfd, px_online := True, px_accepting := False\<rparr>))"

definition listenServerReconnect :: "proxy \<Rightarrow> proxy option" where
  \<comment> \<open>the lock at the head of the loop; \<open>None\<close> while the mutex is not free\<close>
  "listenServerReconnect px =
     (if px_reconnect_locked px then None
      else Some (px\<lparr>px_reconnect_locked := True, px_accepting := True\<rparr>))"

definition monitorConnectionKeepAlive :: "socket \<Rightarrow> proxy \<Rightarrow> proxy" where
  \<comment> \<open>once \<open>monitor\<close> has returned and erased the entry\<close>
  "monitorConnectionKeepAlive sock px =
     px\<lparr>px_monitor := map_erase (px_monitor px) sock, px_shut := px_shut px @ [sock]\<rparr>"

text \<open>
  The thread of one client from its first packet to its end, without the packets of the others
  in between. The buffer \<open>userID\<close> takes the identifier of the first packet, whatever its type.
\<close>

definition first_userID :: "packet list \<Rightarrow> string option option" where
  "first_userID ps = (case ps of [] \<Rightarrow> Some None | p # _ \<Rightarrow> map_option Some (c_str (p_user_id p)))"

definition listenClientCommunication ::
    "env \<Rightarrow> packet list \<Rightarrow> socket \<Rightarrow> proxy \<Rightarrow> proxy option" where
  "listenClientCommunication e ps sock px = do {
     known \<leftarrow> first_userID ps;
     px1 \<leftarrow> foldM (\<lambda>p. processClientPacket (e_now e) p sock) ps px;
     px2 \<leftarrow> (case known of None \<Rightarrow> Some px1 | Some userID \<Rightarrow> disconnectUser e userID px1);
     Some (handleSocketDisconnection sock px2)
   }"

subsection \<open>A send to the server\<close>

lemma sendToServer_returns_iff:
  "(\<exists>px'. sendToServer p attempts px = Some px') \<longleftrightarrow> (\<exists>a\<in>set attempts. snd a)"
  by (induction p attempts px rule: sendToServer.induct) auto

lemma sendToServer_char:
  assumes "sendToServer p attempts px = Some px'"
  shows "\<exists>failed sock later. attempts = failed @ (sock, True) # later \<and> (\<forall>a\<in>set failed. \<not> snd a) \<and>
    px' = px\<lparr>px_attempts := later, px_sent := px_sent px @ [(sock, p)],
              px_shut := px_shut px @ map fst failed\<rparr>"
  using assms
proof (induction p attempts px rule: sendToServer.induct)
  case (1 p px)
  then show ?case by simp
next
  case (2 p sock success attempts px)
  show ?case
  proof (cases success)
    case True
    then show ?thesis using 2 by (intro exI [of _ "[]"] exI [of _ sock] exI [of _ attempts]) auto
  next
    case False
    then obtain failed s later where "attempts = failed @ (s, True) # later" "\<forall>a\<in>set failed. \<not> snd a"
        "px' = px\<lparr>px_shut := px_shut px @ [sock], px_attempts := later, px_sent := px_sent px @ [(s, p)],
          px_shut := (px_shut px @ [sock]) @ map fst failed\<rparr>"
      using 2 by auto
    then show ?thesis using False
      by (intro exI [of _ "(sock, False) # failed"] exI [of _ s] exI [of _ later]) auto
  qed
qed

lemma sendToServer_tables:
  assumes "sendToServer p attempts px = Some px'"
  shows "px_usersMap px' = px_usersMap px \<and> px_socketsMap px' = px_socketsMap px \<and>
    px_online px' = px_online px \<and> px_reconnect_locked px' = px_reconnect_locked px \<and>
    px_accepting px' = px_accepting px \<and> px_stored px' = px_stored px \<and> px_closed px' = px_closed px"
  using sendToServer_char [OF assms] by auto

subsection \<open>The two tables\<close>

text \<open>
  Socket 0 stands for \<open>not connected\<close> in the table of users, where looking up an unknown user
  leaves it. The invariant: the entries with a socket are the same in both tables, and the empty
  identifier, which the second table gives for an unknown socket, has none.
\<close>

definition tables_ok :: "proxy \<Rightarrow> bool" where
  "tables_ok px \<longleftrightarrow> map_wf (px_usersMap px) \<and> map_wf (px_socketsMap px) \<and>
     (\<forall>u s. s \<noteq> 0 \<longrightarrow>
        (map_find (px_usersMap px) u = Some s \<longleftrightarrow> map_find (px_socketsMap px) s = Some u)) \<and>
     map_find (px_usersMap px) [] \<in> {None, Some 0}"

datatype proxy_event =
    Client_Packet timestamp packet socket
  | Client_Ends env "string option" socket
      \<comment> \<open>the identifier its thread knows, its socket\<close>
  | Server_Packet env packet socket
  | Server_Lost socket
  | Server_Accepted socket
  | Reconnect_Locks
  | Forward packet
  | Times_Out socket

fun proxy_step :: "proxy_event \<Rightarrow> proxy \<Rightarrow> proxy option" where
  "proxy_step (Client_Packet now p sock) px = processClientPacket now p sock px"
| "proxy_step (Client_Ends e known sock) px = map_option (handleSocketDisconnection sock)
     (case known of None \<Rightarrow> Some px | Some userID \<Rightarrow> disconnectUser e userID px)"
| "proxy_step (Server_Packet e p sock) px = processServerPacket e p sock px"
| "proxy_step (Server_Lost sock) px = Some (handleServerDisconnection sock px)"
| "proxy_step (Server_Accepted sock) px =
     (if px_accepting px then Some (snd (handleServerConnection sock px)) else None)"
| "proxy_step Reconnect_Locks px = listenServerReconnect px"
| "proxy_step (Forward p) px = forwardMessage p px"
| "proxy_step (Times_Out sock) px = Some (monitorConnectionKeepAlive sock px)"

text \<open>
  What the environment guarantees: sockets of clients are positive, a client joins under an
  identifier and on a socket that no other live client uses, and the lost server's socket is no
  client's.
\<close>

fun proxy_may :: "proxy_event \<Rightarrow> proxy \<Rightarrow> bool" where
  "proxy_may (Client_Packet now p sock) px \<longleftrightarrow> 0 < sock \<and>
     (p_type p = JOIN_PACKET \<longrightarrow> (case c_str (p_user_id p) of None \<Rightarrow> True
        | Some u \<Rightarrow> u \<noteq> [] \<and> map_find (px_socketsMap px) sock \<in> {None, Some u} \<and>
            map_find (px_usersMap px) u \<in> {None, Some 0, Some sock}))"
| "proxy_may (Client_Ends e known sock) px \<longleftrightarrow> 0 < sock"
| "proxy_may (Server_Lost sock) px \<longleftrightarrow> 0 < sock \<and> map_find (px_socketsMap px) sock = None"
| "proxy_may _ px = True"

lemma tables_okD:
  assumes "tables_ok px"
  shows "map_wf (px_usersMap px)" "map_wf (px_socketsMap px)"
    "\<And>u s. s \<noteq> 0 \<Longrightarrow> map_find (px_usersMap px) u = Some s \<longleftrightarrow> map_find (px_socketsMap px) s = Some u"
    "map_find (px_usersMap px) [] \<in> {None, Some 0}"
  using assms by (auto simp: tables_ok_def)

lemma tables_ok_cong:
  "px_usersMap px' = px_usersMap px \<Longrightarrow> px_socketsMap px' = px_socketsMap px \<Longrightarrow>
   tables_ok px' = tables_ok px"
  by (simp add: tables_ok_def)

lemma tables_ok_ProxyFE: "tables_ok (ProxyFE attempts)"
  by (simp add: tables_ok_def ProxyFE_def)

lemma to_user_tables:
  assumes "tables_ok px"
  shows "tables_ok (to_user u p px)"
proof -
  have "map_find (snd (map_index 0 (px_usersMap px) u)) v = Some s \<longleftrightarrow>
      map_find (px_usersMap px) v = Some s" if "s \<noteq> 0" for v s
    using that by (cases "map_find (px_usersMap px) u")
      (auto simp: map_find_index map_index_value split: if_splits)
  moreover have "map_find (snd (map_index 0 (px_usersMap px) u)) [] \<in> {None, Some 0}"
    using tables_okD(4) [OF assms] by (auto simp: map_find_index map_index_value split: option.splits)
  ultimately show ?thesis
    using assms by (simp add: tables_ok_def to_user_def case_prod_beta Let_def)
qed

lemma processServerPacket_tables:
  assumes "processServerPacket e p sock px = Some px'" and "tables_ok px"
  shows "tables_ok px'"
proof -
  have "px' = px \<or> (\<exists>m. px' = px\<lparr>px_monitor := m\<rparr>) \<or> (\<exists>u q. px' = to_user u q px)"
    using assms(1) by (auto simp: processServerPacket_def bind_iff split: if_splits)
  then show ?thesis
    using assms(2) to_user_tables [OF assms(2)] by (auto simp: tables_ok_def)
qed

lemma registerUserSocket_tables:
  assumes reg: "registerUserSocket p sock px = Some px'" and ok: "tables_ok px" and s: "0 < sock"
    and uid: "c_str (p_user_id p) = Some u" "u \<noteq> []"
    and free: "map_find (px_socketsMap px) sock \<in> {None, Some u}"
      "map_find (px_usersMap px) u \<in> {None, Some 0, Some sock}"
  shows "tables_ok px' \<and> map_find (px_usersMap px') u = Some sock"
proof -
  let ?px = "px\<lparr>px_usersMap := map_assign (px_usersMap px) u sock,
    px_socketsMap := map_assign (px_socketsMap px) sock u\<rparr>"
  have t: "px_usersMap px' = px_usersMap ?px" "px_socketsMap px' = px_socketsMap ?px"
    using reg uid sendToServer_tables by (fastforce simp: registerUserSocket_def Let_def)+
  note d = tables_okD [OF ok]
  have "map_find (px_usersMap ?px) v = Some x \<longleftrightarrow> map_find (px_socketsMap ?px) x = Some v"
    if "x \<noteq> 0" for v x
    using d(3) [OF that, of v] d(3) [of sock v] d(3) [of x u] free s that by auto
  then have "tables_ok ?px" using d(1,2,4) uid(2) unfolding tables_ok_def by fastforce
  then show ?thesis using t tables_ok_cong [of px' ?px] by simp
qed

lemma handleSocketDisconnection_tables:
  assumes ok: "tables_ok px" and s: "0 < sock"
  shows "tables_ok (handleSocketDisconnection sock px)"
proof -
  note d = tables_okD [OF ok]
  have idx: "fst (map_index [] (px_socketsMap px) sock) =
      (case map_find (px_socketsMap px) sock of None \<Rightarrow> [] | Some u \<Rightarrow> u)"
    by (simp add: map_index_value)
  define u where "u = (case map_find (px_socketsMap px) sock of None \<Rightarrow> [] | Some u \<Rightarrow> u)"
  have find: "map_find (map_erase (snd (map_index [] (px_socketsMap px) sock)) sock) x =
      (if x = sock then None else map_find (px_socketsMap px) x)" for x
    using d(2) by (simp add: map_find_index split: option.split)
  have wf: "map_wf (map_erase (snd (map_index [] (px_socketsMap px) sock)) sock)"
    using d(2) by (intro map_erase_wf map_index_wf)
  have "(map_find (map_erase (px_usersMap px) u) v = Some x) \<longleftrightarrow>
      ((if x = sock then None else map_find (px_socketsMap px) x) = Some v)" if "x \<noteq> 0" for v x
  proof (cases "map_find (px_socketsMap px) sock")
    case None
    then show ?thesis using d(1) d(3) [OF that, of v] d(4) that by (auto simp: u_def)
  next
    case (Some w)
    have w: "map_find (px_usersMap px) w = Some sock" using d(3) [of sock w] Some s by simp
    show ?thesis
    proof (cases "v = w")
      case True
      then show ?thesis using d(1) d(3) [OF that, of w] w Some by (auto simp: u_def)
    next
      case False
      then show ?thesis using d(1) d(3) [OF that, of v] Some by (auto simp: u_def)
    qed
  qed
  then show ?thesis
    using d(1,4) wf unfolding tables_ok_def handleSocketDisconnection_def Let_def idx u_def [symmetric]
    by (auto simp: find)
qed

lemma tables_step:
  assumes ok: "tables_ok px" and step: "guarded proxy_may proxy_step ev px = Some px'"
  shows "tables_ok px'"
proof -
  have may: "proxy_may ev px" and st: "proxy_step ev px = Some px'"
    using step by (simp_all add: guarded_Some)
  have same: "sendToServer p at q = Some q' \<Longrightarrow> tables_ok q \<Longrightarrow> tables_ok q'" for p at q q'
    using sendToServer_tables [of p at q q'] tables_ok_cong [of q' q] by simp
  show ?thesis
  proof (cases ev)
    case (Client_Packet now p sock)
    then have s: "0 < sock" and st: "processClientPacket now p sock px = Some px'"
      using may st by simp_all
    consider "px' = px \<or> (\<exists>m. px' = px\<lparr>px_monitor := m\<rparr>) \<or> (\<exists>ms. px' = px\<lparr>px_stored := ms\<rparr>)"
      | "p_type p = JOIN_PACKET" "registerUserSocket p sock px = Some px'"
      using st by (auto simp: processClientPacket_def processIncomingClientMessage_def split: if_splits)
    then show ?thesis
    proof cases
      case 1
      then show ?thesis using ok by (auto simp: tables_ok_def)
    next
      case 2
      then obtain u where u: "c_str (p_user_id p) = Some u"
        by (auto simp: registerUserSocket_def bind_iff)
      then show ?thesis
        using registerUserSocket_tables [OF 2(2) ok s u] u may 2(1) Client_Packet by simp
    qed
  next
    case (Client_Ends e known sock)
    then obtain q where q: "(case known of None \<Rightarrow> Some px | Some userID \<Rightarrow> disconnectUser e userID px) = Some q"
      and px': "px' = handleSocketDisconnection sock q"
      using st by auto
    have okq: "tables_ok q"
      using q ok same by (auto simp: disconnectUser_def bind_iff split: option.splits)
    show ?thesis using handleSocketDisconnection_tables [OF okq] may Client_Ends px' by simp
  next
    case (Server_Packet e p sock)
    then show ?thesis using processServerPacket_tables st ok by simp
  next
    case (Server_Lost sock)
    then have "tables_ok (handleSocketDisconnection sock px)"
      using may by (intro handleSocketDisconnection_tables [OF ok]) auto
    moreover have "px' = (handleSocketDisconnection sock px)\<lparr>px_online := False, px_reconnect_locked := False\<rparr>"
      using st Server_Lost by (simp add: handleServerDisconnection_def)
    ultimately show ?thesis by (simp add: tables_ok_def)
  next
    case (Server_Accepted sock)
    then show ?thesis using st ok by (auto simp: handleServerConnection_def tables_ok_def split: if_splits)
  next
    case Reconnect_Locks
    then show ?thesis using st ok by (auto simp: listenServerReconnect_def tables_ok_def split: if_splits)
  next
    case (Forward p)
    then show ?thesis using st ok same by (auto simp: forwardMessage_def)
  next
    case (Times_Out sock)
    then show ?thesis using st ok by (auto simp: monitorConnectionKeepAlive_def tables_ok_def)
  qed
qed

interpretation proxy: event_machine "guarded proxy_may proxy_step" "\<lambda>_. True" tables_ok
  by unfold_locales (rule tables_step)

text \<open>No two users share a socket, and no two sockets a user.\<close>

lemma tables_ok_injective:
  assumes "tables_ok px" and "s \<noteq> 0"
    and "map_find (px_usersMap px) u = Some s" and "map_find (px_usersMap px) v = Some s"
  shows "u = v"
proof -
  have "map_find (px_socketsMap px) s = Some u" "map_find (px_socketsMap px) s = Some v"
    using assms tables_okD(3) by blast+
  then show ?thesis by simp
qed

lemma handleSocketDisconnection_forgets:
  assumes ok: "tables_ok px" and s: "0 < sock" and u: "map_find (px_usersMap px) u = Some sock"
  shows "map_find (px_usersMap (handleSocketDisconnection sock px)) u = None \<and>
    map_find (px_socketsMap (handleSocketDisconnection sock px)) sock = None \<and>
    (\<forall>v. v \<noteq> u \<longrightarrow>
      map_find (px_usersMap (handleSocketDisconnection sock px)) v = map_find (px_usersMap px) v)"
proof -
  note d = tables_okD [OF ok]
  have so: "map_find (px_socketsMap px) sock = Some u" using d(3) [of sock u] s u by simp
  then have "fst (map_index [] (px_socketsMap px) sock) = u" by (simp add: map_index_value)
  then show ?thesis using d(1,2) by (simp add: handleSocketDisconnection_def Let_def)
qed

subsection \<open>Delivery to a user\<close>

lemma to_user_sent:
  "px_sent (to_user u p px) = px_sent px @
     (case map_find (px_usersMap px) u of None \<Rightarrow> []
      | Some s \<Rightarrow> if s = 0 then [] else [(s, p)])"
  by (simp add: to_user_def case_prod_beta Let_def map_index_value split: option.split)

subsection \<open>The thread of a client\<close>

text \<open>
  Whatever a client sends, when its thread ends the server has been told, and the socket is gone
  from the tables.
\<close>

definition joins_and_messages :: "packet list \<Rightarrow> packet list \<times> packet list" where
  "joins_and_messages ps =
     (filter (\<lambda>p. p_type p = JOIN_PACKET) ps, filter (\<lambda>p. p_type p = MESSAGE_PACKET) ps)"

lemma processClientPacket_stored:
  "processClientPacket now p sock px = Some px' \<Longrightarrow>
   px_stored px' = px_stored px @ (if p_type p = MESSAGE_PACKET then [p] else [])"
  by (auto simp: processClientPacket_def processIncomingClientMessage_def registerUserSocket_def
      bind_iff Let_def dest!: sendToServer_tables split: if_splits)

lemma client_run_stored:
  "foldM (\<lambda>p. processClientPacket now p sock) ps px = Some px' \<Longrightarrow>
   px_stored px' = px_stored px @ snd (joins_and_messages ps)"
proof (induction ps arbitrary: px)
  case Nil
  then show ?case by (simp add: joins_and_messages_def)
next
  case (Cons p ps)
  then obtain q where "processClientPacket now p sock px = Some q"
      "foldM (\<lambda>p. processClientPacket now p sock) ps q = Some px'"
    by (auto simp: bind_iff)
  then show ?case
    using Cons.IH [of q] processClientPacket_stored [of now p sock px q]
    by (simp add: joins_and_messages_def)
qed

lemma listenClientCommunication_ends:
  assumes run: "listenClientCommunication e (p # ps) sock px = Some px'"
    and uid: "c_str (p_user_id p) = Some u" and mem: "packet_sized (e_mem e)"
  shows "px_stored px' = px_stored px @ snd (joins_and_messages (p # ps)) \<and>
    sock \<in> set (px_closed px') \<and>
    (\<exists>d server rest. px_sent px' = rest @ [(server, d)] \<and>
      p_type d = DISCONNECT_PACKET \<and> c_str (p_user_id d) = Some u)"
proof -
  obtain q1 q2 where q1: "foldM (\<lambda>p. processClientPacket (e_now e) p sock) (p # ps) px = Some q1"
    and q2: "disconnectUser e u q1 = Some q2" and px': "px' = handleSocketDisconnection sock q2"
    using run uid unfolding listenClientCommunication_def first_userID_def
    by (auto simp: bind_iff simp del: foldM.simps)
  obtain d where d: "Packet_for_user (e_mem e) (e_uuid e) DISCONNECT_PACKET u = Some d"
    and send: "sendToServer d (px_attempts q1) q1 = Some q2"
    using q2 by (auto simp: disconnectUser_def bind_iff)
  have "p_type d = DISCONNECT_PACKET" using d by (auto simp: Packet_for_user_def bind_iff)
  moreover have "c_str (p_user_id d) = Some u"
    using d c_str_no_NUL [OF uid] by (auto simp: Packet_for_user_def bind_iff intro: c_str_strcpy)
  moreover obtain server where "px_sent q2 = px_sent q1 @ [(server, d)]"
    using sendToServer_char [OF send] by auto
  moreover have "px_stored q2 = px_stored q1" using sendToServer_tables [OF send] by simp
  ultimately show ?thesis
    using client_run_stored [OF q1]
    by (auto simp: px' handleSocketDisconnection_def Let_def)
qed

subsection \<open>Reconnection\<close>

text \<open>
  Whenever the front end is offline, a thread is accepting or the reconnecting thread can lock
  its mutex.
\<close>

definition reconnects :: "proxy \<Rightarrow> bool" where
  "reconnects px \<longleftrightarrow> px_online px \<or> px_accepting px \<or> \<not> px_reconnect_locked px"

lemma to_user_connection [simp]:
  "px_online (to_user u p px) = px_online px" "px_accepting (to_user u p px) = px_accepting px"
  "px_reconnect_locked (to_user u p px) = px_reconnect_locked px"
  by (simp_all add: to_user_def case_prod_beta Let_def)

lemma handleSocketDisconnection_connection [simp]:
  "px_online (handleSocketDisconnection s px) = px_online px"
  "px_accepting (handleSocketDisconnection s px) = px_accepting px"
  "px_reconnect_locked (handleSocketDisconnection s px) = px_reconnect_locked px"
  by (simp_all add: handleSocketDisconnection_def Let_def)

fun_cases proxy_stepE: "proxy_step ev px = Some px'"

lemma reconnects_step:
  assumes ok: "reconnects px" and step: "proxy_step ev px = Some px'"
  shows "reconnects px'"
  using step ok
  by (cases rule: proxy_stepE)
    (auto simp: processClientPacket_def processIncomingClientMessage_def registerUserSocket_def
      disconnectUser_def processServerPacket_def forwardMessage_def handleServerDisconnection_def
      handleServerConnection_def listenServerReconnect_def monitorConnectionKeepAlive_def
      eq_commute [of "Some px'"] bind_iff Let_def reconnects_def
      dest!: sendToServer_tables split: if_splits option.splits)

interpretation proxy_connection: event_machine proxy_step "\<lambda>_. True" reconnects
  by unfold_locales (rule reconnects_step)

end
