(* ===== verification/Proxy_Threads.thy ===== *)
theory Proxy_Threads
  imports Proxy_FE
begin

section \<open>The threads of a front end, and the switch it implements\<close>

text \<open>
  \<open>src/proxy_fe/ProxyFE.cpp\<close>: the thread that listens to the server and the thread that forwards
  messages, from start to end; both and the thread of a client are runs of the events of theory
  \<open>Proxy_FE\<close>. What the front end does for the rest of the system is a switch: a partial map from
  the identifiers of the connected clients to their sockets, by which the server's packets are
  routed. The two tables implement it.
\<close>

definition listenServerCommunication :: "(env \<times> packet) list \<Rightarrow> socket \<Rightarrow> proxy \<Rightarrow> proxy option" where
  \<comment> \<open>the packets the server sends until it is gone; each comes with the environment of its handling\<close>
  "listenServerCommunication received sock px = do {
     px1 \<leftarrow> foldM (\<lambda>(e, p) q. processServerPacket e p (px_serverRM_socket q) q) received
       (px\<lparr>px_serverRM_socket := sock\<rparr>);
     Some (handleServerDisconnection (px_serverRM_socket px1) px1)
   }"

definition handleProcessingMessage :: "packet list \<Rightarrow> proxy \<Rightarrow> proxy option" where
  \<comment> \<open>the messages the slot has held, one round of the loop for each\<close>
  "handleProcessingMessage processed px = foldM forwardMessage processed px"

subsection \<open>Threads as runs\<close>

lemma processServerPacket_server_socket:
  "processServerPacket e p sock px = Some px' \<Longrightarrow> px_serverRM_socket px' = px_serverRM_socket px"
  by (auto simp: processServerPacket_def to_user_def case_prod_beta Let_def bind_iff split: if_splits)

lemma server_packets_run:
  "px_serverRM_socket px = sock \<Longrightarrow>
   foldM (\<lambda>(e, p) q. processServerPacket e p (px_serverRM_socket q) q) received px =
     foldM proxy_step (map (\<lambda>(e, p). Server_Packet e p sock) received) px \<and>
   (\<forall>px'. foldM proxy_step (map (\<lambda>(e, p). Server_Packet e p sock) received) px = Some px' \<longrightarrow>
     px_serverRM_socket px' = sock)"
proof (induction received arbitrary: px)
  case Nil
  then show ?case by simp
next
  case (Cons x received)
  obtain e p where x: "x = (e, p)" by (cases x)
  show ?case
  proof (cases "processServerPacket e p sock px")
    case None
    then show ?thesis using Cons.prems x by simp
  next
    case (Some q)
    then show ?thesis
      using Cons.IH [of q] processServerPacket_server_socket [OF Some] Cons.prems x by simp
  qed
qed

lemma server_thread_run:
  "listenServerCommunication received sock px =
     foldM proxy_step (map (\<lambda>(e, p). Server_Packet e p sock) received @ [Server_Lost sock])
       (px\<lparr>px_serverRM_socket := sock\<rparr>)"
  using server_packets_run [of "px\<lparr>px_serverRM_socket := sock\<rparr>" sock received]
  by (cases "foldM proxy_step (map (\<lambda>(e, p). Server_Packet e p sock) received) (px\<lparr>px_serverRM_socket := sock\<rparr>)")
    (simp_all add: listenServerCommunication_def foldM_append)

lemma client_thread_run:
  assumes "first_userID ps = Some known"
  shows "listenClientCommunication e ps sock px =
    foldM proxy_step (map (\<lambda>p. Client_Packet (e_now e) p sock) ps @ [Client_Ends e known sock]) px"
proof -
  have "(\<lambda>p. proxy_step (Client_Packet (e_now e) p sock)) = (\<lambda>p. processClientPacket (e_now e) p sock)"
    by (intro ext) simp
  moreover have "Option.bind m (\<lambda>x. Some (f x)) = map_option f m" for m and f :: "proxy \<Rightarrow> proxy"
    by (cases m) simp_all
  ultimately show ?thesis
    using assms by (cases "foldM (\<lambda>p. processClientPacket (e_now e) p sock) ps px")
      (simp_all add: listenClientCommunication_def foldM_append foldM_map)
qed

lemma forwarding_thread_run:
  "handleProcessingMessage processed px = foldM proxy_step (map Forward processed) px"
proof -
  have "(\<lambda>p. proxy_step (Forward p)) = forwardMessage" by (intro ext) simp
  then show ?thesis by (simp add: handleProcessingMessage_def foldM_map)
qed

subsection \<open>The switch\<close>

definition switch :: "proxy \<Rightarrow> string \<Rightarrow> socket option" where
  "switch px u = (case map_find (px_usersMap px) u of None \<Rightarrow> None | Some s \<Rightarrow> if s = 0 then None else Some s)"

definition unplug :: "socket \<Rightarrow> (string \<Rightarrow> socket option) \<Rightarrow> string \<Rightarrow> socket option" where
  "unplug sock m u = (if m u = Some sock then None else m u)"

text \<open>What an event does to the switch: a join plugs a client in, a closed socket unplugs it.\<close>

fun switch_step :: "proxy_event \<Rightarrow> (string \<Rightarrow> socket option) \<Rightarrow> string \<Rightarrow> socket option" where
  "switch_step (Client_Packet now p sock) m =
     (if p_type p = JOIN_PACKET then
        (case c_str (p_user_id p) of None \<Rightarrow> m | Some u \<Rightarrow> m(u \<mapsto> sock)) else m)"
| "switch_step (Client_Ends e known sock) m = unplug sock m"
| "switch_step (Server_Lost sock) m = unplug sock m"
| "switch_step ev m = m"

lemma switch_cong: "px_usersMap px' = px_usersMap px \<Longrightarrow> switch px' = switch px"
  by (simp add: switch_def fun_eq_iff)

lemma switch_ProxyFE: "switch (ProxyFE attempts) = Map.empty"
  by (simp add: switch_def ProxyFE_def fun_eq_iff)

lemma switch_to_user [simp]: "switch (to_user u p px) = switch px"
  by (auto simp: switch_def to_user_def case_prod_beta Let_def map_find_index map_index_value fun_eq_iff
      split: option.splits)

lemma switch_handleSocketDisconnection:
  assumes ok: "tables_ok px" and s: "0 < sock"
  shows "switch (handleSocketDisconnection sock px) = unplug sock (switch px)"
proof
  fix v
  note d = tables_okD [OF ok]
  show "switch (handleSocketDisconnection sock px) v = unplug sock (switch px) v"
  proof (cases "\<exists>u. map_find (px_usersMap px) u = Some sock")
    case True
    then obtain u where u: "map_find (px_usersMap px) u = Some sock" by blast
    have "map_find (px_usersMap px) v = Some sock \<Longrightarrow> v = u"
      using tables_ok_injective [OF ok, of sock v u] u s by simp
    then show ?thesis
      using handleSocketDisconnection_forgets [OF ok s u] u s
      by (cases "v = u") (auto simp: switch_def unplug_def split: option.splits)
  next
    case False
    then have "map_find (px_socketsMap px) sock = None"
      using d(3) [of sock] s by (metis less_irrefl not_None_eq)
    then have "px_usersMap (handleSocketDisconnection sock px) = map_erase (px_usersMap px) []"
      by (simp add: handleSocketDisconnection_def Let_def map_index_value)
    then show ?thesis using False d(1,4)
      by (cases "v = []") (auto simp: switch_def unplug_def split: option.splits)
  qed
qed

lemma switch_registerUserSocket:
  assumes "registerUserSocket p sock px = Some px'" and "c_str (p_user_id p) = Some u" and "sock \<noteq> 0"
  shows "switch px' = (switch px)(u \<mapsto> sock)"
proof -
  have "px_usersMap px' = map_assign (px_usersMap px) u sock"
    using assms(1,2) sendToServer_tables by (fastforce simp: registerUserSocket_def Let_def)
  then show ?thesis using assms(3) by (auto simp: switch_def fun_eq_iff)
qed

lemma switch_proxy_step:
  assumes ok: "tables_ok px" and step: "guarded proxy_may proxy_step ev px = Some px'"
  shows "switch px' = switch_step ev (switch px)"
proof -
  have may: "proxy_may ev px" and st: "proxy_step ev px = Some px'"
    using step by (simp_all add: guarded_Some)
  have send: "sendToServer p at q = Some q' \<Longrightarrow> switch q' = switch q" for p at q q'
    using sendToServer_tables [of p at q q'] switch_cong [of q' q] by simp
  show ?thesis
  proof (cases ev)
    case (Client_Packet now p sock)
    show ?thesis
    proof (cases "p_type p = JOIN_PACKET")
      case True
      then have "registerUserSocket p sock px = Some px'"
        using st Client_Packet by (simp add: processClientPacket_def packet_type_defs)
      moreover then obtain u where "c_str (p_user_id p) = Some u" by (auto simp: registerUserSocket_def bind_iff)
      ultimately show ?thesis using switch_registerUserSocket may Client_Packet True by simp
    next
      case False
      then show ?thesis using st Client_Packet
        by (auto simp: processClientPacket_def processIncomingClientMessage_def intro!: switch_cong split: if_splits)
    qed
  next
    case (Client_Ends e known sock)
    then obtain q where q: "(case known of None \<Rightarrow> Some px | Some userID \<Rightarrow> disconnectUser e userID px) = Some q"
      and px': "px' = handleSocketDisconnection sock q"
      using st by auto
    have t: "px_usersMap q = px_usersMap px" "px_socketsMap q = px_socketsMap px"
      using q sendToServer_tables by (auto simp: disconnectUser_def bind_iff split: option.splits)
    then have "tables_ok q" "switch q = switch px" using ok tables_ok_cong [of q px] switch_cong [of q px] by simp_all
    then show ?thesis using switch_handleSocketDisconnection may Client_Ends px' by simp
  next
    case (Server_Packet e p sock)
    then show ?thesis using st
      by (auto simp: processServerPacket_def bind_iff intro: switch_cong split: if_splits)
  next
    case (Server_Lost sock)
    then have "switch (handleSocketDisconnection sock px) = unplug sock (switch px)"
      using may by (intro switch_handleSocketDisconnection [OF ok]) auto
    then show ?thesis using st Server_Lost
      by (auto simp: handleServerDisconnection_def switch_def fun_eq_iff)
  next
    case (Forward p)
    then show ?thesis using st send by (simp add: forwardMessage_def)
  qed (use st in \<open>auto simp: handleServerConnection_def listenServerReconnect_def monitorConnectionKeepAlive_def
      intro!: switch_cong split: if_splits\<close>)
qed

interpretation front_end: refined_machine
  "guarded proxy_may proxy_step" "\<lambda>_. True" tables_ok switch switch_step
  by unfold_locales (rule switch_proxy_step)

subsection \<open>Routing\<close>

text \<open>
  What the client of a packet gets from the front end: the chat message itself, or a fresh packet of
  the same type; other packets of the server are not passed on.
\<close>

definition client_reply :: "env \<Rightarrow> packet \<Rightarrow> packet option" where
  "client_reply e p =
     (if p_type p = MESSAGE_PACKET then Some p
      else if p_type p \<in> {ACCEPT_PACKET, CONNECTION_REFUSED_PACKET, ACK_PACKET}
        then Packet_of_type (e_mem e) (e_uuid e) (p_type p)
      else None)"

definition routed :: "(string \<Rightarrow> socket option) \<Rightarrow> env \<times> packet \<Rightarrow> (socket \<times> packet) list" where
  "routed m = (\<lambda>(e, p). case client_reply e p of None \<Rightarrow> []
     | Some q \<Rightarrow> (case m (the (c_str (p_user_id p))) of None \<Rightarrow> [] | Some s \<Rightarrow> [(s, q)]))"

lemma to_user_switch:
  "px_sent (to_user u p px) = px_sent px @ (case switch px u of None \<Rightarrow> [] | Some s \<Rightarrow> [(s, p)])"
  by (simp add: to_user_sent switch_def split: option.split)

lemma processServerPacket_routed:
  assumes "processServerPacket e p sock px = Some px'"
  shows "px_sent px' = px_sent px @ routed (switch px) (e, p)" and "switch px' = switch px"
proof -
  have "(\<exists>u q. c_str (p_user_id p) = Some u \<and> client_reply e p = Some q \<and> px' = to_user u q px) \<or>
    (client_reply e p = None \<and> px_sent px' = px_sent px \<and> px_usersMap px' = px_usersMap px)"
  proof -
    consider "p_type p = MESSAGE_PACKET" | "p_type p = KEEP_ALIVE_PACKET" | "p_type p = ACCEPT_PACKET"
      | "p_type p = CONNECTION_REFUSED_PACKET" | "p_type p = ACK_PACKET"
      | "p_type p \<notin> {MESSAGE_PACKET, KEEP_ALIVE_PACKET, ACCEPT_PACKET, CONNECTION_REFUSED_PACKET, ACK_PACKET}"
      by blast
    then show ?thesis
    proof cases
      case 6
      then show ?thesis using assms by (simp add: processServerPacket_def client_reply_def)
    qed (use assms in \<open>auto simp: processServerPacket_def client_reply_def packet_type_defs bind_iff\<close>)
  qed
  then show "px_sent px' = px_sent px @ routed (switch px) (e, p)" "switch px' = switch px"
    by (auto simp: routed_def to_user_switch intro: switch_cong)
qed

lemma server_packets_routed:
  "foldM proxy_step (map (\<lambda>(e, p). Server_Packet e p sock) received) px = Some px' \<Longrightarrow>
   px_sent px' = px_sent px @ concat (map (routed (switch px)) received) \<and> switch px' = switch px"
proof (induction received arbitrary: px)
  case Nil
  then show ?case by simp
next
  case (Cons x received)
  obtain e p where x: "x = (e, p)" by (cases x)
  then obtain q where "processServerPacket e p sock px = Some q"
      "foldM proxy_step (map (\<lambda>(e, p). Server_Packet e p sock) received) q = Some px'"
    using Cons.prems by (auto simp: bind_iff)
  then show ?case using Cons.IH [of q] processServerPacket_routed [of e p sock px q] x by simp
qed

text \<open>
  The thread of the server: it routes every packet in order, and when the server is gone the front
  end is offline and free to accept the next one, with every client still plugged in.
\<close>

lemma listenServerCommunication_routes:
  assumes run: "listenServerCommunication received sock px = Some px'"
  shows "px_sent px' = px_sent px @ concat (map (routed (switch px)) received) \<and>
    \<not> px_online px' \<and> \<not> px_reconnect_locked px' \<and> sock \<in> set (px_closed px')"
proof -
  let ?px = "px\<lparr>px_serverRM_socket := sock\<rparr>"
  obtain q where q: "foldM proxy_step (map (\<lambda>(e, p). Server_Packet e p sock) received) ?px = Some q"
    and px': "px' = handleServerDisconnection sock q"
    using run unfolding server_thread_run by (auto simp: foldM_append bind_iff)
  have "px_sent q = px_sent px @ concat (map (routed (switch px)) received)"
    using server_packets_routed [OF q] switch_cong [of ?px px] by simp
  then show ?thesis by (simp add: px' handleServerDisconnection_def handleSocketDisconnection_def Let_def)
qed

lemma listenServerCommunication_switch:
  assumes run: "listenServerCommunication received sock px = Some px'"
    and ok: "tables_ok px" and sock: "0 < sock" "map_find (px_socketsMap px) sock = None"
  shows "tables_ok px' \<and> switch px' = switch px"
proof -
  let ?px = "px\<lparr>px_serverRM_socket := sock\<rparr>"
  let ?es = "map (\<lambda>(e, p). Server_Packet e p sock) received"
  obtain q where q: "foldM proxy_step ?es ?px = Some q" and px': "px' = handleServerDisconnection sock q"
    using run unfolding server_thread_run by (auto simp: foldM_append bind_iff)
  have okpx: "tables_ok ?px" using ok tables_ok_cong [of ?px px] by simp
  have okq: "tables_ok q \<and> px_socketsMap q = px_socketsMap px"
    using q
  proof (rule foldM_invariant)
    show "tables_ok ?px \<and> px_socketsMap ?px = px_socketsMap px" using okpx by simp
    fix ev s s'
    assume "ev \<in> set ?es" and s: "tables_ok s \<and> px_socketsMap s = px_socketsMap px" and "proxy_step ev s = Some s'"
    then obtain e p where st: "processServerPacket e p sock s = Some s'" by auto
    then have "px_socketsMap s' = px_socketsMap s"
      by (auto simp: processServerPacket_def to_user_def case_prod_beta Let_def bind_iff split: if_splits)
    then show "tables_ok s' \<and> px_socketsMap s' = px_socketsMap px"
      using processServerPacket_tables [OF st] s by simp
  qed
  have none: "map_find (px_socketsMap q) sock = None" using okq sock(2) by simp
  have "switch q = switch px" using server_packets_routed [OF q] switch_cong [of ?px px] by simp
  moreover have "unplug sock (switch q) = switch q"
    using tables_okD(3) [of q sock] okq none sock(1) by (auto simp: unplug_def switch_def fun_eq_iff split: option.split)
  ultimately have "switch (handleSocketDisconnection sock q) = switch px"
    using switch_handleSocketDisconnection [of q sock] okq sock(1) by simp
  then have "switch px' = switch px" by (simp add: px' handleServerDisconnection_def switch_def fun_eq_iff)
  moreover have "tables_ok px'"
    using handleSocketDisconnection_tables [of q sock] okq sock(1)
      tables_ok_cong [of px' "handleSocketDisconnection sock q"]
    by (simp add: px' handleServerDisconnection_def)
  ultimately show ?thesis by simp
qed

text \<open>The thread returns when every packet for a client names it.\<close>

lemma listenServerCommunication_returns:
  assumes "\<forall>(e, p)\<in>set received. env_ok e \<and> c_str (p_user_id p) \<noteq> None"
  shows "\<exists>px'. listenServerCommunication received sock px = Some px'"
proof -
  have "\<exists>q. foldM proxy_step (map (\<lambda>(e, p). Server_Packet e p sock) received) s = Some q \<and> True" for s
  proof (rule foldM_progress)
    fix ev t
    assume "ev \<in> set (map (\<lambda>(e, p). Server_Packet e p sock) received)"
    then obtain e p where ev: "ev = Server_Packet e p sock" and ep: "(e, p) \<in> set received" by auto
    then obtain u where "env_ok e" "c_str (p_user_id p) = Some u" using assms by force
    moreover then have "\<exists>r. Packet_of_type (e_mem e) (e_uuid e) ty = Some r" for ty
      using Packet_of_type_defined [of "e_mem e" "e_uuid e" ty] by (auto simp: env_ok_def UUID_SIZE_def)
    then obtain f where "\<And>ty. Packet_of_type (e_mem e) (e_uuid e) ty = Some (f ty)" by metis
    ultimately show "\<exists>t'. proxy_step ev t = Some t' \<and> True" by (simp add: ev processServerPacket_def)
  qed simp
  then obtain q where "foldM proxy_step (map (\<lambda>(e, p). Server_Packet e p sock) received)
      (px\<lparr>px_serverRM_socket := sock\<rparr>) = Some q" by blast
  then show ?thesis by (simp add: server_thread_run foldM_append)
qed

end
