(* ===== verification/Clients.thy ===== *)
theory Clients
  imports Handoff Sockets
begin

section \<open>The client\<close>

text \<open>
  \<open>src/client/client.cpp\<close> and the name check of \<open>src/app/app_client.cpp\<close>: the address file and
  the choice of a front end, the packets a client builds, its registration, what it shows and how
  it pauses for acknowledgements (the threads of its queue are in theory \<open>Handoff\<close>).
\<close>

record client =
  cl_username :: string
  cl_group :: string
  cl_userId :: string  \<comment> \<open>the buffer \<open>userId\<close>, read as a C string\<close>
  cl_addresses :: "string list"
  cl_ports :: "string list"
  cl_sockfd :: socket

definition setUsername :: "string \<Rightarrow> client \<Rightarrow> client" where
  "setUsername username c = c\<lparr>cl_username := username\<rparr>"

definition setGroup :: "string \<Rightarrow> client \<Rightarrow> client" where
  "setGroup grp c = c\<lparr>cl_group := grp\<rparr>"

subsection \<open>Names\<close>

definition is_letter :: "char \<Rightarrow> bool" where
  "is_letter c \<longleftrightarrow> (65::nat) \<le> of_char c \<and> of_char c \<le> (90::nat) \<or>
     (97::nat) \<le> of_char c \<and> of_char c \<le> (122::nat)"

definition name_char :: "char \<Rightarrow> bool" where
  "name_char c \<longleftrightarrow> is_letter c \<or> is_digit c \<or> c = CHR ''.''"

definition name_regex :: "string \<Rightarrow> bool" where
  \<comment> \<open>a full match of \<open>[A-Za-z][A-Za-z0-9.]+\<close>\<close>
  "name_regex s = (case s of [] \<Rightarrow> False | c # cs \<Rightarrow> is_letter c \<and> cs \<noteq> [] \<and> list_all name_char cs)"

definition validateName :: "string \<Rightarrow> int" where
  "validateName name =
     (let nameLength = length name;
          isValidSize = (nameLength \<ge> 4 \<and> nameLength \<le> USERNAME_MAX_SIZE);
          isValidString = name_regex name
      in if isValidSize \<and> isValidString then 0 else -1)"

subsection \<open>Front ends to connect to\<close>

fun readFE_loop :: "nat \<Rightarrow> string list \<Rightarrow> string list \<times> string list \<Rightarrow> string list \<times> string list" where
  "readFE_loop i [] st = st"
| "readFE_loop i (line # ls) (addresses, ports) =
     readFE_loop ((i + 1) mod 2) ls
       (if i = 0 then (addresses @ [line], ports) else (addresses, ports @ [line]))"

definition readFEAddressesFile :: "string \<Rightarrow> client \<Rightarrow> client" where
  "readFEAddressesFile content c =
     (let (addresses, ports) = readFE_loop 0 (getlines CHR 0x0A content) (cl_addresses c, cl_ports c)
      in c\<lparr>cl_addresses := addresses, cl_ports := ports\<rparr>)"

definition chooseFE :: "nat \<Rightarrow> client \<Rightarrow> nat option" where
  \<comment> \<open>\<open>r\<close> is what \<open>rand\<close> returned; the remainder by 0 is undefined\<close>
  "chooseFE r c = (if cl_addresses c = [] then None else Some (r mod length (cl_addresses c)))"

definition strip_last :: "string \<Rightarrow> string \<Rightarrow> string option" where
  \<comment> \<open>an array as long as the line, all but its last character copied, then the terminator\<close>
  "strip_last mem line =
     (if line = [] then None
      else c_str ((strncpy mem line (length line - 1))[length line - 1 := NUL]))"

definition atoi :: "string \<Rightarrow> int" where
  "atoi s = (case scan_int s of None \<Rightarrow> 0 | Some i \<Rightarrow> i)"

definition setupConnection :: "nat \<Rightarrow> (nat \<Rightarrow> string) \<Rightarrow> client \<Rightarrow> (string \<times> int) option" where
  \<comment> \<open>the address and the port given to \<open>setupSocket\<close>; \<open>mem n\<close> is an uninitialised array\<close>
  "setupConnection r mem c = do {
     chosenFE \<leftarrow> chooseFE r c;
     if chosenFE < length (cl_ports c) then do {
       address \<leftarrow> strip_last (mem (length (cl_addresses c ! chosenFE))) (cl_addresses c ! chosenFE);
       port \<leftarrow> strip_last (mem (length (cl_ports c ! chosenFE))) (cl_ports c ! chosenFE);
       Some (address, atoi port mod 65536)
     } else None
   }"

definition Client :: "string \<Rightarrow> string \<Rightarrow> client" where
  \<comment> \<open>the constructor, before the connection is set up; \<open>uuid\<close> is a fresh identifier\<close>
  "Client uuid content = readFEAddressesFile content
     \<lparr>cl_username = [], cl_group = [], cl_userId = uuid, cl_addresses = [], cl_ports = [], cl_sockfd = 0\<rparr>"

subsection \<open>Packets\<close>

definition client_buildPacket :: "env \<Rightarrow> string \<Rightarrow> c_int \<Rightarrow> client \<Rightarrow> packet option" where
  "client_buildPacket e input packetType c =
     (let usernameBuffer = strncpy (replicate USERNAME_MAX_SIZE NUL) (cl_username c) (USERNAME_MAX_SIZE - 1);
          groupBuffer = strncpy (replicate GROUP_MAX_SIZE NUL) (cl_group c) (GROUP_MAX_SIZE - 1);
          messageBuffer = (strncpy (replicate MESSAGE_MAX_SIZE NUL) input (MESSAGE_MAX_SIZE - 2))
                            [MESSAGE_MAX_SIZE - 1 := NUL]
      in do {
        username \<leftarrow> c_str usernameBuffer;
        grp \<leftarrow> c_str groupBuffer;
        message \<leftarrow> c_str messageBuffer;
        Packet_full (e_mem e) (e_uuid e) username grp message (word_of_int (e_now e))
          (cl_userId c) packetType
      })"

subsection \<open>Registration\<close>

text \<open>
  The loop of \<open>registerToServer\<close> over the packets read. The flag of the connection is passed to
  \<open>readPacket\<close> and never looked at, so it is not part of the loop's input: after the connection
  has ended every read gives unwritten memory. \<open>None\<close>: still waiting.
\<close>

fun register_loop :: "packet list \<Rightarrow> int option" where
  "register_loop [] = None"
| "register_loop (p # ps) =
     (if p_type p = CONNECTION_REFUSED_PACKET then Some (-1)
      else if p_type p = ACCEPT_PACKET then Some 0
      else register_loop ps)"

definition registerToServer :: "env \<Rightarrow> packet list \<Rightarrow> client \<Rightarrow> (int option \<times> client \<times> packet) option" where
  "registerToServer e received c = do {
     p \<leftarrow> client_buildPacket e ''<Entered the group>'' JOIN_PACKET c;
     let r = register_loop received;
     Some (r, if r = Some (-1) then c\<lparr>cl_sockfd := -1\<rparr> else c, p)
   }"

definition ConnectToServer ::
    "env \<Rightarrow> string \<Rightarrow> string \<Rightarrow> socket \<Rightarrow> int \<Rightarrow> packet list \<Rightarrow> client \<Rightarrow> (int option \<times> client) option" where
  \<comment> \<open>\<open>sock\<close> and \<open>connected\<close> are the results of \<open>socket\<close> and \<open>connect\<close>\<close>
  "ConnectToServer e username grp sock connected received c =
     (let c1 = (setGroup grp (setUsername username c))\<lparr>cl_sockfd := sock\<rparr> in
      if sock < 0 then Some (Some (-1), c1)
      else if connected < 0 then Some (Some (-1), c1)
      else map_option (\<lambda>(r, c2, _). (r, c2)) (registerToServer e received c1))"

subsection \<open>What the client shows\<close>

text \<open>\<open>clock\<close> is the hour, minute and second of \<open>localtime\<close>.\<close>

definition showMessage :: "int \<times> int \<times> int \<Rightarrow> packet \<Rightarrow> client \<Rightarrow> string option" where
  "showMessage clock p c = do {
     username \<leftarrow> c_str (p_username p);
     text \<leftarrow> c_str (p_message p);
     let user = (if username = cl_username c then ''[Voc'' @ [CHR 0xC3, CHR 0xAA] @ '']:''
                 else ''['' @ username @ '']:'');
     let (hour, min, sec) = clock;
     let time = to_string hour @ '':'' @ to_string min @ '':'' @ to_string (1 + sec);
     Some (time @ '' '' @ user @ '' '' @ text)
   }"

text \<open>
  \<open>receiveFromServer\<close> over the packets it reads: the lines shown and the number of times it has
  unlocked \<open>mutex_ack\<close>.
\<close>

fun receiveFromServer :: "(packet \<Rightarrow> int \<times> int \<times> int) \<Rightarrow> packet list \<Rightarrow> client \<Rightarrow> (string list \<times> nat) option" where
  "receiveFromServer clock [] c = Some ([], 0)"
| "receiveFromServer clock (p # ps) c = do {
     line \<leftarrow> (if p_type p = MESSAGE_PACKET then map_option (\<lambda>l. [l]) (showMessage (clock p) p c) else Some []);
     (shown, acks) \<leftarrow> receiveFromServer clock ps c;
     Some (line @ shown, (if p_type p = ACK_PACKET then 1 else 0) + acks)
   }"

text \<open>
  \<open>readInput\<close> and the loop of \<open>sendToServer\<close>: a line that the end of the input cuts off, with or
  without characters, ends the process. What is typed before is queued as packets.
\<close>

fun typed_lines :: "string \<Rightarrow> string \<Rightarrow> string list" where
  "typed_lines acc [] = []"
| "typed_lines acc (c # cs) = (if c = CHR 0x0A then acc # typed_lines [] cs else typed_lines (acc @ [c]) cs)"

fun client_sendToServer :: "env list \<Rightarrow> string list \<Rightarrow> client \<Rightarrow> packet list option" where
  "client_sendToServer es [] c = Some []"
| "client_sendToServer [] (line # ls) c = Some []"
| "client_sendToServer (e # es) (line # ls) c = do {
     p \<leftarrow> client_buildPacket e line MESSAGE_PACKET c;
     ps \<leftarrow> client_sendToServer es ls c;
     Some (p # ps)
   }"

subsection \<open>Lemmas on names and packets\<close>

lemma name_regex_iff:
  "2 \<le> length name \<Longrightarrow> name_regex name \<longleftrightarrow> is_letter (hd name) \<and> (\<forall>c\<in>set (tl name). name_char c)"
  by (cases name) (auto simp: name_regex_def list_all_iff)

lemma validateName_iff:
  "validateName name = 0 \<longleftrightarrow> (4 \<le> length name \<and> length name \<le> 20) \<and> is_letter (hd name) \<and>
     (\<forall>c\<in>set (tl name). name_char c)"
proof -
  have "validateName name = 0 \<longleftrightarrow> (4 \<le> length name \<and> length name \<le> 20) \<and> name_regex name"
    by (simp add: validateName_def USERNAME_MAX_SIZE_def Let_def)
  then show ?thesis using name_regex_iff [of name] by auto
qed

lemma is_letter_not_NUL: "\<not> is_letter NUL"
  by (simp add: is_letter_def)

lemma name_char_not_NUL: "\<not> name_char NUL"
  by (simp add: name_char_def is_letter_not_NUL is_digit_def)

lemma validateName_no_NUL: "validateName name = 0 \<Longrightarrow> NUL \<notin> set name"
  using is_letter_not_NUL name_char_not_NUL by (cases name) (auto simp only: validateName_iff list.sel list.set insert_iff)

lemma c_str_zeroed:
  assumes "n < k" and "NUL \<notin> set s"
  shows "c_str (strncpy (replicate k NUL) s n) = Some (take n s)"
proof -
  have "drop n (replicate k NUL) = NUL # replicate (k - n - 1) NUL"
    using assms(1) by (cases "k - n") simp_all
  then show ?thesis using assms(2) by (rule c_str_strncpy [rotated])
qed

text \<open>The packet a client builds, by its fields.\<close>

lemma client_buildPacket_char:
  assumes "NUL \<notin> set (cl_username c)" and "NUL \<notin> set (cl_group c)" and "NUL \<notin> set input"
  shows "client_buildPacket e input ty c =
    Packet_full (e_mem e) (e_uuid e) (take 19 (cl_username c)) (take 19 (cl_group c)) (take 253 input)
      (word_of_int (e_now e)) (cl_userId c) ty"
proof -
  have "c_str (strncpy (replicate MESSAGE_MAX_SIZE NUL) input (MESSAGE_MAX_SIZE - 2)) = Some (take 253 input)"
    using assms(3) by (subst c_str_zeroed) (simp_all add: MESSAGE_MAX_SIZE_def)
  then have m: "c_str ((strncpy (replicate MESSAGE_MAX_SIZE NUL) input (MESSAGE_MAX_SIZE - 2))
      [MESSAGE_MAX_SIZE - 1 := NUL]) = Some (take 253 input)"
    by (intro c_str_update) (simp_all add: MESSAGE_MAX_SIZE_def)
  have "c_str (strncpy (replicate USERNAME_MAX_SIZE NUL) (cl_username c) (USERNAME_MAX_SIZE - 1)) =
      Some (take 19 (cl_username c))"
    using assms(1) by (subst c_str_zeroed) (simp_all add: USERNAME_MAX_SIZE_def)
  moreover have "c_str (strncpy (replicate GROUP_MAX_SIZE NUL) (cl_group c) (GROUP_MAX_SIZE - 1)) =
      Some (take 19 (cl_group c))"
    using assms(2) by (subst c_str_zeroed) (simp_all add: GROUP_MAX_SIZE_def)
  ultimately show ?thesis using m by (simp add: client_buildPacket_def)
qed

lemma client_buildPacket_message:
  assumes "client_buildPacket e input ty c = Some p" and "NUL \<notin> set (cl_username c)"
    and "NUL \<notin> set (cl_group c)" and "NUL \<notin> set input"
  shows "c_str (p_message p) = Some (take 253 input)"
  using assms(1) assms(4) unfolding client_buildPacket_char [OF assms(2-4)]
  by (rule_tac Packet_full_message) (auto simp: MESSAGE_MAX_SIZE_def dest: in_set_takeD)

lemma client_buildPacket_names:
  assumes "client_buildPacket e input ty c = Some p" and "NUL \<notin> set (cl_username c)"
    and "NUL \<notin> set (cl_group c)" and "NUL \<notin> set input"
    and "length (cl_username c) < 19" and "length (cl_group c) < 19"
  shows "c_str (p_username p) = Some (cl_username c) \<and> c_str (p_group p) = Some (cl_group c)"
proof -
  have "Packet_full (e_mem e) (e_uuid e) (cl_username c) (cl_group c) (take 253 input)
      (word_of_int (e_now e)) (cl_userId c) ty = Some p"
    using assms(1) unfolding client_buildPacket_char [OF assms(2-4)] using assms(5,6) by simp
  from Packet_full_username [OF this assms(2)] Packet_full_group [OF this assms(3)] show ?thesis
    using assms(5,6) by (simp add: USERNAME_MAX_SIZE_def GROUP_MAX_SIZE_def)
qed

text \<open>A name that fills its buffer: only the first 19 characters are sent, and the byte that
  would end them is whatever the storage of the packet held.\<close>

lemma client_buildPacket_long_name:
  assumes "client_buildPacket e input ty c = Some p" and "NUL \<notin> set (cl_username c)"
    and "NUL \<notin> set (cl_group c)" and "NUL \<notin> set input"
    and long: "19 \<le> length (cl_username c)" and mem: "packet_sized (e_mem e)"
  shows "c_str (p_username p) =
    (if p_username (e_mem e) ! 19 = NUL then Some (take 19 (cl_username c)) else None)"
proof -
  let ?u = "take 19 (cl_username c)"
  have u: "length ?u = 19" "NUL \<notin> set ?u" using long assms(2) by (auto dest: in_set_takeD)
  have len: "length (p_username (e_mem e)) = 20" using mem by (simp add: packet_sized_def USERNAME_MAX_SIZE_def)
  have dr: "drop 19 (p_username (e_mem e)) = [p_username (e_mem e) ! 19]"
    using Cons_nth_drop_Suc [of 19 "p_username (e_mem e)"] len by simp
  have f: "p_username p = strncpy (p_username (e_mem e)) ?u 19"
    using assms(1) unfolding client_buildPacket_char [OF assms(2-4)]
    by (auto simp: Packet_full_def bind_iff USERNAME_MAX_SIZE_def)
  have "p_username p = ?u @ [p_username (e_mem e) ! 19]"
    unfolding f using strncpy_full [of 19 ?u "p_username (e_mem e)"] u(1) dr by simp
  then show ?thesis using u(2) by (auto simp: c_str_def takeWhile_no_NUL)
qed

subsection \<open>The address file\<close>

lemma strip_last_snoc:
  assumes "length mem = Suc (length xs)" and "NUL \<notin> set xs"
  shows "strip_last mem (xs @ [c]) = Some xs"
proof -
  have "strncpy mem (xs @ [c]) (length xs) = xs @ drop (length xs) mem"
    by (simp add: strncpy_def)
  moreover obtain m where "drop (length xs) mem = [m]"
    using assms(1) by (metis Cons_nth_drop_Suc drop_all lessI order_refl)
  ultimately have "(strncpy mem (xs @ [c]) (length xs))[length xs := NUL] = xs @ [NUL]"
    by (simp add: list_update_append)
  then show ?thesis using assms(2) by (simp add: strip_last_def c_str_def takeWhile_no_NUL)
qed

lemma readFE_loop_pairs:
  "readFE_loop 0 (concat (map (\<lambda>(a, p). [a, p]) aps)) (as, ps) = (as @ map fst aps, ps @ map snd aps)"
  by (induction aps arbitrary: as ps) auto

definition crlf_file :: "(string \<times> string) list \<Rightarrow> string" where
  \<comment> \<open>a file of address and port lines with the line ends of the repository's \<open>addresses.txt\<close>\<close>
  "crlf_file aps = unlines CHR 0x0A (concat (map (\<lambda>(a, p). [a @ [CHR 0x0D], p @ [CHR 0x0D]]) aps))"

definition line_text :: "string \<Rightarrow> bool" where
  "line_text s \<longleftrightarrow> NUL \<notin> set s \<and> CHR 0x0A \<notin> set s"

lemma readFEAddressesFile_crlf:
  assumes "\<forall>(a, p)\<in>set aps. line_text a \<and> line_text p"
  shows "readFEAddressesFile (crlf_file aps) c =
    c\<lparr>cl_addresses := cl_addresses c @ map (\<lambda>ap. fst ap @ [CHR 0x0D]) aps,
      cl_ports := cl_ports c @ map (\<lambda>ap. snd ap @ [CHR 0x0D]) aps\<rparr>"
proof -
  let ?ls = "concat (map (\<lambda>(a, p). [a @ [CHR 0x0D], p @ [CHR 0x0D]]) aps)"
  have "\<forall>l\<in>set ?ls. CHR 0x0A \<notin> set l" using assms by (auto simp: line_text_def)
  then have "getlines CHR 0x0A (crlf_file aps) = ?ls" unfolding crlf_file_def by (rule getlines_unlines)
  moreover have "?ls = concat (map (\<lambda>(a, p). [a, p]) (map (\<lambda>ap. (fst ap @ [CHR 0x0D], snd ap @ [CHR 0x0D])) aps))"
    by (induction aps) auto
  ultimately have "readFE_loop 0 (getlines CHR 0x0A (crlf_file aps)) (cl_addresses c, cl_ports c) =
      (cl_addresses c @ map (\<lambda>ap. fst ap @ [CHR 0x0D]) aps, cl_ports c @ map (\<lambda>ap. snd ap @ [CHR 0x0D]) aps)"
    by (simp only: readFE_loop_pairs) (simp add: comp_def)
  then show ?thesis by (simp add: readFEAddressesFile_def)
qed

lemma setupConnection_crlf:
  assumes ok: "\<forall>(a, p)\<in>set aps. line_text a \<and> line_text p" and ne: "aps \<noteq> []"
    and mem: "\<forall>n. length (mem n) = n"
  shows "setupConnection r mem (Client uuid (crlf_file aps)) =
    (let (a, p) = aps ! (r mod length aps) in Some (a, atoi p mod 65536))"
proof -
  let ?i = "r mod length aps"
  obtain a p where ap: "aps ! ?i = (a, p)" by (cases "aps ! ?i")
  have i: "?i < length aps" using ne by simp
  then have "(a, p) \<in> set aps" using ap nth_mem by metis
  then have n: "NUL \<notin> set a" "NUL \<notin> set p" using ok by (auto simp: line_text_def)
  have "strip_last (mem (Suc (length a))) (a @ [CHR 0x0D]) = Some a"
    using strip_last_snoc n(1) mem by blast
  moreover have "strip_last (mem (Suc (length p))) (p @ [CHR 0x0D]) = Some p"
    using strip_last_snoc n(2) mem by blast
  ultimately show ?thesis
    using i ne ap by (simp add: Client_def readFEAddressesFile_crlf [OF ok] setupConnection_def chooseFE_def)
qed

subsection \<open>Registration and input\<close>

lemma register_loop_char:
  "register_loop ps = (case find_index (\<lambda>p. p_type p = CONNECTION_REFUSED_PACKET \<or> p_type p = ACCEPT_PACKET) ps of
     None \<Rightarrow> None
   | Some i \<Rightarrow> Some (if p_type (ps ! i) = CONNECTION_REFUSED_PACKET then -1 else 0))"
  by (induction ps) (auto split: option.splits)

lemma typed_lines_unlines:
  "\<forall>l\<in>set ls. CHR 0x0A \<notin> set l \<Longrightarrow> CHR 0x0A \<notin> set rest \<Longrightarrow> typed_lines [] (unlines CHR 0x0A ls @ rest) = ls"
proof (induction ls)
  case Nil
  have "CHR 0x0A \<notin> set r \<Longrightarrow> typed_lines acc r = []" for acc r
    by (induction r arbitrary: acc) auto
  with Nil show ?case by simp
next
  case (Cons l ls)
  have "CHR 0x0A \<notin> set l \<Longrightarrow> typed_lines acc (l @ CHR 0x0A # r) = (acc @ l) # typed_lines [] r" for acc l r
    by (induction l arbitrary: acc) auto
  with Cons show ?case by simp
qed

lemma client_sendToServer_texts:
  assumes "client_sendToServer es ls c = Some ps" and "length ls \<le> length es"
    and c: "NUL \<notin> set (cl_username c)" "NUL \<notin> set (cl_group c)" and "\<forall>l\<in>set ls. NUL \<notin> set l"
  shows "map (\<lambda>p. c_str (p_message p)) ps = map (\<lambda>l. Some (take 253 l)) ls"
  using assms(1,2,5)
proof (induction ls arbitrary: es ps)
  case Nil
  then show ?case by simp
next
  case (Cons line ls)
  then obtain e es' where es: "es = e # es'" by (cases es) auto
  obtain p qs where p: "client_buildPacket e line MESSAGE_PACKET c = Some p"
    and qs: "client_sendToServer es' ls c = Some qs" and ps: "ps = p # qs"
    using Cons.prems(1) by (auto simp: es bind_iff)
  have "c_str (p_message p) = Some (take 253 line)"
    using client_buildPacket_message [OF p c] Cons.prems(3) by simp
  then show ?case using Cons.IH [OF qs] Cons.prems(2,3) by (simp add: es ps)
qed

end
