(* ===== verification/Message_Path.thy ===== *)
theory Message_Path
  imports Group_Delivery Proxy_Threads Clients
begin

section \<open>The way of a message from a group to a screen\<close>

text \<open>
  The composition of the consumer thread of a group (\<open>Group::consumeMessageQueue\<close>), the wire
  (\<open>Socket::readPacket\<close>), the thread of a front end that listens to the server
  (\<open>ProxyFE::listenServerCommunication\<close>), the wire again and the receiving thread of a client
  (\<open>Client::receiveFromServer\<close>): what a member of a group sees is exactly the queue.
\<close>

subsection \<open>The wire\<close>

text \<open>The reads that give the packets \<open>ps\<close>: their images in order, cut up in any way, then the end.\<close>

definition wire_carries :: "packet list \<Rightarrow> arrival list \<Rightarrow> bool" where
  "wire_carries ps as \<longleftrightarrow> (\<exists>pad. length pad = 11 \<and> stream_bytes as = concat (map (packet_image pad) ps)) \<and>
     chunks_ok as \<and> closes as"

definition packets_read :: "arrival list \<Rightarrow> packet list option" where
  "packets_read as = map_option (map image_packet) (receive_loop as)"

lemma packets_read_carried:
  assumes "wire_carries ps as" and "\<forall>p\<in>set ps. packet_sized p"
  shows "packets_read as = Some ps"
proof -
  obtain pad where pad: "length pad = 11" "stream_bytes as = concat (map (packet_image pad) ps)"
    using assms(1) by (auto simp: wire_carries_def)
  have "receive_loop as = Some (map (packet_image pad) ps)"
    using assms pad length_packet_image by (intro receive_loop_images) (auto simp: wire_carries_def)
  moreover have "map (\<lambda>p. image_packet (packet_image pad p)) ps = ps"
    using assms(2) pad(1) image_packet_image by (simp add: map_idI)
  ultimately show ?thesis by (simp add: packets_read_def comp_def)
qed

text \<open>Every list of packets can be on the wire.\<close>

lemma wire_carries_some: "\<exists>as. wire_carries ps as"
proof -
  let ?pad = "replicate 11 NUL"
  let ?bs = "concat (map (packet_image ?pad) ps)"
  show ?thesis
  proof (cases "?bs = []")
    case True
    then have "wire_carries ps [Closed]" by (auto simp: wire_carries_def chunks_ok_def intro!: exI [of _ ?pad])
    then show ?thesis by blast
  next
    case False
    then have "wire_carries ps [Bytes ?bs, Closed]"
      by (auto simp: wire_carries_def chunks_ok_def intro!: exI [of _ ?pad])
    then show ?thesis by blast
  qed
qed

text \<open>What of a list of sends goes to one socket.\<close>

definition sent_to :: "socket \<Rightarrow> (socket \<times> packet) list \<Rightarrow> packet list" where
  "sent_to s out = map snd (filter (\<lambda>x. fst x = s) out)"

lemma sent_to_simps [simp]:
  "sent_to s [] = []"
  "sent_to s (x # xs) = (if fst x = s then snd x # sent_to s xs else sent_to s xs)"
  "sent_to s (xs @ ys) = sent_to s xs @ sent_to s ys"
  "sent_to s (concat xss) = concat (map (sent_to s) xss)"
  by (simp_all add: sent_to_def filter_concat map_concat comp_def) (simp add: sent_to_def [abs_def])

subsection \<open>The packet of a message\<close>

text \<open>A message whose texts fit the buffers of a packet.\<close>

definition fits_packet :: "message \<Rightarrow> bool" where
  "fits_packet m \<longleftrightarrow> NUL \<notin> set (m_user m) \<and> length (m_user m) < USERNAME_MAX_SIZE - 1 \<and>
     NUL \<notin> set (m_text m) \<and> length (m_text m) < MESSAGE_MAX_SIZE - 1"

definition packet_for :: "env \<Rightarrow> string \<Rightarrow> message \<Rightarrow> packet" where
  "packet_for e c m = the (message_packet e m c)"

lemma packet_for_props:
  assumes "env_ok e" and "length c < UUID_SIZE" and "NUL \<notin> set c"
  shows "packet_sized (packet_for e c m)" "p_type (packet_for e c m) = MESSAGE_PACKET"
    "c_str (p_user_id (packet_for e c m)) = Some c"
proof -
  obtain p where p: "message_packet e m c = Some p" using message_packet_defined assms by blast
  then have "packet_for e c m = p" by (simp add: packet_for_def)
  then have f: "Packet_full (e_mem e) (e_uuid e) (m_user m) (m_group m) (m_text m) (word_of_int (m_time m)) c
      MESSAGE_PACKET = Some (packet_for e c m)"
    using p by (simp add: message_packet_def)
  show "packet_sized (packet_for e c m)" using Packet_full_sized [OF f] assms(1) by (simp add: env_ok_def)
  show "p_type (packet_for e c m) = MESSAGE_PACKET" using f by (auto simp: Packet_full_def bind_iff dest: sym)
  show "c_str (p_user_id (packet_for e c m)) = Some c" by (rule Packet_full_user_id [OF f assms(3)])
qed

text \<open>The line a client shows for a message, at a time of day.\<close>

definition chat_line :: "string \<Rightarrow> int \<times> int \<times> int \<Rightarrow> message \<Rightarrow> string" where
  "chat_line me = (\<lambda>(hour, min, sec) m.
     to_string hour @ '':'' @ to_string min @ '':'' @ to_string (1 + sec) @ '' '' @
     (if m_user m = me then ''[Voc'' @ [CHR 0xC3, CHR 0xAA] @ '']:'' else ''['' @ m_user m @ '']:'') @
     '' '' @ m_text m)"

lemma showMessage_packet_for:
  assumes "env_ok e" and "length c < UUID_SIZE" and "fits_packet m"
  shows "showMessage now (packet_for e c m) cl = Some (chat_line (cl_username cl) now m)"
proof -
  obtain p where p: "message_packet e m c = Some p" using message_packet_defined assms(1,2) by blast
  then have "c_str (p_username p) = Some (m_user m)" "c_str (p_message p) = Some (m_text m)"
    using assms(3) Packet_full_username Packet_full_message
    unfolding message_packet_def fits_packet_def by blast+
  then show ?thesis using p by (simp add: packet_for_def showMessage_def chat_line_def case_prod_beta Let_def)
qed

lemma receiveFromServer_messages:
  assumes "env_ok e" and "length c < UUID_SIZE" and "NUL \<notin> set c" and "\<forall>m\<in>set ms. fits_packet m"
  shows "receiveFromServer clock (map (packet_for e c) ms) cl =
    Some (map (\<lambda>m. chat_line (cl_username cl) (clock (packet_for e c m)) m) ms, 0)"
  using assms(4)
  by (induction ms) (simp_all add: packet_for_props [OF assms(1-3)] showMessage_packet_for [OF assms(1,2)]
      MESSAGE_PACKET_def ACK_PACKET_def)

subsection \<open>From the group to the front end\<close>

lemma broadcast_packets_for:
  "broadcast_packets e m book cs = map (\<lambda>x. (socket_of book (snd x), packet_for e (fst x) m)) cs"
  by (simp add: broadcast_packets_def packet_for_def)

text \<open>What the front end gets, and what of it the switch gives to one client.\<close>

lemma routed_broadcast:
  assumes e: "env_ok e" and cs: "\<forall>x\<in>set cs. length (fst x) < UUID_SIZE \<and> NUL \<notin> set (fst x)"
    and inj: "\<forall>x\<in>set cs. sw (fst x) = Some s \<longrightarrow> fst x = c" and c: "sw c = Some s"
  shows "sent_to s (concat (map (routed sw) (map (Pair e') (sent_to f (broadcast_packets e m book cs))))) =
    map (\<lambda>x. packet_for e c m) (filter (\<lambda>x. socket_of book (snd x) = f \<and> fst x = c) cs)"
  using cs inj
proof (induction cs)
  case Nil
  then show ?case by (simp add: broadcast_packets_def)
next
  case (Cons x cs)
  have x: "p_type (packet_for e (fst x) m) = MESSAGE_PACKET" "c_str (p_user_id (packet_for e (fst x) m)) = Some (fst x)"
    using packet_for_props [OF e] Cons.prems(1) by auto
  let ?r = "\<lambda>cs. concat (map (routed sw) (map (Pair e') (sent_to f (broadcast_packets e m book cs))))"
  have one: "sent_to s (routed sw (e', packet_for e (fst x) m)) = (if fst x = c then [packet_for e c m] else [])"
    using Cons.prems(2) c x by (cases "sw (fst x)") (auto simp: routed_def client_reply_def)
  have "?r (x # cs) = (if socket_of book (snd x) = f then routed sw (e', packet_for e (fst x) m) else []) @ ?r cs"
    by (simp add: broadcast_packets_for)
  then have "sent_to s (?r (x # cs)) =
      (if socket_of book (snd x) = f \<and> fst x = c then [packet_for e c m] else []) @ sent_to s (?r cs)"
    using one by (cases "fst x = c") (simp_all only: sent_to_simps if_distrib [of "sent_to s"], simp_all)
  then show ?case using Cons by simp
qed

lemma filter_unique:
  assumes "distinct (map fst cs)" and "(c, f) \<in> set cs" and "Q f"
  shows "filter (\<lambda>x. Q (snd x) \<and> fst x = c) cs = [(c, f)]"
  using assms
proof (induction cs)
  case Nil
  then show ?case by simp
next
  case (Cons x cs)
  show ?case
  proof (cases "x = (c, f)")
    case True
    then have "\<forall>y\<in>set cs. fst y \<noteq> c" using Cons.prems(1) by force
    then show ?thesis using True Cons.prems(3) by (simp add: filter_empty_conv)
  next
    case False
    then have "(c, f) \<in> set cs" using Cons.prems(2) by simp
    then have "c \<in> fst ` set cs" by (rule image_eqI [rotated]) simp
    then have "fst x \<noteq> c" using Cons.prems(1) by auto
    then show ?thesis using Cons False by simp
  qed
qed

lemma routed_queue:
  assumes e: "env_ok e" and cs: "\<forall>x\<in>set cs. length (fst x) < UUID_SIZE \<and> NUL \<notin> set (fst x)"
    and inj: "\<forall>x\<in>set cs. sw (fst x) = Some s \<longrightarrow> fst x = c" and c: "sw c = Some s"
    and one: "distinct (map fst cs)" "(c, f) \<in> set cs"
  shows "sent_to s (concat (map (routed sw) (map (Pair e')
      (sent_to (socket_of book f) (queue_packets e book cs ms))))) = map (packet_for e c) ms"
proof (induction ms)
  case Nil
  then show ?case by (simp add: queue_packets_def)
next
  case (Cons m ms)
  have "filter (\<lambda>x. socket_of book (snd x) = socket_of book f \<and> fst x = c) cs = [(c, f)]"
    using filter_unique [OF one, of "\<lambda>f'. socket_of book f' = socket_of book f"] by simp
  then show ?case
    using Cons routed_broadcast [OF e cs inj c, of e' "socket_of book f" m book]
    by (simp add: queue_packets_def del: map_map)
qed

text \<open>A user of the switch shares his socket with nobody.\<close>

lemma switch_injective:
  assumes "tables_ok px" and "switch px u = Some s" and "switch px v = Some s"
  shows "u = v"
  using tables_ok_injective [OF assms(1), of s u v] assms(2,3)
  by (auto simp: switch_def split: option.splits if_splits)

lemma queue_packets_sized:
  assumes "env_ok e" and "\<forall>x\<in>set cs. length (fst x) < UUID_SIZE \<and> NUL \<notin> set (fst x)"
  shows "\<forall>p\<in>set (sent_to f (queue_packets e book cs ms)). packet_sized p \<and> c_str (p_user_id p) \<noteq> None"
  using assms packet_for_props by (fastforce simp: sent_to_def queue_packets_def broadcast_packets_for)

text \<open>
  The front end and the client between them: given what a group's round sends to a front end, the
  thread of the front end returns, and the client gets exactly its own packets.
\<close>

lemma front_end_forwards_round:
  assumes e: "env_ok e" "env_ok e'" and cs: "\<forall>x\<in>set cs. length (fst x) < UUID_SIZE \<and> NUL \<notin> set (fst x)"
    and one: "distinct (map fst cs)" "(c, f) \<in> set cs"
    and px: "tables_ok px" "switch px c = Some s"
    and wire: "wire_carries (sent_to (socket_of book f) (queue_packets e book cs ms)) as"
  shows "\<exists>ps px'. packets_read as = Some ps \<and> listenServerCommunication (map (Pair e') ps) sock px = Some px' \<and>
    sent_to s (drop (length (px_sent px)) (px_sent px')) = map (packet_for e c) ms"
proof -
  let ?ps = "sent_to (socket_of book f) (queue_packets e book cs ms)"
  note sized = queue_packets_sized [OF e(1) cs, of "socket_of book f" book ms]
  have read: "packets_read as = Some ?ps" using packets_read_carried [OF wire] sized by blast
  obtain px' where px': "listenServerCommunication (map (Pair e') ?ps) sock px = Some px'"
    using listenServerCommunication_returns [of "map (Pair e') ?ps" sock px] sized e(2) by auto
  have "\<forall>x\<in>set cs. switch px (fst x) = Some s \<longrightarrow> fst x = c"
    using switch_injective [OF px(1) _ px(2)] by blast
  note routed_queue [where sw = "switch px", OF e(1) cs this px(2) one, of e' book ms]
  then have "sent_to s (drop (length (px_sent px)) (px_sent px')) = map (packet_for e c) ms"
    using listenServerCommunication_routes [OF px'] by simp
  with read px' show ?thesis by blast
qed

end
