(* ===== verification/Apps.thy ===== *)
theory Apps
  imports Server_Threads Membership Server_Progress Ring_Threads Message_Path
begin

section \<open>The programs\<close>

text \<open>
  \<open>src/app/app_server.cpp\<close>, \<open>src/app/app_proxy_fe.cpp\<close> and \<open>src/app/app_client.cpp\<close>: the command
  lines, the \<open>main\<close> functions with the front end's accepting loop, and the handlers of
  \<open>SIGINT\<close>. A command line is the list of its words; \<open>Inl\<close> is an exception that no handler
  catches, or an exit.
\<close>

definition RANDOM_PORT_NUMBER :: int where
  "RANDOM_PORT_NUMBER = 0"

definition server_read_args :: "string list \<Rightarrow> int \<Rightarrow> stoi_error + int \<times> int" where
  \<comment> \<open>history limit and machine number; \<open>mem\<close> is what \<open>rmNumber\<close> holds before\<close>
  "server_read_args argv mem =
     (if length argv = 3 then
        (case stoi (argv ! 1) of
           Inl Invalid_Argument \<Rightarrow> Inr (DEFAULT_NUMBER_OF_RECORDED_MESSAGES, mem)
         | Inl Out_Of_Range \<Rightarrow> Inl Out_Of_Range
         | Inr maxMessages \<Rightarrow>
             (case stoi (argv ! 2) of
                Inl Invalid_Argument \<Rightarrow> Inr (maxMessages, mem)
              | Inl Out_Of_Range \<Rightarrow> Inl Out_Of_Range
              | Inr rmNumber \<Rightarrow> Inr (maxMessages, rmNumber)))
      else Inr (DEFAULT_NUMBER_OF_RECORDED_MESSAGES, mem))"

definition port_arg :: "string \<Rightarrow> stoi_error + int" where
  "port_arg s = (case stoi s of Inl Invalid_Argument \<Rightarrow> Inr RANDOM_PORT_NUMBER
     | Inl Out_Of_Range \<Rightarrow> Inl Out_Of_Range | Inr port \<Rightarrow> Inr port)"

definition proxy_read_args :: "string list \<Rightarrow> stoi_error + int \<times> int" where
  "proxy_read_args argv =
     (if length argv = 3 then
        (case port_arg (argv ! 1) of
           Inl err \<Rightarrow> Inl err
         | Inr portServerRM \<Rightarrow>
             (case port_arg (argv ! 2) of Inl err \<Rightarrow> Inl err | Inr portClients \<Rightarrow> Inr (portServerRM, portClients)))
      else Inr (RANDOM_PORT_NUMBER, RANDOM_PORT_NUMBER))"

definition fePortList :: "int list" where
  "fePortList = [6969, 6970, 6971]"

definition feAddressList :: "string list" where
  "feAddressList = [''127.0.0.1'', ''127.0.0.1'', ''127.0.0.1'']"

text \<open>\<open>conn i\<close> are the results of \<open>socket\<close> and \<open>connect\<close> for the \<open>i\<close>-th front end.\<close>

definition connect_all :: "(nat \<Rightarrow> socket \<times> int) \<Rightarrow> server \<Rightarrow> server" where
  "connect_all conn s =
     fold (\<lambda>i s. snd (connectToFE (fst (conn i)) (snd (conn i)) (feAddressList ! i) (fePortList ! i) s))
       [0..<length fePortList] s"

text \<open>
  \<open>main\<close> of the server up to the loop that waits to be primary: the ring is joined, the
  arguments are read, the replicas connected. The value has the ring, the server and the socket on
  which it listens for replicas with its port; \<open>None\<close> is a server for which no port is free.
  Then, once it is primary, the front ends.
\<close>

record start_calls =
  st_inet_pton :: int
  st_socket :: socket
  st_listen :: int
  st_free :: "int \<Rightarrow> bool"  \<comment> \<open>the ports the ring's \<open>bind\<close> accepts\<close>
  st_attempt :: "int \<Rightarrow> socket option"  \<comment> \<open>\<open>connect\<close> to the replica of that number\<close>
  st_replicas :: socket_calls

definition server_main_start ::
    "start_calls \<Rightarrow> string list \<Rightarrow> int \<Rightarrow> ring \<Rightarrow> server \<Rightarrow>
     (setup_exit + stoi_error + ring \<times> server \<times> (socket \<times> int) option) option" where
  "server_main_start calls argv mem r s = do {
     joined \<leftarrow> connectServersRing (st_inet_pton calls) (st_socket calls) (st_listen calls) (st_free calls) r;
     Some (case joined of
        Inl failed \<Rightarrow> Inl failed
      | Inr (Inl err) \<Rightarrow> Inr (Inl err)
      | Inr (Inr r') \<Rightarrow>
          (case server_read_args argv mem of
             Inl err \<Rightarrow> Inr (Inl err)
           | Inr (maxNumberOfMessagesInHistory, rmNumber) \<Rightarrow>
               (case prepareReplicationManager (st_attempt calls) (st_replicas calls) rmNumber
                   (s\<lparr>s_world := (s_world s)\<lparr>w_primary := isServerPrimary r'\<rparr>\<rparr>) of
                  Inl failed \<Rightarrow> Inl failed
                | Inr (s', tried, listener) \<Rightarrow> Inr (Inr (r', s', listener)))))
   }"

definition server_main_primary :: "(nat \<Rightarrow> socket \<times> int) \<Rightarrow> server \<Rightarrow> server \<times> (string \<times> socket) list" where
  "server_main_primary conn s = handleFrontEndsConnections (connect_all conn s)"

text \<open>
  \<open>main\<close> of the client, its exit code; \<open>None\<close> is undefined behaviour and \<open>Some None\<close> a client
  still waiting to be accepted. \<open>received\<close> are the packets read while it registers, \<open>shown\<close> is what
  \<open>clientCommunication\<close> then reads until the connection ends.
\<close>

definition clientCommunication ::
    "(packet \<Rightarrow> int \<times> int \<times> int) \<Rightarrow> packet list \<Rightarrow> client \<Rightarrow> (int \<times> string list) option" where
  \<comment> \<open>the receiving thread is joined, then the socket is closed; the sending thread is theory \<open>Handoff\<close>\<close>
  "clientCommunication clock shown c = do { (lines, acks) \<leftarrow> receiveFromServer clock shown c; Some (0, lines) }"

definition client_main ::
    "env \<Rightarrow> string list \<Rightarrow> string \<Rightarrow> nat \<Rightarrow> (nat \<Rightarrow> string) \<Rightarrow> socket \<Rightarrow> int \<Rightarrow> packet list \<Rightarrow>
     (packet \<Rightarrow> int \<times> int \<times> int) \<Rightarrow> packet list \<Rightarrow> (int \<times> string list) option option" where
  "client_main e argv config r mem sock connected received clock shown =
     (if length argv < 3 then Some (Some (-1, []))
      else if validateName (argv ! 1) < 0 \<or> validateName (argv ! 2) < 0 then Some (Some (-1, []))
      else do {
        let c = Client (e_uuid e) config;
        address \<leftarrow> setupConnection r mem c;
        (result, c') \<leftarrow> ConnectToServer e (argv ! 1) (argv ! 2) sock connected received c;
        (case result of
           None \<Rightarrow> Some None
         | Some status \<Rightarrow>
             if status < 0 then Some (Some (-1, [])) else map_option Some (clientCommunication clock shown c'))
      })"

text \<open>
  The handler of \<open>SIGINT\<close> in the server and in the front end: the exit code, and what the server does
  first. Other signals do nothing.
\<close>

definition server_my_handler :: "int \<Rightarrow> server \<Rightarrow> int option \<times> server" where
  "server_my_handler signal s = (if signal = 2 then (Some 2, closeServer s) else (None, s))"

definition proxy_my_handler :: "int \<Rightarrow> int option" where
  "proxy_my_handler signal = (if signal = 2 then Some 2 else None)"

text \<open>
  \<open>main\<close> of the front end up to its loop: the ports its sockets are bound to, the two listening
  sockets, and the state after the first server has been waited for, with the reconnecting and the
  forwarding thread started. Then the loop over what \<open>accept\<close> returns: \<open>i\<close> indexes the array
  \<open>tid\<close> of \<open>backlog\<close> thread identifiers, and a thread is started through \<open>&tid[i]\<close> only for a
  client that was accepted.
\<close>

definition setPortServerRM :: "int \<Rightarrow> int" where
  "setPortServerRM port = htons port"

definition setPortClients :: "int \<Rightarrow> int" where
  "setPortClients port = htons port"

definition proxy_main_start ::
    "string list \<Rightarrow> socket_calls \<Rightarrow> socket_calls \<Rightarrow> socket \<Rightarrow> (socket \<times> bool) list \<Rightarrow>
     stoi_error + setup_exit + (int \<times> int) \<times> (socket \<times> socket) \<times> proxy" where
  "proxy_main_start argv server_calls client_calls newsockfd attempts =
     (case proxy_read_args argv of
        Inl err \<Rightarrow> Inl err
      | Inr (portServerRM, portClients) \<Rightarrow>
          (case prepareConnection server_calls client_calls of
             Inl failed \<Rightarrow> Inr (Inl failed)
           | Inr sockets \<Rightarrow> Inr (Inr ((setPortServerRM portServerRM, setPortClients portClients), sockets,
               snd (handleServerConnection newsockfd (ProxyFE attempts))))))"

definition handleClientConnection :: "socket \<Rightarrow> int \<times> socket option" where
  \<comment> \<open>the socket its listening and its monitoring thread are started on\<close>
  "handleClientConnection newsockfd = (if newsockfd = -1 then (-1, None) else (0, Some newsockfd))"

lemma client_main_bad_names:
  "validateName (argv ! 1) < 0 \<or> validateName (argv ! 2) < 0 \<Longrightarrow>
   client_main e argv config r mem sock connected received clock shown = Some (Some (-1, []))"
  by (simp add: client_main_def)

fun proxy_main_loop :: "nat \<Rightarrow> nat \<Rightarrow> socket list \<Rightarrow> socket list option" where
  \<comment> \<open>the sockets with threads; a thread identifier written past the array is undefined\<close>
  "proxy_main_loop backlog i [] = Some []"
| "proxy_main_loop backlog i (newsockfd # accepted) =
     (if i > backlog then None
      else (case snd (handleClientConnection newsockfd) of
              None \<Rightarrow> proxy_main_loop backlog (Suc i) accepted
            | Some sock \<Rightarrow>
                if i < backlog then map_option ((#) sock) (proxy_main_loop backlog (Suc i) accepted) else None))"

lemma proxy_main_start_reconnects:
  "proxy_main_start argv server_calls client_calls newsockfd attempts = Inr (Inr (ports, sockets, px)) \<Longrightarrow> reconnects px"
  by (auto simp: proxy_main_start_def handleServerConnection_def reconnects_def split: sum.splits if_splits)

text \<open>The loop serves its clients exactly as long as the array lasts.\<close>

lemma proxy_main_loop_accepting:
  assumes "\<forall>s\<in>set accepted. s \<noteq> -1"
  shows "proxy_main_loop backlog i accepted =
    (if accepted = [] \<or> i + length accepted \<le> backlog then Some accepted else None)"
  using assms by (induction accepted arbitrary: i) (auto simp: handleClientConnection_def)

lemma closeServer_closes:
  "s_closed (closeServer s) = s_closed s @ map (\<lambda>a. socket_of (w_book (s_world s)) a) (s_feAddresses s)"
proof -
  have "s_closed (fold (\<lambda>fe_address s. let (socketId, w) = getSocketFromAddress fe_address (s_world s)
          in s\<lparr>s_world := w, s_closed := s_closed s @ [socketId]\<rparr>) as s) =
      s_closed s @ map (\<lambda>a. socket_of (w_book (s_world s)) a) as" for as
  proof (induction as arbitrary: s)
    case Nil
    then show ?case by simp
  next
    case (Cons a as)
    obtain w where w: "getSocketFromAddress a (s_world s) = (socket_of (w_book (s_world s)) a, w)"
        "sends_only [] (s_world s) w"
      using getSocketFromAddress_char by blast
    then show ?case using Cons by (simp add: sends_only_def)
  qed
  then show ?thesis by (simp add: closeServer_def closeFrontEndConnections_def)
qed

subsection \<open>The mesh of replication connections\<close>

text \<open>The ports a machine tries to connect to are those of the machines with higher numbers.\<close>

lemma connectToRmServers_char:
  "snd (connectToRmServers attempt s) = map (\<lambda>n. RM_BASE_PORT_NUMBER + n + 1) [s_rmNumber s..MAX_RM - 1] \<and>
   s_manager (fst (connectToRmServers attempt s)) = s_manager s \<and>
   s_rmNumber (fst (connectToRmServers attempt s)) = s_rmNumber s \<and>
   s_world (fst (connectToRmServers attempt s)) = s_world s"
proof -
  have "snd (fold (\<lambda>connectMachineNumber (s, tried).
        let port = RM_BASE_PORT_NUMBER + connectMachineNumber + 1
        in case attempt connectMachineNumber of
             None \<Rightarrow> (s, tried @ [port])
           | Some sock \<Rightarrow> (s\<lparr>s_rm_sockets := map_insert (s_rm_sockets s) sock port\<rparr>, tried @ [port])) ns (s, ts)) =
      ts @ map (\<lambda>n. RM_BASE_PORT_NUMBER + n + 1) ns \<and>
    (let t = fst (fold (\<lambda>connectMachineNumber (s, tried).
        let port = RM_BASE_PORT_NUMBER + connectMachineNumber + 1
        in case attempt connectMachineNumber of
             None \<Rightarrow> (s, tried @ [port])
           | Some sock \<Rightarrow> (s\<lparr>s_rm_sockets := map_insert (s_rm_sockets s) sock port\<rparr>, tried @ [port])) ns (s, ts))
     in s_manager t = s_manager s \<and> s_rmNumber t = s_rmNumber s \<and> s_world t = s_world s)" for ns ts
    by (induction ns arbitrary: s ts) (auto simp: Let_def split: option.splits)
  from this [of "[s_rmNumber s..MAX_RM - 1]" "[]"] show ?thesis
    by (simp add: connectToRmServers_def Let_def)
qed

lemma prepareReplicationManager_Inr:
  assumes "prepareReplicationManager attempt c rmNumber s = Inr (s', tried, listener)"
  shows "s_manager s' = s_manager s \<and> s_world s' = s_world s \<and> s_rmNumber s' = rmNumber \<and>
    tried = map (\<lambda>n. RM_BASE_PORT_NUMBER + n + 1) [rmNumber..MAX_RM - 1] \<and>
    (if 0 < rmNumber then \<exists>sock>0. listener = Some (sock, htons (RM_BASE_PORT_NUMBER + rmNumber))
     else listener = None)"
  using assms connectToRmServers_char [of attempt "setRmNumber rmNumber s"]
  by (auto simp: prepareReplicationManager_def Let_def case_prod_beta setRmNumber_def createRMListenerSocket_Inr
      rmListeningPort_def split: sum.splits if_splits)

lemma connectServersRing_Inr:
  assumes "connectServersRing inet sock listened free r = Some (Inr (Inr r'))"
  shows "rg_isPrimary r' \<longleftrightarrow> rg_own_port r' = rg_primary r"
  using assms
  by (auto simp: connectServersRing_def ring_listener_def prepareServerConnection_def bind_iff
      split: if_splits sum.splits)

lemma server_main_start_Inr:
  assumes "server_main_start calls argv mem r s = Some (Inr (Inr (r', s', listener)))"
  shows "\<exists>maxN rmNumber tried. server_read_args argv mem = Inr (maxN, rmNumber) \<and>
    connectServersRing (st_inet_pton calls) (st_socket calls) (st_listen calls) (st_free calls) r =
      Some (Inr (Inr r')) \<and>
    prepareReplicationManager (st_attempt calls) (st_replicas calls) rmNumber
      (s\<lparr>s_world := (s_world s)\<lparr>w_primary := isServerPrimary r'\<rparr>\<rparr>) = Inr (s', tried, listener)"
proof -
  obtain joined where j: "connectServersRing (st_inet_pton calls) (st_socket calls) (st_listen calls) (st_free calls) r =
      Some joined"
    using assms by (auto simp: server_main_start_def bind_iff)
  obtain t where t: "joined = Inr (Inr t)"
    using assms j by (cases joined; cases "projr joined") (auto simp: server_main_start_def)
  obtain maxN rmNumber where args: "server_read_args argv mem = Inr (maxN, rmNumber)"
    using assms j t by (cases "server_read_args argv mem") (auto simp: server_main_start_def)
  show ?thesis
    using assms j t args
    by (cases "prepareReplicationManager (st_attempt calls) (st_replicas calls) rmNumber
        (s\<lparr>s_world := (s_world s)\<lparr>w_primary := isServerPrimary t\<rparr>\<rparr>)")
      (auto simp: server_main_start_def)
qed

lemma feConnections_fold:
  "fold (\<lambda>feAddress (s, started).
        let (socketId, w) = getSocketFromAddress feAddress (s_world s)
        in (s\<lparr>s_world := w\<rparr>, started @ [(feAddress, socketId)])) as (s, st) =
    (t, st') \<Longrightarrow> st' = st @ map (\<lambda>a. (a, socket_of (w_book (s_world s)) a)) as \<and>
      s_feAddresses t = s_feAddresses s \<and> s_manager t = s_manager s \<and>
      socket_of (w_book (s_world t)) = socket_of (w_book (s_world s))"
proof (induction as arbitrary: s st)
  case Nil
  then show ?case by simp
next
  case (Cons a as)
  obtain w where w: "getSocketFromAddress a (s_world s) = (socket_of (w_book (s_world s)) a, w)"
      "sends_only [] (s_world s) w"
    using getSocketFromAddress_char by blast
  then have "socket_of (w_book w) = socket_of (w_book (s_world s))" by (simp add: sends_only_def)
  then show ?case using Cons.IH [of "s\<lparr>s_world := w\<rparr>"] Cons.prems w(1) by fastforce
qed

end
