(* ===== verification/Samples.thy ===== *)
theory Samples
  imports Apps Group_Delivery
begin

section \<open>Concrete inputs\<close>

text \<open>
  Packets, environments and states at which the witnesses of the properties are evaluated: users
  of the group \<open>room\<close> behind two front ends.
\<close>

definition blank_packet :: packet where
  "blank_packet = \<lparr>p_status = 0, p_username = replicate 20 NUL, p_user_id = replicate 37 NUL,
     p_group = replicate 20 NUL, p_message = replicate 255 NUL, p_message_id = replicate 37 NUL,
     p_clientSocket = 0, p_frontEndAddress = replicate 100 NUL, p_clientDispositiveIdentifier = 0,
     p_timestamp = 0, p_type = 0\<rparr>"

definition sample_env :: env where
  "sample_env = \<lparr>e_mem = blank_packet, e_uuid = generate_uuid_v4 (\<lambda>i. 9), e_now = 100, e_int = 0\<rparr>"

definition sample_packet :: "c_int \<Rightarrow> string \<Rightarrow> string \<Rightarrow> string \<Rightarrow> packet" where
  "sample_packet ty uid name text =
     the (Packet_full blank_packet (e_uuid sample_env) name ''room'' text 1 uid ty)"

definition fe1 :: string where "fe1 = ''127.0.0.1:6969''"

definition fe2 :: string where "fe2 = ''127.0.0.1:6970''"

definition join_anna :: packet where "join_anna = sample_packet JOIN_PACKET ''id-anna-1'' ''anna'' ''''"

definition join_anna2 :: packet where "join_anna2 = sample_packet JOIN_PACKET ''id-anna-2'' ''anna'' ''''"

definition join_anna3 :: packet where "join_anna3 = sample_packet JOIN_PACKET ''id-anna-3'' ''anna'' ''''"

definition join_bob :: packet where "join_bob = sample_packet JOIN_PACKET ''id-bob'' ''bob'' ''''"

definition say_anna :: packet where "say_anna = sample_packet MESSAGE_PACKET ''id-anna-1'' ''anna'' ''hello''"

definition leave_anna2 :: packet where
  "leave_anna2 = sample_packet DISCONNECT_PACKET ''id-anna-2'' ''anna'' ''''"

abbreviation from_fe1 :: "packet \<Rightarrow> server_event" where
  "from_fe1 p \<equiv> FE_Packet sample_env ''fe-gone'' [] fe1 5 p"

abbreviation from_fe2 :: "packet \<Rightarrow> server_event" where
  "from_fe2 p \<equiv> FE_Packet sample_env ''fe-gone'' [] fe2 6 p"

definition sample_events :: "server_event list" where
  "sample_events = [from_fe1 join_anna, from_fe1 join_bob, from_fe2 join_anna2]"

text \<open>
  The state after these events, with the front ends on sockets 5 and 6 and nothing sent yet: anna
  has a session through each front end, bob one through the first.
\<close>

definition sample_room :: chat_group where
  "sample_room = \<lparr>g_groupName = ''room'',
     g_users = [\<lparr>u_username = ''anna'', u_clientIdentifiers = [(''id-anna-1'', fe1), (''id-anna-2'', fe2)]\<rparr>,
                \<lparr>u_username = ''bob'', u_clientIdentifiers = [(''id-bob'', fe1)]\<rparr>],
     g_messages_queue = [], g_maxMessages = 0, g_consumer_locked = True\<rparr>"

definition sample_server :: "bool \<Rightarrow> server" where
  "sample_server primary = (Server [] primary 0 0)
     \<lparr>s_manager := \<lparr>gm_groupMap = [(''room'', sample_room)], gm_maxMessages = 0\<rparr>,
      s_connectionsCount := [(''anna'', 2), (''bob'', 1)], s_feAddresses := [fe1, fe2],
      s_world := \<lparr>w_files = [], w_book = [(fe1, 5), (fe2, 6)], w_sent = [], w_primary = primary\<rparr>\<rparr>"

lemma sample_env_ok: "env_ok sample_env"
  by code_simp

lemma sample_events_ok: "\<forall>ev\<in>set sample_events. event_ok ev"
  by code_simp

lemma sample_run:
  "map_option (\<lambda>s. (s_manager s, s_connectionsCount s)) (foldM server_step sample_events (Server [] False 0 0)) =
     Some (s_manager (sample_server False), s_connectionsCount (sample_server False))"
  by code_simp

lemma sample_server_ok: "server_ok (sample_server primary)"
proof -
  obtain s where s: "foldM server_step sample_events (Server [] False 0 0) = Some s"
      "s_manager s = s_manager (sample_server False)"
      "s_connectionsCount s = s_connectionsCount (sample_server False)"
    using sample_run by auto
  have "s_manager (sample_server primary) = s_manager s"
    "s_connectionsCount (sample_server primary) = s_connectionsCount s"
    unfolding s(2,3) by (simp_all add: sample_server_def)
  then show ?thesis using server_ok_cong server_run_ok [OF s(1) sample_events_ok] by blast
qed

end
