(* ===== verification/Server_Properties.thy ===== *)
theory Server_Properties
  imports Samples
begin

section \<open>Properties of the server\<close>

text \<open>
  What the server promises, over the whole of its handlers: the accounting of sessions, the effect
  of joining and leaving on every branch, the table of members the server implements, the input on
  which it is never stuck, the loss of a front end, and passive replication. Each
  property with hypotheses is followed by a concrete run at which they hold.
\<close>

subsection \<open>Sessions\<close>

text \<open>
  C1: After any sequence of events the count the server keeps for a user is the number of
  sessions the user has over all groups, and no user ever has more than two.
\<close>

theorem session_accounting:
  assumes "foldM server_step evs (Server fs primary mem mem') = Some s"
    and "\<forall>ev\<in>set evs. event_ok ev"
  shows "count_of (s_connectionsCount s) name = int (total_sessions name (groups_of s)) \<and>
    total_sessions name (groups_of s) \<le> 2"
proof -
  have "server_ok s" using server_run_ok [OF assms] .
  then show ?thesis by (simp add: server_ok_def MAX_NUMBER_OF_SIMULTANEOUS_CONNECTIONS_def)
qed

theorem session_accounting_witness:
  "\<exists>s. foldM server_step sample_events (Server [] False 0 0) = Some s \<and>
     count_of (s_connectionsCount s) ''anna'' = int (total_sessions ''anna'' (groups_of s))"
proof -
  have "foldM server_step sample_events (Server [] False 0 0) \<noteq> None" by code_simp
  then obtain s where "foldM server_step sample_events (Server [] False 0 0) = Some s" by blast
  then show ?thesis using session_accounting [OF _ sample_events_ok, of "[]" False 0 0 s "''anna''"] by blast
qed

text \<open>
  A registration is refused exactly when the user already has two sessions; then no session
  and no count changes, and a primary answers with one refusal packet for that client.
\<close>

lemma third_session_refused:
  assumes "server_ok s" and "c_str (p_username p) = Some name" and "ids_apart p f"
    and "registerUserToServer e p f s = Some (r, s')"
  shows "(r = -1 \<longleftrightarrow> total_sessions name (groups_of s) = 2) \<and>
    (r = -1 \<longrightarrow> groups_of s' = groups_of s \<and> s_connectionsCount s' = s_connectionsCount s \<and>
       (\<exists>refusal. p_type refusal = CONNECTION_REFUSED_PACKET \<and>
          c_str (p_user_id refusal) = c_str (p_user_id p) \<and>
          w_sent (s_world s') = w_sent (s_world s) @
            (if w_primary (s_world s) then [(socket_of (w_book (s_world s)) f, refusal)] else [])))"
  using assms(1,4)
proof (cases rule: register_cases)
  case (refused n)
  then have "n = name" using assms(2) by simp
  then show ?thesis
    using register_refused [OF assms(1,2) _ assms(4)] refused(2)
    by (fastforce simp: groups_of_def sends_only_def MAX_NUMBER_OF_SIMULTANEOUS_CONNECTIONS_def)
next
  case (accepted n)
  then have "n = name" using assms(2) by simp
  then show ?thesis
    using register_accepted [OF assms(1,2) _ assms(3,4)] accepted(2)
    by (auto simp: MAX_NUMBER_OF_SIMULTANEOUS_CONNECTIONS_def)
qed

lemma third_session_refused_witness:
  "\<exists>r s'. registerUserToServer sample_env join_anna3 fe1 (sample_server True) = Some (r, s') \<and> r = -1 \<and>
     groups_of s' = groups_of (sample_server True)"
proof -
  have "registerUserToServer sample_env join_anna3 fe1 (sample_server True) \<noteq> None" by code_simp
  then obtain r s' where reg: "registerUserToServer sample_env join_anna3 fe1 (sample_server True) = Some (r, s')"
    by auto
  have n: "c_str (p_username join_anna3) = Some ''anna''" by code_simp
  have i: "ids_apart join_anna3 fe1" by code_simp
  have "total_sessions ''anna'' (groups_of (sample_server True)) = 2" by code_simp
  then show ?thesis using third_session_refused [OF sample_server_ok n i reg] reg by blast
qed

text \<open>
  Any other registration succeeds and adds exactly one session, of that user, with that
  client and front end, at the end of the user's sessions in the group named; every other user's
  sessions and every other group stay as they were.
\<close>

lemma join_adds_one_session:
  assumes "server_ok s" and "c_str (p_username p) = Some name"
    and "total_sessions name (groups_of s) < 2" and "ids_apart p f"
    and "registerUserToServer e p f s = Some (r, s')"
  shows "r = 0 \<and> (\<forall>n. total_sessions n (groups_of s') =
      total_sessions n (groups_of s) + (if n = name then 1 else 0)) \<and>
    (\<exists>uid gname g g'. c_str (p_user_id p) = Some uid \<and> c_str (p_group p) = Some gname \<and>
       map_find (groups_of s') gname = Some g' \<and>
       g_users g' = add_session name (uid, f) (g_users g) \<and>
       (map_find (groups_of s) gname = Some g \<or> map_find (groups_of s) gname = None \<and> g_users g = []) \<and>
       (\<forall>k. k \<noteq> gname \<longrightarrow> map_find (groups_of s') k = map_find (groups_of s) k))"
  using register_accepted [OF assms(1,2) _ assms(4,5)] assms(3)
  by (simp add: MAX_NUMBER_OF_SIMULTANEOUS_CONNECTIONS_def)

lemma join_adds_one_session_witness:
  "\<exists>s'. registerUserToServer sample_env join_bob fe2 (sample_server False) = Some (0, s') \<and>
     total_sessions ''bob'' (groups_of s') = 2"
proof -
  have "registerUserToServer sample_env join_bob fe2 (sample_server False) \<noteq> None" by code_simp
  then obtain r s' where reg: "registerUserToServer sample_env join_bob fe2 (sample_server False) = Some (r, s')"
    by auto
  have n: "c_str (p_username join_bob) = Some ''bob''" by code_simp
  have i: "ids_apart join_bob fe2" by code_simp
  have one: "total_sessions ''bob'' (groups_of (sample_server False)) = 1" by code_simp
  have lt: "total_sessions ''bob'' (groups_of (sample_server False)) < 2" using one by simp
  show ?thesis using join_adds_one_session [OF sample_server_ok n lt i reg] reg one by simp
qed

text \<open>
  When a client disconnects, exactly its session goes, from the first place it has in each
  group; all other sessions and all groups stay, and the accounting stays right.
\<close>

lemma client_disconnect_removes_its_session:
  assumes "server_ok s" and "closeClientConnection tag now (c, f) s = Some s'" and "c \<noteq> f" and "c \<noteq> tag"
  shows "server_ok s' \<and> map fst (groups_of s') = map fst (groups_of s) \<and>
    map (\<lambda>e. conns (snd e)) (groups_of s') = map (\<lambda>e. remove1 (c, f) (conns (snd e))) (groups_of s)"
  using closeClientConnection_effect [OF assms(1-3)] assms(4) by simp

lemma client_disconnect_removes_its_session_witness:
  "\<exists>s'. closeClientConnection ''fe-gone'' 7 (''id-anna-2'', fe2) (sample_server True) = Some s' \<and>
     server_ok s' \<and> map fst (groups_of s') = map fst (groups_of (sample_server True))"
proof -
  have "closeClientConnection ''fe-gone'' 7 (''id-anna-2'', fe2) (sample_server True) \<noteq> None" by code_simp
  then obtain s' where c: "closeClientConnection ''fe-gone'' 7 (''id-anna-2'', fe2) (sample_server True) = Some s'"
    by blast
  have "''id-anna-2'' \<noteq> fe2" "''id-anna-2'' \<noteq> ''fe-gone''" by code_simp+
  then show ?thesis using client_disconnect_removes_its_session [OF sample_server_ok c] c by blast
qed

text \<open>
  C32: Releasing a session is defined exactly when the client's identifier is not among the older
  sessions of the user: with two sessions the older one cannot be released without a read past
  the end of the vector.
\<close>

theorem only_newest_session_can_leave:
  assumes "c \<noteq> f"
  shows "(\<exists>st. disconnectSession primary now c f (g, cs) = Some st) \<longleftrightarrow>
    (\<forall>i. getUserFromConnectionId c f g = Some i \<longrightarrow>
       c \<notin> fst ` set (butlast (u_clientIdentifiers (g_users g ! i))))"
  by (rule disconnectSession_defined_iff [OF assms])

theorem only_newest_session_can_leave_witness:
  "(\<exists>st. disconnectSession True 7 ''a'' ''f''
      (Group 0 ''room''\<lparr>g_users := [\<lparr>u_username = ''u'', u_clientIdentifiers = [(''a'', ''f''), (''b'', ''f'')]\<rparr>]\<rparr>, []) = Some st)
   = False"
proof -
  let ?g = "Group 0 ''room''\<lparr>g_users := [\<lparr>u_username = ''u'', u_clientIdentifiers = [(''a'', ''f''), (''b'', ''f'')]\<rparr>]\<rparr>"
  have "getUserFromConnectionId ''a'' ''f'' ?g = Some 0" by code_simp
  moreover have "''a'' \<in> fst ` set (butlast (u_clientIdentifiers (g_users ?g ! 0)))" by code_simp
  moreover have "''a'' \<noteq> ''f''" by simp
  ultimately show ?thesis using only_newest_session_can_leave [of "''a''" "''f''" True 7 ?g "[]"] by blast
qed



subsection \<open>Types\<close>


lemma no_files_readable: "readable mx k []"
  using history_rep_empty [of "[]" k mx] by (auto simp: readable_def file_content_def)


subsection \<open>Losing a front end\<close>

text \<open>
  Losing a front end removes exactly the sessions that came through it, closes its socket and
  forgets its address, so that doing it again changes nothing; here the two reads of the
  \<open>FE_DISCONNECT\<close> pointer agree.
\<close>

lemma front_end_loss:
  assumes "server_ok s" and "f \<in> set (s_feAddresses s)" and "tag \<noteq> f"
    and "closeFrontEndConnection tag tag now f s = Some s'"
  shows "server_ok s' \<and> closeFrontEndConnection tag tag later f s' = Some s' \<and>
    s_closed s' = s_closed s @ [socket_of (w_book (s_world s)) f] \<and>
    map (\<lambda>e. conns (snd e)) (groups_of s') =
      map (\<lambda>e. filter (\<lambda>x. snd x \<noteq> f) (conns (snd e))) (groups_of s)"
  using closeFrontEndConnection_effect [OF assms(1,2,4,3)] closeFrontEndConnection_unknown by simp

lemma front_end_loss_witness:
  "\<exists>s'. closeFrontEndConnection ''tag'' ''tag'' 7 fe2 (sample_server True) = Some s' \<and> server_ok s' \<and>
     s_closed s' = s_closed (sample_server True) @ [socket_of (w_book (s_world (sample_server True))) fe2]"
proof -
  have "closeFrontEndConnection ''tag'' ''tag'' 7 fe2 (sample_server True) \<noteq> None" by code_simp
  then obtain s' where c: "closeFrontEndConnection ''tag'' ''tag'' 7 fe2 (sample_server True) = Some s'" by blast
  have "fe2 \<in> set (s_feAddresses (sample_server True))" "''tag'' \<noteq> fe2" by code_simp+
  then show ?thesis using front_end_loss [OF sample_server_ok _ _ c] c by blast
qed

text \<open>
  \<open>FE_DISCONNECT\<close> points into a string that is gone, so its two reads may differ; then the
  loss of a front end removes no session at all, unless some client has the first read for its
  identifier.
\<close>

lemma front_end_loss_dangling:
  assumes "server_ok s" and "f \<in> set (s_feAddresses s)" and "sent \<noteq> f" and "sent \<noteq> compared"
    and "(sent, f) \<notin> set (all_conns (groups_of s))"
    and "closeFrontEndConnection sent compared now f s = Some s'"
  shows "map (\<lambda>e. conns (snd e)) (groups_of s') = map (\<lambda>e. conns (snd e)) (groups_of s) \<and>
    f \<notin> set (s_feAddresses s')"
proof -
  have "remove1 (sent, f) (conns (snd e)) = conns (snd e)" if "e \<in> set (groups_of s)" for e
    using assms(5) that by (auto simp: all_conns_def remove1_idem)
  then show ?thesis
    using closeFrontEndConnection_effect [OF assms(1,2,6,3)] assms(4) by (simp cong: map_cong)
qed

lemma front_end_loss_dangling_witness:
  "\<exists>s'. closeFrontEndConnection ''fe'' ''garbage'' 7 fe2 (sample_server True) = Some s' \<and>
     map (\<lambda>e. conns (snd e)) (groups_of s') = map (\<lambda>e. conns (snd e)) (groups_of (sample_server True))"
proof -
  have "closeFrontEndConnection ''fe'' ''garbage'' 7 fe2 (sample_server True) \<noteq> None" by code_simp
  then obtain s' where c: "closeFrontEndConnection ''fe'' ''garbage'' 7 fe2 (sample_server True) = Some s'" by blast
  have h: "fe2 \<in> set (s_feAddresses (sample_server True))" "''fe'' \<noteq> fe2" "''fe'' \<noteq> ''garbage''"
    "(''fe'', fe2) \<notin> set (all_conns (groups_of (sample_server True)))"
    by code_simp+
  then show ?thesis using front_end_loss_dangling [OF sample_server_ok h c] c by blast
qed



subsection \<open>Replication\<close>

text \<open>
  C7: From a state in which a backup has the same groups, users, sessions and counts as the
  primary, every run of client packets, each replicated to the backup, and of the consumer threads
  on both sides, ends in such a state.
\<close>

theorem backup_stays_in_step:
  assumes "foldM pair_step evs (P, B) = Some (P', B')" and "\<forall>ev\<in>set evs. pair_event_ok ev"
    and "pair_ok (P, B)"
  shows "in_step P' B' \<and> server_ok P' \<and> server_ok B'"
  using pair.run_inv [OF assms] by (simp add: pair_ok_def)

definition sample_primary :: server where
  "sample_primary = (sample_server True)\<lparr>s_rm_sockets := [(9, 9991)]\<rparr>"

definition sample_pair_events :: "pair_event list" where
  "sample_pair_events =
     [pair_event.Client_Packet sample_env ''fe-gone'' [] fe1 5 say_anna sample_env ''gone'' 4,
      pair_event.Client_Packet sample_env ''fe-gone'' [] fe2 6 leave_anna2 sample_env ''gone'' 4]"

lemma sample_pair_ok: "pair_ok (sample_primary, sample_server False)"
proof -
  have "server_ok sample_primary"
    using server_ok_cong [of sample_primary "sample_server True"] sample_server_ok
    by (simp add: sample_primary_def)
  moreover have "in_step sample_primary (sample_server False)" "w_primary (s_world sample_primary)"
    "s_rm_sockets sample_primary \<noteq> []" "\<not> w_primary (s_world (sample_server False))"
    by code_simp+
  ultimately show ?thesis using sample_server_ok by (simp add: pair_ok_def)
qed

theorem backup_stays_in_step_witness:
  "\<exists>P' B'. foldM pair_step sample_pair_events (sample_primary, sample_server False) = Some (P', B') \<and>
     in_step P' B'"
proof -
  have "foldM pair_step sample_pair_events (sample_primary, sample_server False) \<noteq> None" by code_simp
  then obtain P' B' where r: "foldM pair_step sample_pair_events (sample_primary, sample_server False) = Some (P', B')"
    by auto
  have "\<forall>ev\<in>set sample_pair_events. pair_event_ok ev" by code_simp
  then show ?thesis using backup_stays_in_step [OF r _ sample_pair_ok] r by blast
qed

text \<open>
  For one replicated packet: every replica is sent the same copy, naming the front end; the
  backup's handler of that copy returns, leaves backup and primary in step, and queues the same
  chat messages in the same groups as the primary.
\<close>

lemma replicated_packet_same_effect:
  assumes "handleFrontEndPacket e tag confirms f sock p P = Some P'"
    and "w_primary (s_world P)" and "replicates p" and "s_rm_sockets P \<noteq> []"
    and "server_ok P" and "server_ok B" and "in_step P B" and "\<not> w_primary (s_world B)"
    and "env_ok e2" and "client_packet tag tag2 p" and "NUL \<notin> set f"
  shows "\<exists>q B'. replica_packet f p = Some q \<and> handleReplicationPacket e2 tag2 rsock q B = Some B' \<and>
    in_step P' B' \<and> same_growth P P' B B'"
  using replicated_packet [OF assms] by blast

lemma replicated_packet_same_effect_witness:
  "\<exists>P'. handleFrontEndPacket sample_env ''fe-gone'' (\<lambda>r. True) fe1 5 say_anna sample_primary = Some P' \<and>
     (\<exists>q B'. replica_packet fe1 say_anna = Some q \<and>
        handleReplicationPacket sample_env ''gone'' 4 q (sample_server False) = Some B' \<and> in_step P' B')"
proof -
  have "handleFrontEndPacket sample_env ''fe-gone'' (\<lambda>r. True) fe1 5 say_anna sample_primary \<noteq> None" by code_simp
  then obtain P' where h: "handleFrontEndPacket sample_env ''fe-gone'' (\<lambda>r. True) fe1 5 say_anna sample_primary = Some P'"
    by blast
  have ev: "replicates say_anna" "client_packet ''fe-gone'' ''gone'' say_anna" "NUL \<notin> set fe1" by code_simp+
  have P: "server_ok sample_primary" "server_ok (sample_server False)" "in_step sample_primary (sample_server False)"
    "w_primary (s_world sample_primary)" "s_rm_sockets sample_primary \<noteq> []" "\<not> w_primary (s_world (sample_server False))"
    using sample_pair_ok by (simp_all add: pair_ok_def)
  show ?thesis
    using replicated_packet_same_effect [OF h P(4) ev(1) P(5,1,2,3,6) sample_env_ok ev(2,3)] h by blast
qed

text \<open>
  C37: The loss of a front end is not replicated: the primary removes the sessions that came
  through it and sends nothing, and a backup that was in step keeps them and is no longer in step.
\<close>

theorem front_end_loss_not_replicated:
  assumes "server_ok P" and "in_step P B" and "f \<in> set (s_feAddresses P)"
    and "(c, f) \<in> set (all_conns (groups_of P))" and "tag \<noteq> f"
    and "closeFrontEndConnection tag tag now f P = Some P'"
  shows "w_sent (s_world P') = w_sent (s_world P) \<and> (c, f) \<notin> set (all_conns (groups_of P')) \<and>
    (c, f) \<in> set (all_conns (groups_of B)) \<and> \<not> in_step P' B"
  using closeFrontEnd_diverges [OF assms(1-4,6,5)] .

theorem front_end_loss_not_replicated_witness:
  "\<exists>P'. closeFrontEndConnection ''tag'' ''tag'' 7 fe2 (sample_server True) = Some P' \<and>
     \<not> in_step P' (sample_server False)"
proof -
  have "closeFrontEndConnection ''tag'' ''tag'' 7 fe2 (sample_server True) \<noteq> None" by code_simp
  then obtain P' where c: "closeFrontEndConnection ''tag'' ''tag'' 7 fe2 (sample_server True) = Some P'" by blast
  have "in_step (sample_server True) (sample_server False)" "fe2 \<in> set (s_feAddresses (sample_server True))"
    "(''id-anna-2'', fe2) \<in> set (all_conns (groups_of (sample_server True)))" "''tag'' \<noteq> fe2"
    by code_simp+
  then show ?thesis using front_end_loss_not_replicated [OF sample_server_ok _ _ _ _ c] c by blast
qed

end
