(* ===== verification/Message_Properties.thy ===== *)
theory Message_Properties
  imports Samples
begin

section \<open>Properties of messages: delivery, history and the wire\<close>

text \<open>
  What becomes of a message: a group delivers and stores it, a reader of the history gets the
  latest ones back, and packets survive the byte stream.
\<close>

subsection \<open>Delivery\<close>

text \<open>
  C15: One round of the consumer thread empties the queue: on a primary every message goes once,
  in the order of the queue, to every connection of the group and to the front end it came
  through; on every server each chat message, and no notification, is added to the history.
\<close>

theorem queue_delivered_and_stored:
  assumes "env_ok e" and "group_ok g" and "\<not> g_consumer_locked g"
    and "history_rep (g_maxMessages g) (g_groupName g) log (w_files w)"
    and "\<forall>m\<in>set (g_messages_queue g). m_isNotification m \<or> storable m \<and> m_group m = g_groupName g"
  shows "\<exists>w'. consumeMessageQueue e (g, w) = Some (g\<lparr>g_consumer_locked := True, g_messages_queue := []\<rparr>, w') \<and>
    history_rep (g_maxMessages g) (g_groupName g)
      (log @ filter (\<lambda>m. \<not> m_isNotification m) (g_messages_queue g)) (w_files w') \<and>
    w_sent w' = w_sent w @ (if w_primary w then
      concat (map (\<lambda>m. map (\<lambda>x. (socket_of (w_book w) (snd x), the (message_packet e m (fst x)))) (conns g))
        (g_messages_queue g)) else [])"
  using consumeMessageQueue_effect [OF assms] unfolding queue_packets_def broadcast_packets_def .

definition sample_message :: message where
  "sample_message = Message ''hello'' ''anna'' ''room'' 7"

definition sample_notice :: message where
  "sample_notice = setIsNotification (Message JOINED_MESSAGE ''bob'' ''room'' 8) True"

definition busy_room :: chat_group where
  "busy_room = sample_room\<lparr>g_messages_queue := [sample_message, sample_notice], g_consumer_locked := False\<rparr>"

definition sample_world :: world where
  "sample_world = s_world (sample_server True)"

lemma sample_room_ok: "group_ok sample_room" "group_ok busy_room"
  by code_simp+

lemma sample_message_storable: "storable sample_message" "m_group sample_message = ''room''"
  by (simp_all add: storable_def sample_message_def FILE_SEPARATOR_def)

lemma empty_history: "history_rep mx grp [] (w_files sample_world)"
  by (rule history_rep_empty) (simp_all add: sample_world_def sample_server_def file_content_def)

theorem queue_delivered_and_stored_witness:
  "\<exists>w'. consumeMessageQueue sample_env (busy_room, sample_world) =
      Some (busy_room\<lparr>g_consumer_locked := True, g_messages_queue := []\<rparr>, w') \<and>
     history_rep 0 ''room'' [sample_message] (w_files w') \<and> length (w_sent w') = 6"
proof -
  have f: "g_maxMessages busy_room = 0" "g_groupName busy_room = ''room''"
    "g_messages_queue busy_room = [sample_message, sample_notice]" "\<not> g_consumer_locked busy_room"
    by (simp_all add: busy_room_def sample_room_def)
  have q: "\<forall>m\<in>set (g_messages_queue busy_room). m_isNotification m \<or> storable m \<and> m_group m = g_groupName busy_room"
    using sample_message_storable by (simp add: f sample_notice_def)
  have n: "\<not> m_isNotification sample_message" "m_isNotification sample_notice"
    by (simp_all add: sample_message_def sample_notice_def)
  have "length (conns busy_room) = 3" "w_primary sample_world" "w_sent sample_world = []" by code_simp+
  then show ?thesis
    using queue_delivered_and_stored [OF sample_env_ok sample_room_ok(2) f(4) empty_history q] n f
    by auto
qed

text \<open>
  On a primary, a client that registers with a group is sent the accept packet first and then
  the last messages of the history, at most the limit, oldest first, all to the socket of its front
  end; the group announces the user only when he had no session in it.
\<close>

lemma join_gets_accept_then_history:
  assumes "env_ok e" and "length c < UUID_SIZE" and "NUL \<notin> set c" and "w_primary w"
    and "history_rep (g_maxMessages g) (g_groupName g) log (w_files w)"
  shows "\<exists>r g' w' a. registerNewSession e c f name (g, w) = Some (r, g', w') \<and>
    p_type a = ACCEPT_PACKET \<and> c_str (p_user_id a) = Some c \<and>
    w_sent w' = w_sent w @ (socket_of (w_book w) f, a) #
      map (\<lambda>m. (socket_of (w_book w) f, the (message_packet e m c)))
        (last_n (history_limit (g_maxMessages g)) log) \<and>
    g_messages_queue g' = g_messages_queue g @
      (if name \<in> u_username ` set (g_users g) then []
       else [setIsNotification (Message JOINED_MESSAGE name (g_groupName g) (e_now e)) True])"
  using registerNewSession_sends [OF assms(1-4), of g log f name] assms(5)
  unfolding history_packets_def by blast

definition spoken_world :: world where
  \<comment> \<open>the world in which one message has been said in the room\<close>
  "spoken_world = sample_world\<lparr>w_files := appendGroupMessageToHistory 0 sample_message (w_files sample_world)\<rparr>"

lemma spoken_history: "history_rep 0 ''room'' [sample_message] (w_files spoken_world)"
  using csv.append_law [OF empty_history [of 0 "''room''"], of sample_message] sample_message_storable
  by (simp add: spoken_world_def)

lemma join_gets_accept_then_history_witness:
  "\<exists>r g' w'. registerNewSession sample_env ''id-carl'' fe2 ''carl'' (sample_room, spoken_world) = Some (r, g', w') \<and>
     length (w_sent w') = 2 \<and> length (g_messages_queue g') = 1"
proof -
  have c: "length ''id-carl'' < UUID_SIZE" "NUL \<notin> set ''id-carl''" by (simp_all add: UUID_SIZE_def)
  have w: "w_primary spoken_world" "w_sent spoken_world = []"
    by (simp_all add: spoken_world_def sample_world_def sample_server_def)
  have g: "g_maxMessages sample_room = 0" "g_groupName sample_room = ''room''"
    "''carl'' \<notin> u_username ` set (g_users sample_room)" "g_messages_queue sample_room = []"
    by (simp_all add: sample_room_def)
  have r: "history_rep (g_maxMessages sample_room) (g_groupName sample_room) [sample_message] (w_files spoken_world)"
    using spoken_history g by simp
  have "history_limit 0 = 10"
    by (simp add: history_limit_def getMaxNumberOfMessagesInHistory_def DEFAULT_NUMBER_OF_RECORDED_MESSAGES_def)
  then show ?thesis
    using join_gets_accept_then_history [OF sample_env_ok c w(1) r, of fe2 "''carl''"] g w(2) by fastforce
qed

subsection \<open>History\<close>

text \<open>
  C16: After any sequence of appends and reads of a group's history, a read gives the last
  messages appended, at most the limit: the file is a bounded log.
\<close>

theorem history_is_bounded_log:
  assumes "map_wf fs" and "file_content fs (groupFile grp) = []" and "file_content fs (tempGroupFile grp) = []"
    and "\<forall>m\<in>set (appended ops). storable m \<and> m_group m = grp"
  shows "\<exists>fs' fs''. run_history (appendGroupMessageToHistory mx) (readGroupHistoryMessages mx grp) ops fs = Some fs' \<and>
    readGroupHistoryMessages mx grp fs' = Some (last_n (history_limit mx) (appended ops), fs'')"
  by (rule csv.read_after_run [OF history_rep_empty [OF assms(1-3)] assms(4)])

theorem history_is_bounded_log_witness:
  "\<exists>fs' fs''. run_history (appendGroupMessageToHistory 1) (readGroupHistoryMessages 1 ''room'')
       [Append_Msg sample_message, Read_History, Append_Msg (sample_message\<lparr>m_text := ''bye''\<rparr>)] [] = Some fs' \<and>
     readGroupHistoryMessages 1 ''room'' fs' = Some ([sample_message\<lparr>m_text := ''bye''\<rparr>], fs'')"
proof -
  have "history_limit 1 = 1" by (simp add: history_limit_def getMaxNumberOfMessagesInHistory_def)
  moreover have "\<forall>m\<in>set (appended [Append_Msg sample_message, Read_History,
      Append_Msg (sample_message\<lparr>m_text := ''bye''\<rparr>)]). storable m \<and> m_group m = ''room''"
    by (simp add: storable_def sample_message_def FILE_SEPARATOR_def)
  ultimately show ?thesis
    using history_is_bounded_log [of "[]" "''room''" _ 1] by (fastforce simp: file_content_def last_n_def)
qed

text \<open>
  The file of a group never has more than one line more than the limit, and it holds the lines
  of the last messages, in order.
\<close>

lemma history_file_bounded:
  assumes "history_rep mx grp log fs" and "\<forall>m\<in>set (appended ops). storable m \<and> m_group m = grp"
    and "run_history (appendGroupMessageToHistory mx) (readGroupHistoryMessages mx grp) ops fs = Some fs'"
  shows "length (getlines LF (file_content fs' (groupFile grp))) \<le> history_limit mx + 1 \<and>
    (\<exists>k\<ge>history_limit mx. getlines LF (file_content fs' (groupFile grp)) =
      map message_line (last_n k (log @ appended ops)))"
proof -
  have "history_rep mx grp (log @ appended ops) fs'"
    using csv.run_rep [OF assms(1,2)] assms(3) by auto
  from history_rep_lines [OF this] obtain k where
      k: "k = history_limit mx \<or> k = Suc (history_limit mx)"
        "getlines LF (file_content fs' (groupFile grp)) = map message_line (last_n k (log @ appended ops))"
    by blast
  then show ?thesis by (intro conjI exI [of _ k]) auto
qed

lemma history_file_bounded_witness:
  "length (getlines LF (file_content (w_files spoken_world) (groupFile ''room''))) \<le> history_limit 0 + 1"
  using history_file_bounded [OF spoken_history, of "[]"] by simp

text \<open>
  A message whose texts have neither the separator nor a line break reads back from its row
  unchanged, and the rows of one group's file do not depend on appends to another group.
\<close>

lemma history_row_roundtrip:
  assumes "storable m" and "map_wf fs" and "m_group m \<noteq> grp"
  shows "parse_row (m_group m) (message_line m) = Some m \<and>
    file_content (appendGroupMessageToHistory mx m fs) (groupFile grp) = file_content fs (groupFile grp)"
  using parse_row_message_line [OF assms(1)] append_other [OF assms(2), of "groupFile grp" m mx] assms(3)
  by simp

lemma history_row_roundtrip_witness:
  "parse_row ''room'' (message_line sample_message) = Some sample_message"
  using history_row_roundtrip [OF sample_message_storable(1), of "[]" "''other''" 0] sample_message_storable(2)
  by simp

subsection \<open>The wire\<close>

text \<open>The bytes of a packet object read back as the same packet, whatever its padding holds.\<close>

lemma packet_image_roundtrip:
  assumes "packet_sized p" and "length pad = 11"
  shows "length (packet_image pad p) = packetSize \<and> image_packet (packet_image pad p) = p"
  using length_packet_image [OF assms] image_packet_image [OF assms] by simp

text \<open>
  C25: However the stream is cut into chunks, the reader handles exactly the packets written, in
  order, and then sees the end of the connection.
\<close>

theorem chunks_reassembled:
  assumes "\<forall>p\<in>set ps. packet_sized p" and "length pad = 11"
    and "stream_bytes as = concat (map (packet_image pad) ps)" and "chunks_ok as" and "closes as"
  shows "map_option (map image_packet) (receive_loop as) = Some ps"
proof -
  have "receive_loop as = Some (map (packet_image pad) ps)"
    using assms length_packet_image by (intro receive_loop_images) auto
  moreover have "map (\<lambda>p. image_packet (packet_image pad p)) ps = ps"
    using assms(1,2) image_packet_image by (simp add: map_idI)
  ultimately show ?thesis by (simp add: comp_def)
qed

definition two_chunks :: "string \<Rightarrow> arrival list" where
  "two_chunks im = [Bytes (take 100 im), Bytes (drop 100 im), Closed]"

theorem chunks_reassembled_witness:
  "map_option (map image_packet) (receive_loop (two_chunks (packet_image (replicate 11 CHR ''x'') join_anna))) =
     Some [join_anna]"
proof -
  let ?im = "packet_image (replicate 11 CHR ''x'') join_anna"
  have s: "packet_sized join_anna" by code_simp
  then have l: "length ?im = 504" using length_packet_image [of join_anna "replicate 11 CHR ''x''"]
    by (simp add: packetSize_def)
  have "stream_bytes (two_chunks ?im) = ?im" by (simp add: two_chunks_def)
  moreover have "take 100 ?im \<noteq> []" "drop 100 ?im \<noteq> []" using l by auto
  then have "chunks_ok (two_chunks ?im)" by (simp add: chunks_ok_def two_chunks_def)
  moreover have "closes (two_chunks ?im)" by (simp add: two_chunks_def)
  ultimately show ?thesis using chunks_reassembled [of "[join_anna]" "replicate 11 CHR ''x''" "two_chunks ?im"] s by simp
qed

text \<open>A connection that ends within a packet is reported as ended: no partial packet is handled.\<close>

lemma partial_packet_not_handled:
  assumes "readPacket True as = Some (got, conn, as')" and "length got < packetSize"
  shows "\<not> conn \<and> receive_loop as = Some []"
proof -
  have "\<not> conn"
    using read_loop_ends [OF assms(1) [unfolded readPacket_def] _ assms(2)] by (simp add: packetSize_def)
  then show ?thesis using assms(1) by (subst receive_loop.simps) simp
qed

end
