(* ===== verification/Thread_Properties.thy ===== *)
theory Thread_Properties
  imports Samples
begin

section \<open>Properties of the threads\<close>

text \<open>
  Mutual exclusion of the semaphore, the three hand-offs of messages to a consumer thread, and
  the keep-alive monitor.
\<close>

subsection \<open>The semaphore\<close>

text \<open>
  C27: With any number of threads, each of which calls \<open>wait\<close> and later \<open>post\<close>, and without
  spurious wake-ups: at most \<open>init\<close> threads are between their calls, while a thread is blocked
  all permits are out, so that a wake-up is still to come for it, and with a permit to give the
  threads are never all blocked: one of them can move.
\<close>

theorem semaphore_excludes:
  assumes "reachable_sem False init n s" and "0 \<le> init"
  shows "int (threads_at Inside s) \<le> init \<and>
    (0 < threads_at Blocked s \<longrightarrow> int (threads_at Inside s) + int (threads_at Notified s) = init) \<and>
    (0 < init \<and> 0 < n \<longrightarrow> (\<exists>s'. sem_step False s s'))"
  using sem_inv_reachable [OF assms] sem_no_deadlock [OF assms(1)] reachable_sem_threads [OF assms(1)]
  by (auto simp: sem_inv_def)

theorem semaphore_excludes_witness:
  "reachable_sem False 1 2 (sem_wait 1 (sem_wait 0 (Semaphore 1 2))) \<and>
   threads_at Blocked (sem_wait 1 (sem_wait 0 (Semaphore 1 2))) = 1 \<and>
   int (threads_at Inside (sem_wait 1 (sem_wait 0 (Semaphore 1 2)))) \<le> 1"
proof -
  have "reachable_sem False 1 2 (sem_wait 0 (Semaphore 1 2))"
    by (rule reachable_sem_step [OF reachable_sem_init sem_step.Wait]) (simp_all add: Semaphore_def)
  then have r: "reachable_sem False 1 2 (sem_wait 1 (sem_wait 0 (Semaphore 1 2)))"
    by (rule reachable_sem_step [OF _ sem_step.Wait]) (simp_all add: Semaphore_def sem_wait_def numeral_2_eq_2)
  moreover have "threads_at Blocked (sem_wait 1 (sem_wait 0 (Semaphore 1 2))) = 1" by code_simp
  ultimately show ?thesis using semaphore_excludes [OF r] by simp
qed

text \<open>
  The wait does not test its condition again: with spurious wake-ups, which C++ allows, two
  threads can be inside a semaphore with one permit.
\<close>

lemma spurious_wakeup_breaks_exclusion:
  "\<exists>s. reachable_sem True 1 3 s \<and> threads_at Inside s = 2"
proof -
  have "threads_at Inside (last spurious_run) = 2" by code_simp
  then show ?thesis using spurious_run_reachable by blast
qed

subsection \<open>Hand-offs\<close>

text \<open>
  C19: The queue of a group, under any interleaving of its producers and its consumer: what was
  pushed is what has been finished, then the message in work, then the queue, in this order; and
  once no thread can move, every message pushed has been finished.
\<close>

theorem group_queue_exactly_once:
  assumes "mailbox_reachable s"
  shows "mb_pushed s = mb_done s @ in_work (mb_consumer s) @ mb_queue s \<and>
    (mailbox_quiet s \<longrightarrow> mb_done s = mb_pushed s)"
  using group_queue.fifo [of s] mailbox_quiet_all_done [OF assms] assms
  by (simp add: mailbox_reachable_def)

lemma mailbox_push_reachable:
  "mailbox_reachable (mailbox0\<lparr>mb_queue := [m], mb_pushed := [m], mb_unlocks := 1\<rparr>)"
  unfolding mailbox_reachable_def
  using mailbox_step.Push [of mailbox0 m] by (simp add: mailbox0_def r_into_rtranclp)

theorem group_queue_exactly_once_witness:
  "\<exists>s::nat mailbox. mailbox_reachable s \<and> mb_queue s = [7] \<and>
     mb_pushed s = mb_done s @ in_work (mb_consumer s) @ mb_queue s"
proof -
  let ?s = "mailbox0\<lparr>mb_queue := [7], mb_pushed := [7], mb_unlocks := 1\<rparr> :: nat mailbox"
  have r: "mailbox_reachable ?s" by (rule mailbox_push_reachable)
  then show ?thesis using group_queue_exactly_once [OF r] by (intro exI [of _ ?s]) simp
qed

text \<open>
  The functions on a group's queue are schedules of these threads: adding a message is a push
  and its unlock, and one round of the consumer takes the whole queue, in order.
\<close>

lemma group_queue_refines_threads:
  assumes "\<not> g_consumer_locked (addMessageToMessageQueue m g)"
    and "consumeMessageQueue e (addMessageToMessageQueue m g, w) = Some (g', w')"
  shows "mailbox_step\<^sup>*\<^sup>* (mailbox_of D A g) (mailbox_of (D @ g_messages_queue g @ [m]) (A @ [m]) g') \<and>
    g_messages_queue g' = []"
proof -
  have "mailbox_step\<^sup>*\<^sup>* (mailbox_of D (A @ [m]) (addMessageToMessageQueue m g))
      (mailbox_of (D @ g_messages_queue (addMessageToMessageQueue m g)) (A @ [m]) g')"
    by (rule consume_is_run [OF assms(2,1)])
  moreover have "g_messages_queue g' = []"
    using assms consume_loop_queue by (auto simp: consumeMessageQueue_def split: if_splits)
  ultimately show ?thesis using push_is_run [of D A g m] by simp
qed

lemma group_queue_refines_threads_witness:
  "\<exists>g' w'. consumeMessageQueue sample_env
      (addMessageToMessageQueue (Message ''hi'' ''bob'' ''room'' 3) (Group 0 ''room''), s_world (sample_server False)) =
      Some (g', w') \<and> g_messages_queue g' = []"
proof -
  let ?g = "Group 0 ''room''" and ?m = "Message ''hi'' ''bob'' ''room'' 3"
  have l: "\<not> g_consumer_locked (addMessageToMessageQueue ?m ?g)"
    by (simp add: addMessageToMessageQueue_def)
  have "consumeMessageQueue sample_env (addMessageToMessageQueue ?m ?g, s_world (sample_server False)) \<noteq> None"
    by (simp add: consumeMessageQueue_def l consumeMessage_def sample_server_def Group_def
        addMessageToMessageQueue_def)
  then obtain g' w' where c: "consumeMessageQueue sample_env
      (addMessageToMessageQueue ?m ?g, s_world (sample_server False)) = Some (g', w')"
    by auto
  show ?thesis using group_queue_refines_threads [OF l c] c by blast
qed

text \<open>
  C28: A client sends what is typed once and in order, and never has more than one message
  unacknowledged: it has sent at most one more than the acknowledgements it has read.
\<close>

theorem client_waits_for_acks:
  assumes "outbox_reachable s"
  shows "ob_typed s = ob_sent s @ to_send (ob_sender s) @ ob_queue s \<and>
    length (ob_sent s) \<le> ob_acks s + 1"
  using client_queue.fifo [of s] client_queue.invariant [of s] assms
  by (auto simp: outbox_reachable_def outbox_inv_def split: if_splits)

theorem client_waits_for_acks_witness:
  "\<exists>s::nat outbox. outbox_reachable s \<and> ob_queue s = [7] \<and> length (ob_sent s) \<le> ob_acks s + 1"
proof -
  let ?s = "outbox0\<lparr>ob_queue := [7], ob_typed := [7], ob_unlocks := 1\<rparr> :: nat outbox"
  have r: "outbox_reachable ?s"
    unfolding outbox_reachable_def using outbox_step.Type [of outbox0 "7::nat"]
    by (simp add: outbox0_def r_into_rtranclp)
  then show ?thesis using client_waits_for_acks [OF r] by (intro exI [of _ ?s]) simp
qed

text \<open>
  The single slot of a front end loses and overwrites nothing: what has been stored in it is
  what has been forwarded and at most the one message still in it, and a full slot whose consumer
  sleeps has its wake-up on the way.
\<close>

lemma slot_never_overwritten:
  assumes "slot_reachable s"
  shows "sl_stored s = sl_sent s @ slot_queue s \<and> length (slot_queue s) \<le> 1 \<and>
    (sl_forwarder s = Asleep \<and> slot_queue s \<noteq> [] \<longrightarrow> \<not> sl_locked s \<or> 0 < sl_unlocks s)"
  using fe_slot.fifo [of s] fe_slot.not_stranded [of s] assms
  by (auto simp: slot_reachable_def slot_queue_def split: option.splits)

lemma slot_never_overwritten_witness:
  "\<exists>s::nat slot. slot_reachable s \<and> sl_stored s = [7] \<and> sl_stored s = sl_sent s @ slot_queue s"
proof -
  let ?s1 = "slot0\<lparr>sl_free := False, sl_holder := Some 7\<rparr> :: nat slot"
  let ?s2 = "?s1\<lparr>sl_holder := None, sl_packet := Some 7, sl_unlocks := Suc 0, sl_stored := [7]\<rparr>"
  have "slot_step slot0 ?s1" by (rule slot_step.Acquire) (simp add: slot0_def)
  moreover have "slot_step ?s1 ?s2"
    using slot_step.Store [of ?s1 7] by (simp add: slot0_def)
  ultimately have r: "slot_reachable ?s2" by (simp add: slot_reachable_def)
  then show ?thesis using slot_never_overwritten [OF r] by (intro exI [of _ ?s2]) simp
qed

subsection \<open>Keep-alives\<close>

text \<open>
  The monitor of a socket does not return while each of its looks comes less than the timeout
  after the last keep-alive before it, whatever other sockets do.
\<close>

lemma monitor_keeps_live_connection:
  assumes "map_wf m"
    and "\<forall>i<length es. \<forall>now. es ! i = (now, Check) \<longrightarrow>
      now - last_alive sock start (take i es) < KEEP_ALIVE_TIMEOUT"
  shows "fst (monitor start sock es m) = None"
  using monitor_loop_append_None [of "map_assign m sock start" es sock] assms by (simp add: monitor_eq)

text \<open>It returns at the first look that comes the timeout or more after the last keep-alive.\<close>

lemma monitor_detects_dead_connection:
  assumes "map_wf m" and "i < length es" and "es ! i = (now, Check)"
    and "now - last_alive sock start (take i es) \<ge> KEEP_ALIVE_TIMEOUT"
    and "\<forall>j<i. \<forall>t. es ! j = (t, Check) \<longrightarrow>
      t - last_alive sock start (take j es) < KEEP_ALIVE_TIMEOUT"
  shows "fst (monitor start sock es m) = Some now"
  using monitor_loop_times_out [of "map_assign m sock start" i es now sock] assms by (simp add: monitor_eq)

text \<open>
  C31: The monitor of a socket times it out at its first look that comes the timeout or more
  after the last keep-alive of that socket before the look, and at no other time: while every look
  is in time it does not return, and what happens on other sockets makes no difference.
\<close>

theorem monitor_times_out_exactly:
  assumes "map_wf m"
  shows "fst (monitor start sock es m) = Some now \<longleftrightarrow>
    (\<exists>i<length es. es ! i = (now, Check) \<and>
      KEEP_ALIVE_TIMEOUT \<le> now - last_alive sock start (take i es) \<and>
      (\<forall>j<i. \<forall>t. es ! j = (t, Check) \<longrightarrow> t - last_alive sock start (take j es) < KEEP_ALIVE_TIMEOUT))"
  (is "?returns now \<longleftrightarrow> (\<exists>i<length es. es ! i = (now, Check) \<and> ?late now i \<and> ?before i)")
proof
  assume ret: "?returns now"
  let ?dead = "\<lambda>i. i < length es \<and> (\<exists>t. es ! i = (t, Check) \<and> ?late t i)"
  have "\<exists>i. ?dead i"
  proof (rule ccontr)
    assume "\<not> ?thesis"
    then show False using monitor_keeps_live_connection [OF assms, of es sock start] ret by fastforce
  qed
  then obtain i where i: "?dead i" and least: "\<And>j. j < i \<Longrightarrow> \<not> ?dead j"
    using exists_least_iff [of ?dead] by blast
  then obtain t where t: "i < length es" "es ! i = (t, Check)" "?late t i" by blast
  have b: "?before i" using least t(1) by force
  then have "?returns t" using t by (intro monitor_detects_dead_connection [OF assms])
  then have "t = now" using ret by simp
  then show "\<exists>i<length es. es ! i = (now, Check) \<and> ?late now i \<and> ?before i" using t b by blast
qed (use monitor_detects_dead_connection [OF assms] in blast)

theorem monitor_times_out_exactly_witness:
  "fst (monitor 0 5 [(2, Check), (6, Refresh 9), (10, Check)] []) = Some 10 \<and>
   fst (monitor 0 5 [(2, Check), (4, Refresh 5), (12, Check)] []) \<noteq> Some 12"
proof
  show "fst (monitor 0 5 [(2, Check), (6, Refresh 9), (10, Check)] []) = Some 10"
    by (subst monitor_times_out_exactly)
      (auto simp: less_Suc_eq numeral_eq_Suc nth_Cons' KEEP_ALIVE_TIMEOUT_def intro!: exI [of _ 2] split: if_splits)
  show "fst (monitor 0 5 [(2, Check), (4, Refresh 5), (12, Check)] []) \<noteq> Some 12"
    by (subst monitor_times_out_exactly)
      (auto simp: less_Suc_eq numeral_eq_Suc nth_Cons' KEEP_ALIVE_TIMEOUT_def split: if_splits)
qed

end
