(* ===== verification/Ring_Properties.thy ===== *)
theory Ring_Properties
  imports Samples
begin

section \<open>Properties of the ring of servers\<close>

text \<open>
  The election of the primary, recovery from its loss, the choice of ports and the set-up of a
  server: properties of theories \<open>Elections\<close>, \<open>Ring\<close>, \<open>Ring_Election\<close>, \<open>Ring_Threads\<close> and \<open>Apps\<close>.
\<close>

definition sample_ring :: "int \<Rightarrow> ring" where
  "sample_ring i = \<lparr>rg_lines = [''6000'', ''6001'', ''6002''], rg_pos = 1, rg_own_port = i, rg_next_port = 0,
     rg_server_ID = i, rg_primary = 6000, rg_isPrimary = False, rg_disconnected = False,
     rg_server_primary = False, rg_elect = Election\<rparr>"

definition sample_config :: string where
  "sample_config = unlines LF [''6000'', ''6001'', ''6002'']"

lemma sample_ports: "ports_ok (getlines LF sample_config) [6000, 6001, 6002]"
proof -
  have "getlines LF sample_config = [''6000'', ''6001'', ''6002'']" by code_simp
  moreover have "stoi ''6000'' = Inr 6000" "stoi ''6001'' = Inr 6001" "stoi ''6002'' = Inr 6002" by code_simp+
  ultimately show ?thesis by (simp add: ports_ok_def)
qed

lemma sample_env_start: "int_range i \<Longrightarrow> \<exists>wire. startElection sample_env i = Some wire"
  using election_buildPacket_carries [OF sample_env_ok, of i "''ELECTION''"]
  by (auto simp: startElection_def sendMessageToNextServer_def status_word_def)

subsection \<open>Elections\<close>

lemma rotated_settled:
  "set (map rg_server_ID (rotate k (map (settled M) servers))) = set (map rg_server_ID servers) \<and>
   (\<forall>x\<in>set (rotate k (map (settled M) servers)). rg_primary x = M \<and> \<not> participates x \<and>
      (rg_server_ID x = M \<longrightarrow> rg_isPrimary x \<and> rg_server_primary x))"
  by (simp add: settled_agree image_image) (simp add: settled_def Let_def)

text \<open>
  C10: An election started by the server before the head of a ring whose identifiers are distinct
  ends within three laps, with nothing left on the wire; every server then holds the largest
  identifier as the primary, none takes part any more, and the server with that identifier is
  primary.
\<close>

theorem election_elects_largest:
  assumes "server_ids_ok servers" and "servers \<noteq> []" and "\<forall>r\<in>set servers. \<not> participates r"
    and "env_ok e0" and "startElection e0 (rg_server_ID (last servers)) = Some wire"
    and "\<forall>e\<in>set es. env_ok e" and "3 * length servers \<le> length es"
  shows "\<exists>servers'. ring_hops es (servers, wire) = Some (Inr (servers', [])) \<and>
    set (map rg_server_ID servers') = set (map rg_server_ID servers) \<and>
    (\<forall>r\<in>set servers'. rg_primary r = winner servers \<and> \<not> participates r \<and>
       (rg_server_ID r = winner servers \<longrightarrow> rg_isPrimary r \<and> rg_server_primary r))"
proof -
  obtain k where "ring_hops es (servers, wire) =
      Some (Inr (rotate k (map (settled (winner servers)) servers), []))"
    using election_completes [OF assms] by blast
  then show ?thesis using rotated_settled by blast
qed

theorem election_elects_largest_witness:
  "\<exists>servers'. ring_hops (replicate 9 sample_env) ([sample_ring 6000, sample_ring 6002, sample_ring 6001],
      the (startElection sample_env 6001)) = Some (Inr (servers', [])) \<and>
    (\<forall>r\<in>set servers'. rg_primary r = 6002)"
proof -
  let ?s = "[sample_ring 6000, sample_ring 6002, sample_ring 6001]"
  obtain wire where w: "startElection sample_env 6001 = Some wire"
    using sample_env_start [of 6001] by (auto simp: int_range_def)
  have ok: "server_ids_ok ?s" "\<forall>r\<in>set ?s. \<not> participates r"
    by (simp_all add: server_ids_ok_def sample_ring_def int_range_def Election_def)
  have st: "startElection sample_env (rg_server_ID (last ?s)) = Some wire" using w by (simp add: sample_ring_def)
  have es: "\<forall>e\<in>set (replicate 9 sample_env). env_ok e" using sample_env_ok by simp
  have "winner ?s = 6002" by (simp add: winner_def sample_ring_def)
  moreover have "?s \<noteq> []" "3 * length ?s \<le> length (replicate 9 sample_env)" by simp_all
  ultimately show ?thesis using election_elects_largest [OF ok(1) _ ok(2) sample_env_ok st es] w by force
qed

text \<open>
  What a server does with an election message is decided by its status, the identifier in
  it and whether the server takes part: it joins and passes the larger identifier on; it passes
  another identifier on; it announces itself when its own comes back; and it passes the result on
  until the winner has seen it. What it sends reads back as the same kind of message.
\<close>

lemma election_message_decided:
  assumes "env_ok e" and "int_range i" and "int_range me" and "status_word status"
  shows "\<exists>out. processElectionInfo e (status @ '' '' @ to_string i) me el =
      Some (Inr (fst (decide status i me (el_isParticipating el)),
        el\<lparr>el_isParticipating := fst (snd (decide status i me (el_isParticipating el)))\<rparr>, out)) \<and>
    (case snd (snd (decide status i me (el_isParticipating el))) of
       None \<Rightarrow> out = [] | Some (st', j) \<Rightarrow> \<exists>p. out = [p] \<and> carries p st' j \<and> packet_sized p)"
  by (rule processElectionInfo_decide [OF assms])

subsection \<open>Fail-over\<close>



subsection \<open>Ports\<close>

text \<open>
  C30: A server takes the first port of the file that can be bound, with that port as its
  identifier, and is primary exactly when this is the first port of the file; when no port can
  be bound the constructor's loop does not end.
\<close>

theorem server_takes_first_free_port:
  assumes "ports_ok (getlines LF config) ps" and "ServersRing config mem = Inr r"
  shows "(\<forall>d<length ps. free (ps ! d) \<longrightarrow> (\<forall>c<d. \<not> free (ps ! c)) \<longrightarrow>
      prepareServerConnection free r = Some (Inr (r\<lparr>rg_pos := d + 1, rg_own_port := ps ! d,
        rg_isPrimary := (ps ! d = ps ! 0), rg_server_ID := ps ! d\<rparr>))) \<and>
    ((\<forall>p. \<not> free p) \<longrightarrow> prepareServerConnection free r = None)"
  using prepareServerConnection_first_free [OF assms] prepareServerConnection_none_free [OF assms] by blast

theorem server_takes_first_free_port_witness:
  "\<exists>r r'. ServersRing sample_config (sample_ring 0) = Inr r \<and>
     prepareServerConnection (\<lambda>p. p > 6000) r = Some (Inr r') \<and> rg_server_ID r' = 6001 \<and> \<not> rg_isPrimary r'"
proof -
  obtain r where r: "ServersRing sample_config (sample_ring 0) = Inr r"
    using ServersRing_ports [OF sample_ports] by blast
  have "prepareServerConnection (\<lambda>p. p > 6000) r = Some (Inr (r\<lparr>rg_pos := 1 + 1, rg_own_port := 6001,
        rg_isPrimary := False, rg_server_ID := 6001\<rparr>))"
    using server_takes_first_free_port [OF sample_ports r, of "\<lambda>p. p > 6000"] by (auto dest: spec [of _ 1])
  with r show ?thesis by simp
qed

text \<open>
  A server whose ring is broken tries the ports after its own position, and when it comes to
  its own port with nobody having accepted, it is alone: it makes itself primary and goes on
  trying. A server whose ring is not broken waits for the same port.
\<close>

lemma alone_becomes_primary:
  assumes "ports_ok ls ps" and "rg_lines r = ls" "rg_pos r = i mod length ps + 1"
    and "ps ! ((i + Suc d) mod length ps) = rg_own_port r"
    and "\<forall>c\<le>d. c \<noteq> 0 \<longrightarrow> ps ! ((i + c) mod length ps) \<noteq> rg_own_port r"
    and "Suc d \<le> length attempts" and "\<forall>accepts\<in>set attempts. \<forall>p. \<not> accepts p"
  shows "if rg_disconnected r
    then \<exists>r'. connect_loop attempts r = Connecting r' \<and> ring_alone r' \<and> rg_server_ID r' = rg_server_ID r
    else connect_loop attempts r = Connecting r"
  using connect_loop_alone [OF assms(1,4,5,2,3) refl _ assms(6,7)] connect_loop_waits [of r attempts] assms(7)
  by auto

lemma alone_becomes_primary_witness:
  "\<exists>r'. connect_loop [\<lambda>p. False, \<lambda>p. False, \<lambda>p. False]
      ((sample_ring 6001)\<lparr>rg_lines := getlines LF sample_config, rg_pos := 2, rg_disconnected := True\<rparr>) =
      Connecting r' \<and> rg_isPrimary r' \<and> rg_primary r' = 6001"
proof -
  let ?r = "(sample_ring 6001)\<lparr>rg_lines := getlines LF sample_config, rg_pos := 2, rg_disconnected := True\<rparr>"
  have "\<forall>c\<le>2. c \<noteq> 0 \<longrightarrow> [6000, 6001, 6002] ! ((1 + c) mod length [6000, 6001, 6002::int]) \<noteq> rg_own_port ?r"
    by (simp add: sample_ring_def le_Suc_eq numeral_2_eq_2)
  moreover have "[6000, 6001, 6002] ! ((1 + Suc 2) mod length [6000, 6001, 6002::int]) = rg_own_port ?r"
    by (simp add: sample_ring_def)
  ultimately show ?thesis
    using alone_becomes_primary [OF sample_ports, of ?r 1 2 "[\<lambda>p. False, \<lambda>p. False, \<lambda>p. False]"]
    by (auto simp: ring_alone_def sample_ring_def)
qed

subsection \<open>Starting a server\<close>


definition sample_calls :: start_calls where
  "sample_calls = \<lparr>st_inet_pton = 1, st_socket = 3, st_listen = 0, st_free = (\<lambda>p. True), st_attempt = (\<lambda>n. None),
     st_replicas = \<lparr>sc_socket = 4, sc_setsockopt = 0, sc_bind = 0, sc_listen = 0\<rparr>\<rparr>"


end
