(* ===== verification/Edge_Properties.thy ===== *)
theory Edge_Properties
  imports Samples
begin

section \<open>Properties of front ends and clients\<close>

text \<open>
  What a front end and a client promise: the front end's two tables, the switch they implement,
  delivery to the server, reconnection, the clients its main loop can take, and the packets a
  client builds. Properties of theories \<open>Proxy_FE\<close>, \<open>Proxy_Threads\<close>, \<open>Apps\<close> and \<open>Clients\<close>.
\<close>

definition sample_proxy :: proxy where
  "sample_proxy = (ProxyFE [(3, False), (4, True), (4, True), (4, True)])
     \<lparr>px_usersMap := [(''id-anna-1'', 7), (''id-bob'', 8)], px_socketsMap := [(7, ''id-anna-1''), (8, ''id-bob'')]\<rparr>"

definition sample_joins :: "proxy_event list" where
  "sample_joins = [Client_Packet 100 join_anna 7, Client_Packet 101 join_bob 8]"

lemma sample_proxy_ok: "tables_ok sample_proxy"
proof -
  have "map_find (px_usersMap sample_proxy) u = Some s \<longleftrightarrow> map_find (px_socketsMap sample_proxy) s = Some u" for u s
    by (auto simp: sample_proxy_def)
  moreover have "map_wf (px_usersMap sample_proxy)" "map_wf (px_socketsMap sample_proxy)" by code_simp+
  moreover have "map_find (px_usersMap sample_proxy) [] = None" by code_simp
  ultimately show ?thesis by (simp add: tables_ok_def)
qed

subsection \<open>The front end's tables\<close>

text \<open>
  C18: After any run of its threads, the front end's tables of users and of sockets are inverse
  to each other on the connected clients: no two users share a socket and no two sockets a user.
\<close>

theorem front_end_tables_inverse:
  assumes "foldM (guarded proxy_may proxy_step) evs (ProxyFE attempts) = Some px" and "s \<noteq> 0"
  shows "(map_find (px_usersMap px) u = Some s \<longleftrightarrow> map_find (px_socketsMap px) s = Some u) \<and>
    (map_find (px_usersMap px) u = Some s \<and> map_find (px_usersMap px) v = Some s \<longrightarrow> u = v)"
proof -
  have ok: "tables_ok px"
    using proxy.run_inv [OF assms(1) _ tables_ok_ProxyFE] by simp
  then show ?thesis using tables_okD(3) [OF ok assms(2)] tables_ok_injective [OF ok assms(2)] by blast
qed

theorem front_end_tables_inverse_witness:
  "\<exists>px. foldM (guarded proxy_may proxy_step) sample_joins (ProxyFE [(4, True), (4, True)]) = Some px \<and>
     map_find (px_socketsMap px) 8 = Some ''id-bob''"
proof -
  have "map_option (\<lambda>px. map_find (px_usersMap px) ''id-bob'')
      (foldM (guarded proxy_may proxy_step) sample_joins (ProxyFE [(4, True), (4, True)])) = Some (Some 8)"
    by code_simp
  then obtain px where px: "foldM (guarded proxy_may proxy_step) sample_joins (ProxyFE [(4, True), (4, True)]) = Some px"
      "map_find (px_usersMap px) ''id-bob'' = Some 8"
    by auto
  then show ?thesis using front_end_tables_inverse [OF px(1), of 8 "''id-bob''"] by simp
qed

text \<open>
  A packet from the server for a user makes the front end send exactly one packet of the same
  type to the socket on which this user joined, and none when it does not know the user; a chat
  message is forwarded unchanged.
\<close>

lemma front_end_routes_to_user:
  assumes "tables_ok px" and "c_str (p_user_id p) = Some u"
    and "p_type p \<in> {MESSAGE_PACKET, ACCEPT_PACKET, CONNECTION_REFUSED_PACKET, ACK_PACKET}"
    and "processServerPacket e p sock px = Some px'"
  shows "\<exists>q. p_type q = p_type p \<and> (p_type p = MESSAGE_PACKET \<longrightarrow> q = p) \<and>
    px_sent px' = px_sent px @ (case map_find (px_usersMap px) u of None \<Rightarrow> []
      | Some s \<Rightarrow> if s = 0 then [] else [(s, q)]) \<and>
    (\<forall>s. s \<noteq> 0 \<longrightarrow> map_find (px_usersMap px) u = Some s \<longrightarrow> map_find (px_socketsMap px) s = Some u)"
proof -
  obtain q where "px' = to_user u q px" "p_type q = p_type p" "p_type p = MESSAGE_PACKET \<longrightarrow> q = p"
    using assms(2-4)
    by (auto simp: processServerPacket_def Packet_of_type_def bind_iff packet_type_defs split: if_splits)
  then show ?thesis using to_user_sent tables_okD(3) [OF assms(1)] by metis
qed

text \<open>
  C9: The front end is a switch: after any run of its threads, whatever the server then sends is
  routed, in order, by the map that the events describe - a join plugs a client's identifier into
  its socket, a closed socket unplugs it - and to nobody when the client is not in that map. When
  the server is gone the front end is offline, has its clients still in the map and lets the next
  server in.
\<close>

theorem front_end_is_switch:
  assumes "foldM (guarded proxy_may proxy_step) evs (ProxyFE attempts) = Some px"
    and "listenServerCommunication received sock px = Some px'"
    and "0 < sock" and "map_find (px_socketsMap px) sock = None"
  shows "px_sent px' = px_sent px @ concat (map (routed (fold switch_step evs Map.empty)) received) \<and>
    switch px' = fold switch_step evs Map.empty \<and> \<not> px_online px' \<and>
    (\<exists>px''. listenServerReconnect px' = Some px'' \<and> px_accepting px'')"
proof -
  have "switch px = fold switch_step evs Map.empty"
    using front_end.run_view [OF assms(1)] tables_ok_ProxyFE by (simp add: switch_ProxyFE)
  moreover have "tables_ok px" using proxy.run_inv [OF assms(1)] tables_ok_ProxyFE by simp
  ultimately show ?thesis
    using listenServerCommunication_routes [OF assms(2)] listenServerCommunication_switch [OF assms(2) _ assms(3,4)]
    by (simp add: listenServerReconnect_def)
qed

theorem front_end_is_switch_witness:
  "\<exists>px px'. foldM (guarded proxy_may proxy_step) sample_joins (ProxyFE [(4, True), (4, True)]) = Some px \<and>
     listenServerCommunication [(sample_env, say_anna)] 4 px = Some px' \<and>
     px_sent px' = px_sent px @ [(7, say_anna)] \<and> \<not> px_online px'"
proof -
  let ?run = "foldM (guarded proxy_may proxy_step) sample_joins (ProxyFE [(4, True), (4, True)])"
  have "map_option (\<lambda>px. map_find (px_socketsMap px) 4 = None \<and>
      listenServerCommunication [(sample_env, say_anna)] 4 px \<noteq> None) ?run = Some True"
    by code_simp
  then obtain px px' where px: "?run = Some px" "listenServerCommunication [(sample_env, say_anna)] 4 px = Some px'"
      "map_find (px_socketsMap px) 4 = None"
    by auto
  have "routed (fold switch_step sample_joins Map.empty) (sample_env, say_anna) = [(7, say_anna)]" by code_simp
  then show ?thesis using front_end_is_switch [OF px(1,2) _ px(3)] px(1,2) by auto
qed

subsection \<open>Towards the server\<close>

text \<open>
  Sending to the server returns exactly when some attempt succeeds; it shuts every socket
  down on which an attempt failed, and the packet is sent once, on the first that succeeds.
\<close>

lemma sent_to_server_once:
  "((\<exists>px'. sendToServer p attempts px = Some px') \<longleftrightarrow> (\<exists>a\<in>set attempts. snd a)) \<and>
   (\<forall>px'. sendToServer p attempts px = Some px' \<longrightarrow>
     (\<exists>failed sock later. attempts = failed @ (sock, True) # later \<and> (\<forall>a\<in>set failed. \<not> snd a) \<and>
       px_sent px' = px_sent px @ [(sock, p)] \<and> px_shut px' = px_shut px @ map fst failed \<and>
       px_attempts px' = later))"
  using sendToServer_returns_iff sendToServer_char by fastforce

lemma sent_to_server_once_witness:
  "\<exists>px'. sendToServer say_anna [(3, False), (4, True)] sample_proxy = Some px'"
  using sent_to_server_once [of say_anna "[(3, False), (4, True)]" sample_proxy] by simp

text \<open>
  Whatever a client sends, when its thread ends every chat message has been stored for the
  server in order, the last packet to the server is a disconnect of the client's identifier, and
  its socket is closed.
\<close>

lemma client_thread_tells_server:
  assumes "Proxy_FE.listenClientCommunication e (p # ps) sock px = Some px'"
    and "c_str (p_user_id p) = Some u" and "packet_sized (e_mem e)"
  shows "px_stored px' = px_stored px @ filter (\<lambda>p. p_type p = MESSAGE_PACKET) (p # ps) \<and>
    sock \<in> set (px_closed px') \<and>
    (\<exists>d server rest. px_sent px' = rest @ [(server, d)] \<and>
      p_type d = DISCONNECT_PACKET \<and> c_str (p_user_id d) = Some u)"
  using listenClientCommunication_ends [OF assms] unfolding joins_and_messages_def snd_conv .

lemma client_thread_tells_server_witness:
  "\<exists>px'. Proxy_FE.listenClientCommunication sample_env [join_anna, say_anna] 7 sample_proxy = Some px' \<and>
     px_stored px' = [say_anna] \<and> 7 \<in> set (px_closed px')"
proof -
  have "Proxy_FE.listenClientCommunication sample_env [join_anna, say_anna] 7 sample_proxy \<noteq> None" by code_simp
  then obtain px' where px': "Proxy_FE.listenClientCommunication sample_env [join_anna, say_anna] 7 sample_proxy = Some px'"
    by blast
  have u: "c_str (p_user_id join_anna) = Some ''id-anna-1''" by code_simp
  have m: "packet_sized (e_mem sample_env)" using sample_env_ok by (simp add: env_ok_def)
  have "px_stored sample_proxy = []" "p_type join_anna \<noteq> MESSAGE_PACKET" "p_type say_anna = MESSAGE_PACKET"
    by code_simp+
  then show ?thesis using client_thread_tells_server [OF px' u m] px' by simp
qed

text \<open>
  C29: In every reachable state an offline front end has a thread that is accepting a server, or
  the thread that will accept can lock its mutex and then accepts.
\<close>

theorem front_end_reconnects:
  assumes "foldM proxy_step evs (ProxyFE attempts) = Some px" and "\<not> px_online px"
  shows "px_accepting px \<or> (\<exists>px'. listenServerReconnect px = Some px' \<and> px_accepting px')"
proof -
  have "reconnects (ProxyFE attempts)" by (simp add: reconnects_def ProxyFE_def)
  then have "reconnects px" using proxy_connection.run_inv [OF assms(1)] by simp
  then show ?thesis using assms(2) by (auto simp: reconnects_def listenServerReconnect_def)
qed

theorem front_end_reconnects_witness:
  "\<exists>px px'. foldM proxy_step [Server_Accepted 3, Server_Lost 3] (ProxyFE []) = Some px \<and> \<not> px_accepting px \<and>
     listenServerReconnect px = Some px' \<and> px_accepting px'"
proof -
  have "map_option (\<lambda>px. (px_accepting px, px_online px))
      (foldM proxy_step [Server_Accepted 3, Server_Lost 3] (ProxyFE [])) = Some (False, False)"
    by code_simp
  then obtain px where px: "foldM proxy_step [Server_Accepted 3, Server_Lost 3] (ProxyFE []) = Some px"
      "\<not> px_accepting px" "\<not> px_online px"
    by auto
  then show ?thesis using front_end_reconnects [OF px(1,3)] by blast
qed

text \<open>
  C39: The front end's main loop writes the identifier of each accepted client's thread to the
  next entry of an array of \<open>backlog\<close> entries, three of which its own threads have taken: it serves
  all the clients it accepts when they fit in what is left, and leaves defined behaviour at the
  first client that does not. It never reuses an entry.
\<close>

theorem front_end_serves_backlog:
  assumes "\<forall>s\<in>set accepted. s \<noteq> -1" and "3 \<le> backlog"
  shows "proxy_main_loop backlog 3 accepted = (if length accepted \<le> backlog - 3 then Some accepted else None)"
  using proxy_main_loop_accepting [OF assms(1), of backlog 3] assms(2) by auto

theorem front_end_serves_backlog_witness:
  "proxy_main_loop 5 3 [7, 8] = Some [7, 8] \<and> proxy_main_loop 5 3 [7, 8, 9] = None"
  using front_end_serves_backlog [of "[7, 8]" 5] front_end_serves_backlog [of "[7, 8, 9]" 5] by simp

subsection \<open>Clients\<close>


definition sample_client :: "string \<Rightarrow> client" where
  "sample_client name = \<lparr>cl_username = name, cl_group = ''room'', cl_userId = ''id-anna-1'', cl_addresses = [],
     cl_ports = [], cl_sockfd = 3\<rparr>"


text \<open>
  From a file of addresses and ports with CR LF line ends, a client connects to one of the
  pairs of the file, the one its random number chooses, with the line ends removed.
\<close>

lemma client_picks_listed_front_end:
  assumes "\<forall>(a, p)\<in>set aps. line_text a \<and> line_text p" and "aps \<noteq> []" and "\<forall>n. length (mem n) = n"
  shows "setupConnection r mem (Client uuid (crlf_file aps)) =
    (let (a, p) = aps ! (r mod length aps) in Some (a, atoi p mod 65536))"
  by (rule setupConnection_crlf [OF assms])

end
