(* ===== verification/Lock_Order.thy ===== *)
theory Lock_Order
  imports Prelude
begin

section \<open>Threads that wait for one another's semaphores\<close>

text \<open>
  The semaphores that protect the shared tables are created with one permit; a thread waits for
  one, uses the table and posts it. For the question whether threads can wait for one another
  only the sequence of these calls matters: a thread is the list of those it still has to make,
  and the state says which thread holds each semaphore. The rule that excludes deadlock is a rank
  of the semaphores by which every thread waits only for a semaphore above those it holds. The
  locale has the rule as its law; the components prove it of their operations.
\<close>

datatype 'l lock_act = Wait 'l | Post 'l

record 'l locks =
  lk_owner :: "'l \<Rightarrow> nat option"
  lk_threads :: "'l lock_act list list"

inductive lock_step :: "'l locks \<Rightarrow> 'l locks \<Rightarrow> bool" where
  Take: "i < length (lk_threads s) \<Longrightarrow> lk_threads s ! i = Wait l # p \<Longrightarrow> lk_owner s l = None \<Longrightarrow>
    lock_step s (s\<lparr>lk_owner := (lk_owner s)(l \<mapsto> i), lk_threads := (lk_threads s)[i := p]\<rparr>)"
| Give: "i < length (lk_threads s) \<Longrightarrow> lk_threads s ! i = Post l # p \<Longrightarrow>
    lock_step s (s\<lparr>lk_owner := (lk_owner s)(l := None), lk_threads := (lk_threads s)[i := p]\<rparr>)"

inductive_cases lock_stepE: "lock_step s t"

definition locks_of :: "'l lock_act list list \<Rightarrow> 'l locks" where
  "locks_of ps = \<lparr>lk_owner = Map.empty, lk_threads = ps\<rparr>"

definition all_done :: "'l locks \<Rightarrow> bool" where
  "all_done s \<longleftrightarrow> (\<forall>p\<in>set (lk_threads s). p = [])"

text \<open>A program that holds the semaphores \<open>held\<close>, the latest first, and keeps to the rank.\<close>

fun ordered :: "('l \<Rightarrow> nat) \<Rightarrow> 'l list \<Rightarrow> 'l lock_act list \<Rightarrow> bool" where
  "ordered rank held [] \<longleftrightarrow> held = []"
| "ordered rank held (Wait l # p) \<longleftrightarrow> (\<forall>h\<in>set held. rank h < rank l) \<and> ordered rank (l # held) p"
| "ordered rank held (Post l # p) \<longleftrightarrow> held \<noteq> [] \<and> hd held = l \<and> ordered rank (tl held) p"

subsection \<open>Operations\<close>

text \<open>
  An operation that holds nothing at its end and waits only for semaphores of rank \<open>r\<close> or more.
  The rules follow the shape of the code: one operation after another, and one inside the
  section of a semaphore.
\<close>

definition keeps_above :: "('l \<Rightarrow> nat) \<Rightarrow> nat \<Rightarrow> 'l lock_act list \<Rightarrow> bool" where
  "keeps_above rank r p \<longleftrightarrow> (\<forall>held q. (\<forall>h\<in>set held. rank h < r) \<longrightarrow> ordered rank held q \<longrightarrow> ordered rank held (p @ q))"

named_theorems lock_rules \<open>composing operations that keep to the rank of the semaphores\<close>

lemma keeps_above_Nil [lock_rules]: "keeps_above rank r []"
  by (simp add: keeps_above_def)

lemma keeps_above_append [lock_rules]: "keeps_above rank r p \<Longrightarrow> keeps_above rank r q \<Longrightarrow> keeps_above rank r (p @ q)"
  by (simp add: keeps_above_def)

lemma keeps_above_concat [lock_rules]: "(\<And>p. p \<in> set ps \<Longrightarrow> keeps_above rank r p) \<Longrightarrow> keeps_above rank r (concat ps)"
  by (induction ps) (simp_all add: keeps_above_Nil keeps_above_append)

lemma keeps_above_section:
  assumes "keeps_above rank (Suc (rank l)) p" and "r \<le> rank l"
  shows "keeps_above rank r (Wait l # p @ [Post l])"
  unfolding keeps_above_def
proof (intro allI impI)
  fix held q
  assume held: "\<forall>h\<in>set held. rank h < r" and q: "ordered rank held q"
  have "ordered rank (l # held) (Post l # q)" using q by simp
  moreover have "\<forall>h\<in>set (l # held). rank h < Suc (rank l)" using held assms(2) by fastforce
  ultimately have "ordered rank (l # held) (p @ Post l # q)"
    using assms(1) unfolding keeps_above_def by blast
  then show "ordered rank held ((Wait l # p @ [Post l]) @ q)" using held assms(2) by auto
qed

lemma keeps_above_mono: "keeps_above rank r p \<Longrightarrow> s \<le> r \<Longrightarrow> keeps_above rank s p"
  by (fastforce simp: keeps_above_def)

lemma keeps_above_if [lock_rules]:
  "(b \<Longrightarrow> keeps_above rank r p) \<Longrightarrow> (\<not> b \<Longrightarrow> keeps_above rank r q) \<Longrightarrow> keeps_above rank r (if b then p else q)"
  by simp

lemma keeps_above_ordered: "keeps_above rank r p \<Longrightarrow> ordered rank [] p"
  unfolding keeps_above_def by (metis append_Nil2 empty_iff empty_set ordered.simps(1))

text \<open>One use of a table between \<open>wait\<close> and \<open>post\<close>, with the calls made in between.\<close>

definition under :: "'l \<Rightarrow> 'l lock_act list \<Rightarrow> 'l lock_act list" where
  "under l p = Wait l # p @ [Post l]"

lemma keeps_above_under [lock_rules]:
  "keeps_above rank (Suc (rank l)) p \<Longrightarrow> r \<le> rank l \<Longrightarrow> keeps_above rank r (under l p)"
  unfolding under_def by (rule keeps_above_section)

lemma keeps_above_replicate [lock_rules]: "keeps_above rank r p \<Longrightarrow> keeps_above rank r (concat (replicate n p))"
  by (rule keeps_above_concat) simp

subsection \<open>The invariant\<close>

definition holding :: "('l \<Rightarrow> nat) \<Rightarrow> 'l locks \<Rightarrow> 'l list list \<Rightarrow> bool" where
  "holding rank s hs \<longleftrightarrow> length hs = length (lk_threads s) \<and>
     (\<forall>i<length hs. ordered rank (hs ! i) (lk_threads s ! i) \<and> distinct (hs ! i)) \<and>
     (\<forall>l i. lk_owner s l = Some i \<longleftrightarrow> i < length hs \<and> l \<in> set (hs ! i))"

definition locks_ok :: "('l \<Rightarrow> nat) \<Rightarrow> 'l locks \<Rightarrow> bool" where
  "locks_ok rank s \<longleftrightarrow> (\<exists>hs. holding rank s hs)"

lemma locks_ok_start:
  assumes "\<forall>p\<in>set ps. ordered rank [] p"
  shows "locks_ok rank (locks_of ps)"
  unfolding locks_ok_def
  by (rule exI [of _ "replicate (length ps) []"])
    (use assms in \<open>auto simp: holding_def locks_of_def\<close>)

lemma holding_Take:
  assumes h: "holding rank s hs" and i: "i < length (lk_threads s)" "lk_threads s ! i = Wait l # p"
    and free: "lk_owner s l = None"
  shows "holding rank (s\<lparr>lk_owner := (lk_owner s)(l \<mapsto> i), lk_threads := (lk_threads s)[i := p]\<rparr>)
    (hs[i := l # hs ! i])"
proof -
  note parts = h [unfolded holding_def]
  have len: "i < length hs" using parts i(1) by simp
  have "ordered rank (hs ! i) (Wait l # p)" using parts len i(2) by metis
  then have new: "ordered rank (l # hs ! i) p" by simp
  have none: "\<forall>j<length hs. l \<notin> set (hs ! j)" using parts free by (metis option.distinct(1))
  have a: "ordered rank (hs[i := l # hs ! i] ! j) ((lk_threads s)[i := p] ! j) \<and> distinct (hs[i := l # hs ! i] ! j)"
    if "j < length hs" for j
    using that new parts none len by (cases "j = i") auto
  have b: "((lk_owner s)(l \<mapsto> i)) k = Some j \<longleftrightarrow> j < length hs \<and> k \<in> set (hs[i := l # hs ! i] ! j)" for k j
    using parts none len by (cases "k = l"; cases "j = i") auto
  show ?thesis using a b parts by (simp add: holding_def)
qed

lemma holding_Give:
  assumes h: "holding rank s hs" and i: "i < length (lk_threads s)" "lk_threads s ! i = Post l # p"
  shows "holding rank (s\<lparr>lk_owner := (lk_owner s)(l := None), lk_threads := (lk_threads s)[i := p]\<rparr>)
    (hs[i := tl (hs ! i)])"
proof -
  note parts = h [unfolded holding_def]
  have len: "i < length hs" using parts i(1) by simp
  have "ordered rank (hs ! i) (Post l # p)" using parts len i(2) by metis
  then obtain hl where hl: "hs ! i = l # hl" "ordered rank hl p" by (cases "hs ! i") auto
  have dist: "distinct (l # hl)" using parts len hl(1) by metis
  have own: "lk_owner s l = Some i" using parts len hl(1) by (metis list.set_intros(1))
  have a: "ordered rank (hs[i := tl (hs ! i)] ! j) ((lk_threads s)[i := p] ! j) \<and> distinct (hs[i := tl (hs ! i)] ! j)"
    if "j < length hs" for j
    using that hl dist parts len by (cases "j = i") auto
  have b: "((lk_owner s)(l := None)) k = Some j \<longleftrightarrow> j < length hs \<and> k \<in> set (hs[i := tl (hs ! i)] ! j)" for k j
  proof (cases "k = l")
    case True
    have "l \<notin> set (hs ! j)" if "j < length hs" "j \<noteq> i" using own parts that by (metis option.inject)
    then show ?thesis using True hl(1) dist len by (cases "j = i") auto
  next
    case False
    then show ?thesis using parts hl(1) len by (cases "j = i") auto
  qed
  show ?thesis using a b parts by (simp add: holding_def)
qed

lemma locks_ok_step: "lock_step s t \<Longrightarrow> locks_ok rank s \<Longrightarrow> locks_ok rank t"
  by (erule lock_stepE) (use holding_Take holding_Give in \<open>fastforce simp: locks_ok_def\<close>)+

lemma locks_ok_run: "lock_step\<^sup>*\<^sup>* s t \<Longrightarrow> locks_ok rank s \<Longrightarrow> locks_ok rank t"
  by (induction rule: rtranclp_induct) (auto intro: locks_ok_step)

subsection \<open>No deadlock\<close>

text \<open>What a thread that cannot move waits for is held by another, which waits for more.\<close>

definition wanted :: "'l locks \<Rightarrow> 'l set" where
  "wanted s = {l. \<exists>i<length (lk_threads s). \<exists>p. lk_threads s ! i = Wait l # p}"

lemma finite_wanted: "finite (wanted s)"
proof -
  have "wanted s \<subseteq> (\<lambda>p. case hd p of Wait l \<Rightarrow> l | Post l \<Rightarrow> l) ` set (lk_threads s)" (is "_ \<subseteq> ?f ` _")
  proof
    fix l
    assume "l \<in> wanted s"
    then obtain i p where "i < length (lk_threads s)" "lk_threads s ! i = Wait l # p" by (auto simp: wanted_def)
    then show "l \<in> ?f ` set (lk_threads s)" using nth_mem by (force intro: image_eqI [of _ _ "Wait l # p"])
  qed
  then show ?thesis by (rule finite_subset) simp
qed

lemma stuckD:
  assumes "\<nexists>t. lock_step s t" and "i < length (lk_threads s)" and "lk_threads s ! i = a # p"
  obtains l where "a = Wait l" "lk_owner s l \<noteq> None"
  using assms lock_step.Take [of i s] lock_step.Give [of i s] by (cases a) auto

lemma stuck_wants_more:
  assumes "holding rank s hs" and stuck: "\<nexists>t. lock_step s t" and l: "l \<in> wanted s"
  shows "\<exists>m\<in>wanted s. rank l < rank m"
proof -
  note parts = assms(1) [unfolded holding_def]
  obtain i p where i: "i < length (lk_threads s)" "lk_threads s ! i = Wait l # p"
    using l by (auto simp: wanted_def)
  then obtain j where j: "lk_owner s l = Some j" using stuckD [OF stuck i] by auto
  then have jl: "j < length (lk_threads s)" "l \<in> set (hs ! j)" and ord: "ordered rank (hs ! j) (lk_threads s ! j)"
    using parts by auto
  obtain act q where act: "lk_threads s ! j = act # q"
    using ord jl(2) by (cases "lk_threads s ! j") auto
  obtain m where m: "act = Wait m" using stuckD [OF stuck jl(1) act] .
  have "m \<in> wanted s" using act m jl(1) by (auto simp: wanted_def)
  moreover have "rank l < rank m" using ord act m jl(2) by simp
  ultimately show ?thesis by blast
qed

lemma no_deadlock:
  assumes "locks_ok rank s" and "\<not> all_done s"
  shows "\<exists>t. lock_step s t"
proof (rule ccontr)
  assume stuck: "\<nexists>t. lock_step s t"
  obtain hs where h: "holding rank s hs" using assms(1) by (auto simp: locks_ok_def)
  obtain i act p where i: "i < length (lk_threads s)" "lk_threads s ! i = act # p"
    using assms(2) by (fastforce simp: all_done_def in_set_conv_nth neq_Nil_conv)
  then obtain l where "act = Wait l" using stuckD [OF stuck i] by blast
  then have "l \<in> wanted s" using i by (auto simp: wanted_def)
  then have "Max (rank ` wanted s) \<in> rank ` wanted s" using finite_wanted by (intro Max_in) auto
  then obtain m where m: "m \<in> wanted s" "rank m = Max (rank ` wanted s)" by auto
  then obtain k where k: "k \<in> wanted s" "rank m < rank k" using stuck_wants_more [OF h stuck] by blast
  have "rank k \<le> Max (rank ` wanted s)" using k(1) finite_wanted by (intro Max_ge) auto
  then show False using m(2) k(2) by simp
qed

text \<open>Every step makes one call, so a run is as long as the calls it makes.\<close>

definition calls_left :: "'l locks \<Rightarrow> nat" where
  "calls_left s = (\<Sum>p\<leftarrow>lk_threads s. length p)"

lemma calls_left_update:
  "i < length ps \<Longrightarrow> ps ! i = a # p \<Longrightarrow> Suc (\<Sum>q\<leftarrow>ps[i := p]. length q) = (\<Sum>q\<leftarrow>ps. length q)"
proof (induction ps arbitrary: i)
  case Nil
  then show ?case by simp
next
  case (Cons q ps)
  then show ?case by (cases i) auto
qed

lemma calls_left_step: "lock_step s t \<Longrightarrow> Suc (calls_left t) = calls_left s"
  by (erule lock_stepE) (simp_all add: calls_left_def calls_left_update)

lemma all_done_calls_left: "all_done s \<longleftrightarrow> calls_left s = 0"
  by (auto simp: all_done_def calls_left_def)

lemma runs_to_the_end:
  assumes "locks_ok rank s"
  shows "\<exists>t. (lock_step ^^ calls_left s) s t \<and> all_done t"
  using assms
proof (induction "calls_left s" arbitrary: s)
  case 0
  then have "all_done s" by (simp add: all_done_calls_left)
  then show ?case using 0 by auto
next
  case (Suc n)
  then have "\<not> all_done s" by (simp add: all_done_calls_left)
  then obtain t where t: "lock_step s t" using no_deadlock [OF Suc.prems] by blast
  then have "n = calls_left t" using calls_left_step Suc.hyps(2) by (metis Suc_inject)
  then obtain u where "(lock_step ^^ n) t u" "all_done u"
    using Suc.hyps(1) locks_ok_step [OF t Suc.prems] by blast
  then show ?case using t Suc.hyps(2) relpowp_Suc_I2 by metis
qed

subsection \<open>A thread that waits for itself\<close>

text \<open>
  A thread that waits for a semaphore it holds waits for ever, as the others, which do not hold
  it, never post it.
\<close>

definition self_waiting :: "('l \<Rightarrow> nat) \<Rightarrow> nat \<Rightarrow> 'l \<Rightarrow> 'l lock_act list \<Rightarrow> 'l locks \<Rightarrow> bool" where
  "self_waiting rank i l p s \<longleftrightarrow> i < length (lk_threads s) \<and> lk_threads s ! i = Wait l # p \<and>
     lk_owner s l = Some i \<and>
     (\<forall>j<length (lk_threads s). j \<noteq> i \<longrightarrow> (\<exists>h. ordered rank h (lk_threads s ! j) \<and> l \<notin> set h))"

lemma self_waiting_step:
  assumes "lock_step s t" and w: "self_waiting rank i l p s"
  shows "self_waiting rank i l p t"
  using assms(1)
proof (cases rule: lock_step.cases)
  case (Take j m q)
  note w = w [unfolded self_waiting_def]
  have ne: "m \<noteq> l" using w Take by auto
  then have ji: "j \<noteq> i" using w Take by auto
  then obtain h where "ordered rank h (lk_threads s ! j)" "l \<notin> set h" using w Take by blast
  then have "ordered rank (m # h) q \<and> l \<notin> set (m # h)" using Take ne by auto
  then show ?thesis using w Take ne ji unfolding self_waiting_def by (auto simp: nth_list_update)
next
  case (Give j m q)
  note w = w [unfolded self_waiting_def]
  have ji: "j \<noteq> i" using w Give by auto
  then obtain h where h: "ordered rank h (lk_threads s ! j)" "l \<notin> set h" using w Give by blast
  then have "ordered rank (tl h) q \<and> l \<notin> set (tl h)" and "m \<noteq> l"
    using Give by (auto dest: list.set_sel(2))
  then show ?thesis using w Give ji unfolding self_waiting_def by (auto simp: nth_list_update)
qed

lemma self_waiting_run: "lock_step\<^sup>*\<^sup>* s t \<Longrightarrow> self_waiting rank i l p s \<Longrightarrow> self_waiting rank i l p t"
  by (induction rule: rtranclp_induct) (auto intro: self_waiting_step)

subsection \<open>The contract\<close>

text \<open>
  The semaphores of a process: a rank, and the operations its threads run, as predicate on the
  sequences of calls. A thread runs any number of operations, one after the other.
\<close>

locale ranked_locks =
  fixes rank :: "'l \<Rightarrow> nat"
    and operation :: "'l lock_act list \<Rightarrow> bool"
  assumes operation_above: "operation p \<Longrightarrow> keeps_above rank 0 p"
begin

lemma program_ordered: "\<forall>p\<in>set ps. operation p \<Longrightarrow> ordered rank [] (concat ps)"
  by (rule keeps_above_ordered [of rank 0], rule keeps_above_concat) (simp add: operation_above)

lemma reachable_ok:
  assumes "\<forall>ps\<in>set threads. \<forall>p\<in>set ps. operation p" and "lock_step\<^sup>*\<^sup>* (locks_of (map concat threads)) s"
  shows "locks_ok rank s"
  using locks_ok_run [OF assms(2)] assms(1) locks_ok_start [of "map concat threads" rank] program_ordered by auto

lemma threads_finish:
  assumes "\<forall>ps\<in>set threads. \<forall>p\<in>set ps. operation p" and "lock_step\<^sup>*\<^sup>* (locks_of (map concat threads)) s"
  shows "(\<nexists>t. lock_step s t) \<longleftrightarrow> all_done s" and "\<exists>t. (lock_step ^^ calls_left s) s t \<and> all_done t"
proof -
  have "\<not> lock_step s t" if "all_done s" for t
    using that calls_left_step [of s t] all_done_calls_left [of s] by auto
  then show "(\<nexists>t. lock_step s t) \<longleftrightarrow> all_done s" using no_deadlock reachable_ok [OF assms] by blast
  show "\<exists>t. (lock_step ^^ calls_left s) s t \<and> all_done t" by (rule runs_to_the_end [OF reachable_ok [OF assms]])
qed

end

end
