(* ===== verification/Server_Locks.thy ===== *)
theory Server_Locks
  imports Lock_Order
begin

section \<open>The semaphores of the server\<close>

text \<open>
  The sequence of \<open>wait\<close> and \<open>post\<close> calls of each operation of the server
  (\<open>src/server/server.cpp\<close>, \<open>Group.cpp\<close>, \<open>server_message_manager.cpp\<close>, \<open>FeAddressBook.cpp\<close>,
  \<open>util/user.cpp\<close>, \<open>util/ConnectionMonitor.cpp\<close>), on every path, and of its threads from start to
  end. What an operation finds in the tables decides its path and is an argument here, so the
  statements hold for whatever the threads find. A group and a user of a group have semaphores of
  their own; a user that has left and comes back is taken to have the same, which only lets
  threads wait for each other more. \<open>feConnectionInitializationSemaphore\<close>, which one
  thread waits for and another posts, is theory \<open>Thread_Start\<close>.
\<close>

datatype server_lock =
    Fe_Addresses  \<comment> \<open>\<open>feAddressesSemaphore\<close>\<close>
  | Sockets_Connections  \<comment> \<open>\<open>sockets_connections_semaphore\<close>\<close>
  | Group_Users string  \<comment> \<open>\<open>usersSemaphore\<close> of a group\<close>
  | User_Sessions string string  \<comment> \<open>\<open>semaphore\<close> of a user of a group\<close>
  | Message_Queue string  \<comment> \<open>\<open>messageQueueSemaphore\<close> of a group\<close>
  | Address_Book  \<comment> \<open>\<open>feAddressBookSemaphore\<close>\<close>
  | Last_Keep_Alive  \<comment> \<open>\<open>socketLastKeepAliveSemaphore\<close>\<close>

type_synonym calls = "server_lock lock_act list"

subsection \<open>Tables without calls in between\<close>

definition getSocketFromAddress_locks :: calls where
  "getSocketFromAddress_locks = under Address_Book []"

definition registryAddressSocket_locks :: calls where
  "registryAddressSocket_locks = under Address_Book []"

definition removeServerSocket_locks :: calls where
  "removeServerSocket_locks = under Address_Book []"

definition refresh_locks :: calls where "refresh_locks = under Last_Keep_Alive []"

definition killSocket_locks :: calls where "killSocket_locks = under Last_Keep_Alive []"

definition initSessionList_locks :: "string \<Rightarrow> string \<Rightarrow> calls" where
  "initSessionList_locks g u = under (User_Sessions g u) []"

definition registerSession_locks :: "string \<Rightarrow> string \<Rightarrow> calls" where
  "registerSession_locks g u = under (User_Sessions g u) []"

definition releaseSession_locks :: "string \<Rightarrow> string \<Rightarrow> calls" where
  "releaseSession_locks g u = under (User_Sessions g u) []"

definition addMessageToMessageQueue_locks :: "string \<Rightarrow> calls" where
  "addMessageToMessageQueue_locks g = under (Message_Queue g) []"

subsection \<open>Groups\<close>

text \<open>\<open>n\<close> counts the messages of a history or the connections of a group.\<close>

definition sendHistoryToUser_locks :: "string \<Rightarrow> nat \<Rightarrow> calls" where
  "sendHistoryToUser_locks g n = under (Message_Queue g) (concat (replicate n getSocketFromAddress_locks))"

definition registerNewSession_locks :: "bool \<Rightarrow> string \<Rightarrow> string \<Rightarrow> bool \<Rightarrow> nat \<Rightarrow> calls" where
  "registerNewSession_locks primary g u known n =
     (if primary then getSocketFromAddress_locks @ sendHistoryToUser_locks g n else []) @
     under (Group_Users g)
       ((if known then []
         else initSessionList_locks g u @ (if primary then addMessageToMessageQueue_locks g else [])) @
        registerSession_locks g u)"

definition disconnectSession_locks :: "bool \<Rightarrow> string \<Rightarrow> (string \<times> bool) option \<Rightarrow> calls" where
  \<comment> \<open>the user found, if any, and whether this was the user's last session in the group\<close>
  "disconnectSession_locks primary g found =
     (case found of
        None \<Rightarrow> []
      | Some (u, was_last) \<Rightarrow>
          releaseSession_locks g u @ (if was_last \<and> primary then addMessageToMessageQueue_locks g else []))"

definition handleDisconnectEvent_locks :: "bool \<Rightarrow> string \<Rightarrow> (string \<times> bool) option list \<Rightarrow> calls" where
  "handleDisconnectEvent_locks primary g sessions =
     under (Group_Users g) (concat (map (disconnectSession_locks primary g) sessions))"

definition consumeMessage_locks :: "bool \<Rightarrow> string \<Rightarrow> nat \<Rightarrow> calls" where
  "consumeMessage_locks primary g n =
     under (Group_Users g) (if primary then concat (replicate n getSocketFromAddress_locks) else [])"

definition consumeMessageQueue_locks :: "string \<Rightarrow> (bool \<times> nat) list list \<Rightarrow> calls" where
  \<comment> \<open>the rounds of the consumer thread, each with the messages it takes out\<close>
  "consumeMessageQueue_locks g rounds =
     concat (map (\<lambda>round. concat (map (\<lambda>(primary, n). under (Message_Queue g) [] @
       consumeMessage_locks primary g n) round) @ under (Message_Queue g) []) rounds)"

subsection \<open>The server\<close>

type_synonym group_event = "string \<times> (string \<times> bool) option list"  \<comment> \<open>a group and what it finds\<close>

definition closeClientConnection_locks :: "bool \<Rightarrow> group_event list \<Rightarrow> calls" where
  "closeClientConnection_locks primary groups =
     under Sockets_Connections
       (concat (map (\<lambda>(g, sessions). handleDisconnectEvent_locks primary g sessions) groups))"

definition purgeFeConnection_locks :: "nat \<Rightarrow> calls" where
  \<comment> \<open>the number of entries erased\<close>
  "purgeFeConnection_locks k = under Fe_Addresses (concat (replicate k removeServerSocket_locks))"

definition closeFrontEndConnection_locks :: "bool \<Rightarrow> bool \<Rightarrow> group_event list \<Rightarrow> nat \<Rightarrow> calls" where
  "closeFrontEndConnection_locks connectionFound primary groups k =
     under Fe_Addresses [] @
     (if \<not> connectionFound then []
      else closeClientConnection_locks primary groups @ getSocketFromAddress_locks @ purgeFeConnection_locks k)"

definition closeServer_locks :: "nat \<Rightarrow> calls" where
  "closeServer_locks n = under Fe_Addresses (concat (replicate n getSocketFromAddress_locks))"

datatype registration = Refused | Accepted string string bool nat

definition registerUserToServer_locks :: "bool \<Rightarrow> registration \<Rightarrow> calls" where
  "registerUserToServer_locks primary r =
     (case r of
        Refused \<Rightarrow> under Sockets_Connections (if primary then getSocketFromAddress_locks else [])
      | Accepted g u known n \<Rightarrow> under Sockets_Connections [] @ registerNewSession_locks primary g u known n)"

datatype handled = Chat "string option" | Alive | Join registration | Leave "group_event list" | Other

definition handled_locks :: "bool \<Rightarrow> handled \<Rightarrow> calls" where
  "handled_locks primary h =
     (case h of
        Chat None \<Rightarrow> []
      | Chat (Some g) \<Rightarrow> addMessageToMessageQueue_locks g
      | Alive \<Rightarrow> refresh_locks
      | Join r \<Rightarrow> registerUserToServer_locks primary r
      | Leave groups \<Rightarrow> closeClientConnection_locks primary groups
      | Other \<Rightarrow> [])"

text \<open>
  The threads. The first block of \<open>listenFrontEndCommunication\<close> decides about replication with
  \<open>sockets_connections_semaphore\<close> held; every packet comes with the role of the server by then.
\<close>

definition listenFrontEndCommunication_locks ::
    "(bool \<times> handled) list \<Rightarrow> bool \<Rightarrow> bool \<Rightarrow> group_event list \<Rightarrow> nat \<Rightarrow> calls" where
  "listenFrontEndCommunication_locks packets connectionFound primary groups k =
     getSocketFromAddress_locks @
     concat (map (\<lambda>(primary, h). under Sockets_Connections [] @ handled_locks primary h) packets) @
     killSocket_locks @ closeFrontEndConnection_locks connectionFound primary groups k"

definition monitorConnection_locks :: "nat \<Rightarrow> bool \<Rightarrow> bool \<Rightarrow> group_event list \<Rightarrow> nat \<Rightarrow> calls" where
  \<comment> \<open>\<open>looks\<close> counts the accesses of the monitor to its table\<close>
  "monitorConnection_locks looks connectionFound primary groups k =
     getSocketFromAddress_locks @ concat (replicate looks (under Last_Keep_Alive [])) @
     closeFrontEndConnection_locks connectionFound primary groups k"

definition handleRMCommunication_locks :: "(bool \<times> handled) list \<Rightarrow> calls" where
  "handleRMCommunication_locks packets =
     concat (map (\<lambda>(primary, h). under Sockets_Connections [] @ handled_locks primary h) packets)"

definition handleFrontEndsConnections_locks :: "nat \<Rightarrow> calls" where
  "handleFrontEndsConnections_locks n = under Fe_Addresses (concat (replicate n getSocketFromAddress_locks))"

definition connect_all_locks :: "nat \<Rightarrow> calls" where
  "connect_all_locks n = concat (replicate n registryAddressSocket_locks)"

inductive server_thread :: "calls \<Rightarrow> bool" where
  Front_End: "server_thread (listenFrontEndCommunication_locks packets connectionFound primary groups k)"
| Monitor: "server_thread (monitorConnection_locks looks connectionFound primary groups k)"
| Replica: "server_thread (handleRMCommunication_locks packets)"
| Consumer: "server_thread (consumeMessageQueue_locks g rounds)"
| Main: "server_thread (connect_all_locks n @ handleFrontEndsConnections_locks m)"
| Close: "server_thread (closeServer_locks n)"

inductive_cases server_threadE: "server_thread p"

subsection \<open>The rank\<close>

fun server_rank :: "server_lock \<Rightarrow> nat" where
  "server_rank Fe_Addresses = 0"
| "server_rank Sockets_Connections = 1"
| "server_rank (Group_Users g) = 2"
| "server_rank (User_Sessions g u) = 3"
| "server_rank (Message_Queue g) = 4"
| "server_rank Address_Book = 5"
| "server_rank Last_Keep_Alive = 5"

lemmas table_locks_defs =
  getSocketFromAddress_locks_def registryAddressSocket_locks_def removeServerSocket_locks_def
  refresh_locks_def killSocket_locks_def initSessionList_locks_def registerSession_locks_def
  releaseSession_locks_def addMessageToMessageQueue_locks_def

lemma keeps_above_tables [lock_rules]:
  "r \<le> 5 \<Longrightarrow> keeps_above server_rank r getSocketFromAddress_locks"
  "r \<le> 5 \<Longrightarrow> keeps_above server_rank r registryAddressSocket_locks"
  "r \<le> 5 \<Longrightarrow> keeps_above server_rank r removeServerSocket_locks"
  "r \<le> 5 \<Longrightarrow> keeps_above server_rank r refresh_locks"
  "r \<le> 5 \<Longrightarrow> keeps_above server_rank r killSocket_locks"
  "r \<le> 3 \<Longrightarrow> keeps_above server_rank r (initSessionList_locks g u)"
  "r \<le> 3 \<Longrightarrow> keeps_above server_rank r (registerSession_locks g u)"
  "r \<le> 3 \<Longrightarrow> keeps_above server_rank r (releaseSession_locks g u)"
  "r \<le> 4 \<Longrightarrow> keeps_above server_rank r (addMessageToMessageQueue_locks g)"
  unfolding table_locks_defs by (auto intro!: keeps_above_under keeps_above_Nil)

lemma keeps_above_groups [lock_rules]:
  "r \<le> 4 \<Longrightarrow> keeps_above server_rank r (sendHistoryToUser_locks g n)"
  "r \<le> 2 \<Longrightarrow> keeps_above server_rank r (registerNewSession_locks primary g u known n)"
  "r \<le> 3 \<Longrightarrow> keeps_above server_rank r (disconnectSession_locks primary g found)"
  "r \<le> 2 \<Longrightarrow> keeps_above server_rank r (handleDisconnectEvent_locks primary g sessions)"
  "r \<le> 2 \<Longrightarrow> keeps_above server_rank r (consumeMessage_locks primary g n)"
proof -
  show "keeps_above server_rank r (sendHistoryToUser_locks g n)" if "r \<le> 4" for r
    using that unfolding sendHistoryToUser_locks_def by (auto intro!: lock_rules)
  note history = this
  show "r \<le> 2 \<Longrightarrow> keeps_above server_rank r (registerNewSession_locks primary g u known n)"
    unfolding registerNewSession_locks_def by (auto intro!: lock_rules history)
  show "keeps_above server_rank r (disconnectSession_locks primary g found)" if "r \<le> 3" for r found
    using that unfolding disconnectSession_locks_def by (auto intro!: lock_rules split: option.split)
  note session = this
  show "r \<le> 2 \<Longrightarrow> keeps_above server_rank r (handleDisconnectEvent_locks primary g sessions)"
    unfolding handleDisconnectEvent_locks_def by (auto intro!: lock_rules session)
  show "r \<le> 2 \<Longrightarrow> keeps_above server_rank r (consumeMessage_locks primary g n)"
    unfolding consumeMessage_locks_def by (auto intro!: lock_rules)
qed

lemma keeps_above_server [lock_rules]:
  "r \<le> 1 \<Longrightarrow> keeps_above server_rank r (closeClientConnection_locks primary groups)"
  "r \<le> 0 \<Longrightarrow> keeps_above server_rank r (purgeFeConnection_locks k)"
  "r \<le> 1 \<Longrightarrow> keeps_above server_rank r (registerUserToServer_locks primary reg)"
  unfolding closeClientConnection_locks_def purgeFeConnection_locks_def registerUserToServer_locks_def
  by (auto intro!: lock_rules split: registration.split)

lemma keeps_above_closeFrontEndConnection [lock_rules]:
  "keeps_above server_rank 0 (closeFrontEndConnection_locks found primary groups k)"
  unfolding closeFrontEndConnection_locks_def by (auto intro!: lock_rules)

lemma keeps_above_handled [lock_rules]: "keeps_above server_rank 0 (handled_locks primary h)"
  unfolding handled_locks_def by (auto intro!: lock_rules split: handled.split option.split)

lemma keeps_above_server_thread: "server_thread p \<Longrightarrow> keeps_above server_rank 0 p"
  by (erule server_threadE)
    (auto simp: listenFrontEndCommunication_locks_def monitorConnection_locks_def handleRMCommunication_locks_def
      consumeMessageQueue_locks_def connect_all_locks_def handleFrontEndsConnections_locks_def
      closeServer_locks_def intro!: lock_rules)

interpretation server_semaphores: ranked_locks server_rank server_thread
  by unfold_locales (rule keeps_above_server_thread)

subsection \<open>The signal handler\<close>

text \<open>
  \<open>my_handler\<close> of \<open>src/app/app_server.cpp\<close> runs \<open>closeServer\<close> on whichever thread the signal
  interrupts, before the rest of that thread.
\<close>

definition interrupted :: "nat \<Rightarrow> nat \<Rightarrow> server_lock locks \<Rightarrow> server_lock locks" where
  "interrupted i n s =
     s\<lparr>lk_threads := (lk_threads s)[i := closeServer_locks n @ lk_threads s ! i]\<rparr>"

lemma interrupted_self_waiting:
  assumes ok: "locks_ok rank s" and own: "lk_owner s Fe_Addresses = Some i"
  shows "\<exists>p. self_waiting rank i Fe_Addresses p (interrupted i n s)"
proof -
  obtain hs where "holding rank s hs" using ok by (auto simp: locks_ok_def)
  note parts = this [unfolded holding_def]
  have i: "i < length (lk_threads s)" using parts own by auto
  moreover have "\<exists>h. ordered rank h (lk_threads s ! j) \<and> Fe_Addresses \<notin> set h"
    if "j < length (lk_threads s)" "j \<noteq> i" for j
    using parts own that by (metis option.inject)
  ultimately show ?thesis
    using own by (auto simp: self_waiting_def interrupted_def closeServer_locks_def under_def)
qed

end
