(* ===== verification/Proxy_Locks.thy ===== *)
theory Proxy_Locks
  imports Lock_Order
begin

section \<open>The semaphores of the front end\<close>

text \<open>
  The \<open>wait\<close> and \<open>post\<close> calls of \<open>src/proxy_fe/ProxyFE.cpp\<close> and of its keep-alive monitor, on
  every path, as in theory \<open>Server_Locks\<close>: no table is used while another is held.
  \<open>processing_message_semaphore\<close>, which one thread waits for and another posts, is in
  theory \<open>Handoff\<close>.
\<close>

datatype proxy_lock =
    Users_Map  \<comment> \<open>\<open>users_map_semaphore\<close>\<close>
  | Sockets_Map  \<comment> \<open>\<open>sockets_map_semaphore\<close>\<close>
  | Online  \<comment> \<open>\<open>online_semaphore\<close>\<close>
  | Proxy_Keep_Alive  \<comment> \<open>\<open>socketLastKeepAliveSemaphore\<close>\<close>

type_synonym proxy_calls = "proxy_lock lock_act list"

datatype routed_packet = To_User | Keeps_Alive | Undefined_Type

definition processServerPacket_locks :: "routed_packet \<Rightarrow> proxy_calls" where
  "processServerPacket_locks p =
     (case p of To_User \<Rightarrow> under Users_Map [] | Keeps_Alive \<Rightarrow> under Proxy_Keep_Alive [] | Undefined_Type \<Rightarrow> [])"

definition handleSocketDisconnection_locks :: proxy_calls where
  "handleSocketDisconnection_locks = under Proxy_Keep_Alive [] @ under Sockets_Map [] @ under Users_Map []"

definition handleServerDisconnection_locks :: proxy_calls where
  "handleServerDisconnection_locks = handleSocketDisconnection_locks @ under Online []"

definition listenServerCommunication_locks :: "routed_packet list \<Rightarrow> proxy_calls" where
  "listenServerCommunication_locks ps =
     concat (map processServerPacket_locks ps) @ handleServerDisconnection_locks"

definition handleServerConnection_locks :: "bool \<Rightarrow> proxy_calls" where
  "handleServerConnection_locks accepted = (if accepted then under Online [] else [])"

definition listenServerReconnect_locks :: "bool list \<Rightarrow> proxy_calls" where
  "listenServerReconnect_locks rounds = concat (map handleServerConnection_locks rounds)"

definition registerUserSocket_locks :: proxy_calls where
  "registerUserSocket_locks = under Users_Map [] @ under Sockets_Map []"

datatype client_packet = Line | Beat | Joining | Unknown_Type

definition processClientPacket_locks :: "client_packet \<Rightarrow> proxy_calls" where
  "processClientPacket_locks p =
     (case p of Line \<Rightarrow> [] | Beat \<Rightarrow> under Proxy_Keep_Alive [] | Joining \<Rightarrow> registerUserSocket_locks
        | Unknown_Type \<Rightarrow> [])"

definition listenClientCommunication_locks :: "client_packet list \<Rightarrow> proxy_calls" where
  "listenClientCommunication_locks ps =
     concat (map processClientPacket_locks ps) @ handleSocketDisconnection_locks"

definition monitorConnectionKeepAlive_locks :: "nat \<Rightarrow> proxy_calls" where
  "monitorConnectionKeepAlive_locks looks = concat (replicate looks (under Proxy_Keep_Alive []))"

inductive proxy_thread :: "proxy_calls \<Rightarrow> bool" where
  Server: "proxy_thread (listenServerCommunication_locks ps)"
| Reconnect: "proxy_thread (listenServerReconnect_locks rounds)"
| Client: "proxy_thread (listenClientCommunication_locks cs)"
| Monitor: "proxy_thread (monitorConnectionKeepAlive_locks looks)"
| Main: "proxy_thread (handleServerConnection_locks accepted)"

inductive_cases proxy_threadE: "proxy_thread p"

lemmas proxy_locks_defs =
  processServerPacket_locks_def handleSocketDisconnection_locks_def handleServerDisconnection_locks_def
  listenServerCommunication_locks_def handleServerConnection_locks_def listenServerReconnect_locks_def
  registerUserSocket_locks_def processClientPacket_locks_def listenClientCommunication_locks_def
  monitorConnectionKeepAlive_locks_def

lemma keeps_above_proxy_thread: "proxy_thread p \<Longrightarrow> keeps_above (\<lambda>_. 0) 0 p"
  by (erule proxy_threadE)
    (auto simp: proxy_locks_defs intro!: lock_rules split: routed_packet.split client_packet.split)

interpretation proxy_semaphores: ranked_locks "\<lambda>_ :: proxy_lock. 0" proxy_thread
  by unfold_locales (rule keeps_above_proxy_thread)

end
