(* ===== verification/Thread_Start.thy ===== *)
theory Thread_Start
  imports Server_State
begin

section \<open>Starting the threads of the front ends\<close>

text \<open>
  \<open>Server::handleFrontEndsConnections\<close> starts two threads for each front end and gives the address to both
  through one pair in memory, \<open>args\<close>, which it overwrites for the next front end and frees at the
  end. \<open>feConnectionInitializationSemaphore\<close> keeps this apart: the main thread waits for it
  before each use of the pair, and the new thread posts it when it has read the address. The steps are
  those of the main thread, here the list of what it still has to do, and of the threads it has started.
\<close>

datatype starter = Await | Assign string | Spawn string | Free_Args | Release
  \<comment> \<open>\<open>Spawn\<close> with the front end the thread is meant for\<close>

datatype newcomer = Starting | Has_Read "string option" | Running "string option"
  \<comment> \<open>\<open>None\<close>: the pair had been freed\<close>

record start_up =
  su_permits :: nat
  su_args :: "string option"  \<comment> \<open>\<open>args->first\<close>; \<open>None\<close> once freed\<close>
  su_main :: "starter list"
  su_threads :: "(string \<times> newcomer) list"

definition start_program :: "string list \<Rightarrow> starter list" where
  "start_program feAddresses =
     concat (map (\<lambda>a. [Await, Assign a, Spawn a, Await, Spawn a]) feAddresses) @ [Await, Free_Args, Release]"

definition start_up0 :: "string list \<Rightarrow> start_up" where
  "start_up0 feAddresses =
     \<lparr>su_permits = 1, su_args = Some [], su_main = start_program feAddresses, su_threads = []\<rparr>"

inductive start_step :: "start_up \<Rightarrow> start_up \<Rightarrow> bool" where
  Await: "su_main s = Await # p \<Longrightarrow> su_permits s = Suc n \<Longrightarrow>
    start_step s (s\<lparr>su_main := p, su_permits := n\<rparr>)"
| Assign: "su_main s = Assign a # p \<Longrightarrow> start_step s (s\<lparr>su_main := p, su_args := Some a\<rparr>)"
| Spawn: "su_main s = Spawn a # p \<Longrightarrow>
    start_step s (s\<lparr>su_main := p, su_threads := su_threads s @ [(a, Starting)]\<rparr>)"
| Free: "su_main s = Free_Args # p \<Longrightarrow> start_step s (s\<lparr>su_main := p, su_args := None\<rparr>)"
| Release: "su_main s = Release # p \<Longrightarrow>
    start_step s (s\<lparr>su_main := p, su_permits := Suc (su_permits s)\<rparr>)"
| Read: "i < length (su_threads s) \<Longrightarrow> su_threads s ! i = (a, Starting) \<Longrightarrow>
    start_step s (s\<lparr>su_threads := (su_threads s)[i := (a, Has_Read (su_args s))]\<rparr>)"
| Post: "i < length (su_threads s) \<Longrightarrow> su_threads s ! i = (a, Has_Read x) \<Longrightarrow>
    start_step s (s\<lparr>su_threads := (su_threads s)[i := (a, Running x)], su_permits := Suc (su_permits s)\<rparr>)"

inductive_cases start_stepE: "start_step s t"
inductive_simps start_step_iff: "start_step s t"

definition start_reachable :: "string list \<Rightarrow> start_up \<Rightarrow> bool" where
  "start_reachable feAddresses s \<longleftrightarrow> start_step\<^sup>*\<^sup>* (start_up0 feAddresses) s"

subsection \<open>The invariant\<close>

text \<open>The one permit is free, with the main thread, or with a thread that has not posted yet.\<close>

definition has_permit :: "starter list \<Rightarrow> nat" where
  "has_permit p = (case p of [] \<Rightarrow> 0 | Await # _ \<Rightarrow> 0 | _ \<Rightarrow> 1)"

definition reading :: "newcomer \<Rightarrow> bool" where
  "reading n \<longleftrightarrow> (case n of Running _ \<Rightarrow> False | _ \<Rightarrow> True)"

text \<open>
  What is left of the main thread's program, with the address the pair holds.
\<close>

inductive start_shape :: "string option \<Rightarrow> starter list \<Rightarrow> bool" where
  Next: "start_shape x (start_program as)"
| Assign: "start_shape x (Assign a # Spawn a # Await # Spawn a # start_program as)"
| Listener: "start_shape (Some a) (Spawn a # Await # Spawn a # start_program as)"
| Between: "start_shape (Some a) (Await # Spawn a # start_program as)"
| Monitor: "start_shape (Some a) (Spawn a # start_program as)"
| Free: "start_shape x [Free_Args, Release]"
| Freed: "start_shape x [Release]"
| Done: "start_shape x []"

definition newcomer_ok :: "string option \<Rightarrow> string \<times> newcomer \<Rightarrow> bool" where
  "newcomer_ok args e \<longleftrightarrow>
     (case snd e of Starting \<Rightarrow> args | Has_Read x \<Rightarrow> x | Running x \<Rightarrow> x) = Some (fst e)"

lemma newcomer_ok_simps [simp]:
  "newcomer_ok args (a, Starting) \<longleftrightarrow> args = Some a"
  "newcomer_ok args (a, Has_Read x) \<longleftrightarrow> x = Some a"
  "newcomer_ok args (a, Running x) \<longleftrightarrow> x = Some a"
  by (simp_all add: newcomer_ok_def)

definition start_inv :: "start_up \<Rightarrow> bool" where
  "start_inv s \<longleftrightarrow>
     su_permits s + has_permit (su_main s) + length (filter (reading \<circ> snd) (su_threads s)) = 1 \<and>
     start_shape (su_args s) (su_main s) \<and>
     (\<forall>e\<in>set (su_threads s). newcomer_ok (su_args s) e)"

lemma start_program_simps [simp]:
  "start_program [] = [Await, Free_Args, Release]"
  "start_program (a # as) = Await # Assign a # Spawn a # Await # Spawn a # start_program as"
  by (simp_all add: start_program_def)

inductive_cases start_shapeE: "start_shape x (m # p)"

lemma start_shape_step:
  assumes "start_shape x (m # p)"
  shows "(m = Await \<longrightarrow> start_shape x p \<and> has_permit p = 1) \<and>
    (\<forall>a. m = Assign a \<longrightarrow> start_shape (Some a) p \<and> has_permit p = 1) \<and>
    (\<forall>a. m = Spawn a \<longrightarrow> x = Some a \<and> start_shape x p \<and> has_permit p = 0) \<and>
    (m = Free_Args \<longrightarrow> start_shape y p \<and> has_permit p = 1) \<and>
    (m = Release \<longrightarrow> p = [])"
  using assms
proof (cases rule: start_shape.cases)
  case (Next as)
  then show ?thesis by (cases as) (auto simp: has_permit_def intro: start_shape.intros)
next
  case (Monitor a as)
  moreover have "start_shape x (start_program as)" by (rule start_shape.Next)
  ultimately show ?thesis by (cases as) (auto simp: has_permit_def)
qed (auto simp: has_permit_def intro: start_shape.intros)

text \<open>While the main thread has the permit no other thread is looking at the pair.\<close>

lemma newcomer_ok_other: "newcomer_ok args e \<Longrightarrow> \<not> reading (snd e) \<Longrightarrow> newcomer_ok args' e"
  by (auto simp: newcomer_ok_def reading_def split: newcomer.splits)

lemma start_inv_alone:
  assumes "start_inv s" and "has_permit (su_main s) = 1"
  shows "su_permits s = 0" "\<forall>e\<in>set (su_threads s). \<not> reading (snd e)" "\<forall>e\<in>set (su_threads s). newcomer_ok args e"
proof -
  show p: "su_permits s = 0" using assms by (simp add: start_inv_def)
  have "filter (reading \<circ> snd) (su_threads s) = []" using assms by (simp add: start_inv_def)
  then show r: "\<forall>e\<in>set (su_threads s). \<not> reading (snd e)" by (simp add: filter_empty_conv)
  show "\<forall>e\<in>set (su_threads s). newcomer_ok args e"
    using assms(1) r newcomer_ok_other unfolding start_inv_def by blast
qed

lemma length_filter_update:
  "i < length xs \<Longrightarrow> P (xs ! i) \<Longrightarrow>
   length (filter P (xs[i := x])) = (if P x then length (filter P xs) else length (filter P xs) - 1)"
proof (induction xs arbitrary: i)
  case Nil
  then show ?case by simp
next
  case (Cons y ys)
  have "0 < length (filter P ys)" if "j < length ys" "P (ys ! j)" for j
    using that by (metis length_greater_0_conv filter_empty_conv nth_mem)
  then show ?case using Cons by (cases i) auto
qed

lemma start_inv_step:
  assumes step: "start_step s t" and inv: "start_inv s"
  shows "start_inv t"
  using step
proof (cases rule: start_step.cases)
  case (Await p n)
  then show ?thesis using inv start_shape_step [of "su_args s" Await p]
    by (auto simp: start_inv_def has_permit_def)
next
  case (Assign a p)
  then have "has_permit (su_main s) = 1" by (simp add: has_permit_def)
  from start_inv_alone [OF inv this] show ?thesis
    using Assign inv start_shape_step [of "su_args s" "Assign a" p] by (fastforce simp: start_inv_def has_permit_def)
next
  case (Spawn a p)
  then show ?thesis using inv start_shape_step [of "su_args s" "Spawn a" p]
    by (auto simp: start_inv_def has_permit_def reading_def)
next
  case (Free p)
  then have "has_permit (su_main s) = 1" by (simp add: has_permit_def)
  from start_inv_alone [OF inv this] show ?thesis
    using Free inv start_shape_step [of "su_args s" Free_Args p None]
    by (fastforce simp: start_inv_def has_permit_def)
next
  case (Release p)
  then have "has_permit (su_main s) = 1" by (simp add: has_permit_def)
  then show ?thesis
    using Release inv start_shape_step [of "su_args s" Release p] start_shape.Done
    by (auto simp: start_inv_def has_permit_def)
next
  case (Read i a)
  then have "su_args s = Some a" using inv nth_mem [of i "su_threads s"] by (fastforce simp: start_inv_def)
  moreover have "length (filter (reading \<circ> snd) ((su_threads s)[i := (a, Has_Read (su_args s))])) =
      length (filter (reading \<circ> snd) (su_threads s))"
    using Read by (subst length_filter_update) (simp_all add: reading_def)
  ultimately show ?thesis using Read inv by (auto simp: start_inv_def dest!: set_update_subset_insert [THEN subsetD])
next
  case (Post i a x)
  then have x: "x = Some a" using inv nth_mem [of i "su_threads s"] by (fastforce simp: start_inv_def)
  have "(a, Has_Read x) \<in> set (su_threads s)" using Post nth_mem by metis
  moreover have "reading (snd (a, Has_Read x))" by (simp add: reading_def)
  ultimately have "0 < length (filter (reading \<circ> snd) (su_threads s))"
    by (metis comp_apply filter_empty_conv length_greater_0_conv)
  then have "length (filter (reading \<circ> snd) (su_threads s)) = 1" "su_permits s = 0" "has_permit (su_main s) = 0"
    using inv unfolding start_inv_def by linarith+
  moreover have "length (filter (reading \<circ> snd) ((su_threads s)[i := (a, Running x)])) =
      length (filter (reading \<circ> snd) (su_threads s)) - 1"
    using Post by (subst length_filter_update) (simp_all add: reading_def)
  ultimately show ?thesis
    using x Post inv by (auto simp: start_inv_def dest!: set_update_subset_insert [THEN subsetD])
qed

definition to_spawn :: "starter list \<Rightarrow> string list" where
  "to_spawn p = concat (map (\<lambda>m. case m of Spawn a \<Rightarrow> [a] | _ \<Rightarrow> []) p)"

lemma to_spawn_simps [simp]:
  "to_spawn [] = []" "to_spawn (Await # p) = to_spawn p" "to_spawn (Assign a # p) = to_spawn p"
  "to_spawn (Spawn a # p) = a # to_spawn p" "to_spawn (Free_Args # p) = to_spawn p"
  "to_spawn (Release # p) = to_spawn p"
  by (simp_all add: to_spawn_def)

definition started :: "start_up \<Rightarrow> string list" where
  "started s = map fst (su_threads s) @ to_spawn (su_main s)"

lemma map_fst_update: "i < length xs \<Longrightarrow> xs ! i = (a, x) \<Longrightarrow> map fst (xs[i := (a, y)]) = map fst xs"
  by (metis fst_conv list_update_id map_update nth_map)

lemma started_step: "start_step s t \<Longrightarrow> started t = started s"
  by (erule start_stepE) (auto simp: started_def map_fst_update)

lemma has_permit_program [simp]: "has_permit (start_program as) = 0"
  by (cases as) (simp_all add: has_permit_def)

lemma start_inv_start: "start_inv (start_up0 as)"
  by (simp add: start_inv_def start_up0_def start_shape.Next)

lemma start_reachable_inv:
  assumes "start_reachable as s"
  shows "start_inv s \<and> started s = concat (map (\<lambda>a. [a, a]) as)"
  using assms unfolding start_reachable_def
proof (induction rule: rtranclp_induct)
  case base
  have "to_spawn (start_program as) = concat (map (\<lambda>a. [a, a]) as)" by (induction as) simp_all
  then show ?case using start_inv_start by (simp add: started_def start_up0_def)
next
  case (step s t)
  then show ?case using start_inv_step started_step by metis
qed

subsection \<open>The start comes to an end\<close>

definition start_over :: "start_up \<Rightarrow> bool" where
  "start_over s \<longleftrightarrow> su_main s = [] \<and> (\<forall>e\<in>set (su_threads s). \<not> reading (snd e))"

lemma start_stuck_iff:
  assumes inv: "start_inv s"
  shows "(\<nexists>t. start_step s t) \<longleftrightarrow> start_over s"
proof
  assume stuck: "\<nexists>t. start_step s t"
  have running: "\<not> reading (snd (su_threads s ! i))" if i: "i < length (su_threads s)" for i
  proof (cases "su_threads s ! i")
    case (Pair a n)
    then show ?thesis using stuck start_step.Read [OF i] start_step.Post [OF i] by (cases n) (auto simp: reading_def)
  qed
  then have all: "\<forall>e\<in>set (su_threads s). \<not> reading (snd e)" by (metis in_set_conv_nth)
  then have one: "su_permits s + has_permit (su_main s) = 1" using inv by (simp add: start_inv_def)
  have "su_main s = []"
  proof (cases "su_main s")
    case (Cons m p)
    then show ?thesis
      using stuck one start_step.Await [OF Cons [THEN trans]] start_step.intros(2-5) [of s]
      by (cases m) (auto simp: has_permit_def start_step_iff)
  qed
  then show "start_over s" using all by (simp add: start_over_def)
next
  assume "start_over s"
  then show "\<nexists>t. start_step s t" using nth_mem by (fastforce simp: start_over_def reading_def elim!: start_stepE)
qed

definition main_work :: "starter list \<Rightarrow> nat" where
  "main_work p = (\<Sum>m\<leftarrow>p. case m of Spawn a \<Rightarrow> 3 | _ \<Rightarrow> 1)"

definition thread_work :: "(string \<times> newcomer) list \<Rightarrow> nat" where
  "thread_work ts = (\<Sum>e\<leftarrow>ts. case snd e of Starting \<Rightarrow> 2 | Has_Read x \<Rightarrow> 1 | Running x \<Rightarrow> 0)"

lemma thread_work_update:
  "i < length ts \<Longrightarrow> thread_work (ts[i := e]) + thread_work [ts ! i] = thread_work ts + thread_work [e]"
proof (induction ts arbitrary: i)
  case Nil
  then show ?case by simp
next
  case (Cons t ts)
  then show ?case by (cases i) (auto simp: thread_work_def)
qed

lemma start_work_step:
  "start_step s t \<Longrightarrow>
   Suc (main_work (su_main t) + thread_work (su_threads t)) = main_work (su_main s) + thread_work (su_threads s)"
proof (erule start_stepE)
  fix i a
  assume "i < length (su_threads s)" "su_threads s ! i = (a, Starting)"
    "t = s\<lparr>su_threads := (su_threads s)[i := (a, Has_Read (su_args s))]\<rparr>"
  then show ?thesis using thread_work_update [of i "su_threads s" "(a, Has_Read (su_args s))"]
    by (simp add: thread_work_def)
next
  fix i a x
  assume "i < length (su_threads s)" "su_threads s ! i = (a, Has_Read x)"
    "t = s\<lparr>su_threads := (su_threads s)[i := (a, Running x)], su_permits := Suc (su_permits s)\<rparr>"
  then show ?thesis using thread_work_update [of i "su_threads s" "(a, Running x)"]
    by (simp add: thread_work_def)
qed (simp_all add: main_work_def thread_work_def)

lemma start_run_length:
  assumes "(start_step ^^ k) (start_up0 as) s"
  shows "k \<le> 9 * length as + 3"
proof -
  have "k + (main_work (su_main s) + thread_work (su_threads s)) =
      main_work (start_program as) + thread_work []"
    using assms
  proof (induction k arbitrary: s)
    case 0
    then have "s = start_up0 as" by simp
    then show ?case by (simp add: start_up0_def)
  next
    case (Suc k)
    then obtain t where "(start_step ^^ k) (start_up0 as) t" "start_step t s" by auto
    then show ?case using Suc.IH start_work_step by fastforce
  qed
  moreover have "main_work (start_program as) = 9 * length as + 3"
    by (induction as) (simp_all add: main_work_def)
  ultimately show ?thesis by (simp add: thread_work_def)
qed

lemma all_running:
  "ts = map (\<lambda>a. (a, Running (Some a))) (map fst ts) \<longleftrightarrow> (\<forall>e\<in>set ts. snd e = Running (Some (fst e)))"
  by (induction ts) auto

lemma newcomers_ok:
  assumes "start_inv s" and "e \<in> set (su_threads s)"
  shows "snd e \<in> {Starting, Has_Read (Some (fst e)), Running (Some (fst e))}"
proof -
  have "newcomer_ok (su_args s) e" using assms by (simp add: start_inv_def)
  then show ?thesis by (cases "snd e") (simp_all add: newcomer_ok_def)
qed

lemma start_over_iff:
  assumes "start_inv s"
  shows "start_over s \<longleftrightarrow> su_main s = [] \<and> su_threads s = map (\<lambda>a. (a, Running (Some a))) (started s)"
proof -
  have "\<not> reading (snd e) \<longleftrightarrow> snd e = Running (Some (fst e))" if "e \<in> set (su_threads s)" for e
    using newcomers_ok [OF assms that] by (auto simp: reading_def)
  then show ?thesis using all_running [of "su_threads s"] by (auto simp: start_over_def started_def)
qed

lemma start_ends: "\<exists>k s. (start_step ^^ k) (start_up0 as) s \<and> (\<nexists>t. start_step s t)"
proof (rule ccontr)
  assume none: "\<not> ?thesis"
  have "\<exists>s. (start_step ^^ k) (start_up0 as) s" for k
  proof (induction k)
    case 0
    then show ?case by auto
  next
    case (Suc k)
    then obtain s t where "(start_step ^^ k) (start_up0 as) s" "start_step s t" using none by blast
    then show ?case by auto
  qed
  then obtain s where "(start_step ^^ (9 * length as + 4)) (start_up0 as) s" by blast
  from start_run_length [OF this] show False by simp
qed

end
