(* ===== verification/Join_Race.thy ===== *)
theory Join_Race
  imports Group_Manager
begin

section \<open>Joins at the same time\<close>

text \<open>
  \<open>ServerGroupManager::registerUserToGroup\<close> uses the table of groups without its semaphore, so the
  listening threads of two front ends can be inside it at once. Here its accesses to the table
  are steps of their own, and the groups are objects in a heap to which the table has pointers:
  the thread looks the name up, stores a new group, configures the group found under the name,
  reads the pointer, and registers the session with the object. Each access is taken to be atomic.
  A schedule is the list of the threads that move; threads are numbered.
\<close>

datatype joining = Looking | Missing | Created | Fetching | Registering nat | Joined int

record joiner =
  jn_env :: env
  jn_session :: session
  jn_user :: string
  jn_group :: string
  jn_at :: joining

record join_state =
  js_map :: "(string, nat) cmap"  \<comment> \<open>\<open>groupMap\<close>\<close>
  js_heap :: "chat_group list"
  js_limit :: int
  js_world :: world
  js_joiners :: "joiner list"
  js_log :: "nat list"  \<comment> \<open>threads in the order in which their sessions were registered\<close>

definition joiner_moves :: "nat \<Rightarrow> joining \<Rightarrow> join_state \<Rightarrow> join_state" where
  "joiner_moves i pc s = s\<lparr>js_joiners := (js_joiners s)[i := (js_joiners s ! i)\<lparr>jn_at := pc\<rparr>]\<rparr>"

definition join_step :: "nat \<Rightarrow> join_state \<Rightarrow> join_state option" where
  "join_step i s =
     (if i < length (js_joiners s) then
        (let j = js_joiners s ! i; groupName = jn_group j in
         case jn_at j of
           Looking \<Rightarrow>
             Some (joiner_moves i (if map_find (js_map s) groupName = None then Missing else Fetching) s)
         | Missing \<Rightarrow>
             Some (joiner_moves i Created
               (s\<lparr>js_heap := js_heap s @ [Group (e_int (jn_env j)) groupName],
                  js_map := map_assign (js_map s) groupName (length (js_heap s))\<rparr>))
         | Created \<Rightarrow> do {
             p \<leftarrow> map_find (js_map s) groupName;
             Some (joiner_moves i Fetching
               (s\<lparr>js_heap := (js_heap s)[p := configureGroup (js_limit s) (js_heap s ! p)]\<rparr>))
           }
         | Fetching \<Rightarrow> map_option (\<lambda>p. joiner_moves i (Registering p) s) (map_find (js_map s) groupName)
         | Registering p \<Rightarrow> do {
             (result, g, w) \<leftarrow> registerNewSession (jn_env j) (fst (jn_session j)) (snd (jn_session j))
               (jn_user j) (js_heap s ! p, js_world s);
             Some (joiner_moves i (Joined result)
               (s\<lparr>js_heap := (js_heap s)[p := g], js_world := w, js_log := js_log s @ [i]\<rparr>))
           }
         | Joined result \<Rightarrow> None)
      else None)"

text \<open>What the rest of the server sees: the groups the table points to.\<close>

definition manager_of :: "join_state \<Rightarrow> manager" where
  "manager_of s = \<lparr>gm_groupMap = map (\<lambda>(k, p). (k, js_heap s ! p)) (js_map s), gm_maxMessages = js_limit s\<rparr>"

definition heap_ok :: "join_state \<Rightarrow> bool" where
  "heap_ok s \<longleftrightarrow> map_wf (js_map s) \<and>
     (\<forall>k p. map_find (js_map s) k = Some p \<longrightarrow> p < length (js_heap s)) \<and>
     (\<forall>k l p. map_find (js_map s) k = Some p \<longrightarrow> map_find (js_map s) l = Some p \<longrightarrow> k = l)"

lemma manager_of_find:
  "map_find (gm_groupMap (manager_of s)) k = map_option ((!) (js_heap s)) (map_find (js_map s) k)"
  unfolding manager_of_def using map_find_map [of "(!) (js_heap s)"] by simp

lemma manager_of_wf: "heap_ok s \<Longrightarrow> map_wf (gm_groupMap (manager_of s))"
  by (simp add: manager_of_def heap_ok_def)

text \<open>Storing a group in the heap is storing it in the table.\<close>

lemma manager_of_store:
  assumes "heap_ok s" and "map_find (js_map s) k = Some p" and "js_map t = js_map s"
    and "js_heap t = (js_heap s)[p := g]"
  shows "gm_groupMap (manager_of t) = map_assign (gm_groupMap (manager_of s)) k g"
proof (rule map_ext)
  have ok: "heap_ok t" using assms by (simp add: heap_ok_def)
  show "map_wf (gm_groupMap (manager_of t))" by (rule manager_of_wf [OF ok])
  show "map_wf (map_assign (gm_groupMap (manager_of s)) k g)" using manager_of_wf [OF assms(1)] by simp
  show "map_find (gm_groupMap (manager_of t)) l = map_find (map_assign (gm_groupMap (manager_of s)) k g) l" for l
    using assms by (cases "map_find (js_map s) l") (auto simp: manager_of_find heap_ok_def nth_list_update)
qed

subsection \<open>One thread alone\<close>

text \<open>The schedule in which one thread does all of it is \<open>registerUserToGroup\<close>.\<close>

definition joining_result :: "join_state option \<Rightarrow> nat \<Rightarrow> (int \<times> manager \<times> world) option" where
  "joining_result r i = do {
     s \<leftarrow> r;
     case jn_at (js_joiners s ! i) of Joined result \<Rightarrow> Some (result, manager_of s, js_world s) | _ \<Rightarrow> None
   }"

lemma joiner_moves_simps [simp]:
  "js_map (joiner_moves i pc s) = js_map s" "js_heap (joiner_moves i pc s) = js_heap s"
  "js_limit (joiner_moves i pc s) = js_limit s" "js_world (joiner_moves i pc s) = js_world s"
  "length (js_joiners (joiner_moves i pc s)) = length (js_joiners s)" "js_log (joiner_moves i pc s) = js_log s"
  "i < length (js_joiners s) \<Longrightarrow> js_joiners (joiner_moves i pc s) ! i = (js_joiners s ! i)\<lparr>jn_at := pc\<rparr>"
  "j \<noteq> i \<Longrightarrow> js_joiners (joiner_moves i pc s) ! j = js_joiners s ! j"
  "manager_of (joiner_moves i pc s) = manager_of s"
  by (simp_all add: joiner_moves_def manager_of_def)

definition register_joiner :: "joiner \<Rightarrow> manager \<times> world \<Rightarrow> (int \<times> manager \<times> world) option" where
  "register_joiner j = registerUserToGroup (jn_env j) (jn_session j) (jn_user j) (jn_group j)"

lemma register_joiner_moved [simp]: "register_joiner (j\<lparr>jn_at := pc\<rparr>) = register_joiner j"
  by (simp add: register_joiner_def)

lemma register_existing:
  assumes "map_find (gm_groupMap m) (jn_group j) = Some g"
  shows "register_joiner j (m, w) = do {
    (result, g', w') \<leftarrow> registerNewSession (jn_env j) (fst (jn_session j)) (snd (jn_session j)) (jn_user j) (g, w);
    Some (result, m\<lparr>gm_groupMap := map_assign (gm_groupMap m) (jn_group j) g'\<rparr>, w') }"
  using assms by (simp add: register_joiner_def registerUserToGroup_def groupExists_def)

lemma join_step_registers:
  assumes ok: "heap_ok s" and i: "i < length (js_joiners s)" "js_joiners s ! i = j" "jn_at j = Registering p"
    and p: "map_find (js_map s) (jn_group j) = Some p"
  shows "joining_result (join_step i s) i = register_joiner j (manager_of s, js_world s)"
proof (cases "registerNewSession (jn_env j) (fst (jn_session j)) (snd (jn_session j)) (jn_user j) (js_heap s ! p, js_world s)")
  case None
  then show ?thesis
    using i p by (simp add: joining_result_def join_step_def register_existing [of _ j "js_heap s ! p"] manager_of_find)
next
  case (Some r)
  obtain result g w where r: "r = (result, g, w)" by (cases r)
  let ?t = "s\<lparr>js_heap := (js_heap s)[p := g], js_world := w, js_log := js_log s @ [i]\<rparr>"
  have "gm_groupMap (manager_of ?t) = map_assign (gm_groupMap (manager_of s)) (jn_group j) g"
    by (rule manager_of_store [OF ok p]) simp_all
  then have "manager_of ?t = (manager_of s)\<lparr>gm_groupMap := map_assign (gm_groupMap (manager_of s)) (jn_group j) g\<rparr>"
    by (simp add: manager_of_def)
  then show ?thesis
    using Some r i p by (simp add: joining_result_def join_step_def Let_def register_existing [of _ j "js_heap s ! p"] manager_of_find)
qed

lemma heap_ok_moves [simp]: "heap_ok (joiner_moves i pc s) = heap_ok s"
  by (simp add: heap_ok_def)

lemma heap_ok_step:
  assumes ok: "heap_ok s" and step: "join_step i s = Some t"
  shows "heap_ok t"
proof -
  have new: "heap_ok (s\<lparr>js_heap := js_heap s @ [g], js_map := map_assign (js_map s) k (length (js_heap s))\<rparr>)" for g k
    using ok by (fastforce simp: heap_ok_def split: if_splits)
  have upd: "heap_ok (s\<lparr>js_heap := (js_heap s)[p := g], js_world := w, js_log := l\<rparr>)"
    "heap_ok (s\<lparr>js_heap := (js_heap s)[p := g]\<rparr>)" for p g w l
    using ok by (simp_all add: heap_ok_def)
  have i: "i < length (js_joiners s)" using step by (auto simp: join_step_def split: if_splits)
  show ?thesis
    using step i ok new upd
    by (cases "jn_at (js_joiners s ! i)") (auto simp: join_step_def Let_def bind_iff)
qed

lemma alone_existing:
  assumes ok: "heap_ok s" and i: "i < length (js_joiners s)" "js_joiners s ! i = j" "jn_at j = Fetching"
    and g: "map_find (js_map s) (jn_group j) = Some p"
  shows "joining_result (foldM join_step [i, i] s) i = register_joiner j (manager_of s, js_world s)"
proof -
  let ?s = "joiner_moves i (Registering p) s"
  have "join_step i s = Some ?s" using i g by (simp add: join_step_def Let_def)
  moreover have "joining_result (join_step i ?s) i = register_joiner (js_joiners ?s ! i) (manager_of ?s, js_world ?s)"
    using ok i g by (intro join_step_registers) simp_all
  ultimately show ?thesis using i by simp
qed

lemma registerUserToGroup_creates:
  assumes "map_find (gm_groupMap m) (jn_group j) = None"
  shows "register_joiner j (m, w) = register_joiner j
    (m\<lparr>gm_groupMap := map_assign (gm_groupMap m) (jn_group j)
       (configureGroup (gm_maxMessages m) (Group (e_int (jn_env j)) (jn_group j)))\<rparr>, w)"
  using assms by (simp add: register_joiner_def registerUserToGroup_def groupExists_def)

text \<open>What a thread that found no group has when it has created one.\<close>

lemma creates_group:
  assumes ok: "heap_ok s" and i: "i < length (js_joiners s)" "js_joiners s ! i = j" "jn_at j = Missing"
  shows "\<exists>t. foldM join_step [i, i] s = Some t \<and> heap_ok t \<and> js_world t = js_world s \<and> js_limit t = js_limit s \<and>
    js_map t = map_assign (js_map s) (jn_group j) (length (js_heap s)) \<and>
    js_joiners t = (js_joiners s)[i := j\<lparr>jn_at := Fetching\<rparr>] \<and>
    gm_groupMap (manager_of t) = map_assign (gm_groupMap (manager_of s)) (jn_group j)
      (configureGroup (js_limit s) (Group (e_int (jn_env j)) (jn_group j)))"
proof -
  let ?k = "jn_group j" and ?p = "length (js_heap s)"
  let ?g = "Group (e_int (jn_env j)) ?k"
  let ?u = "joiner_moves i Created (s\<lparr>js_heap := js_heap s @ [?g], js_map := map_assign (js_map s) ?k ?p\<rparr>)"
  let ?t = "joiner_moves i Fetching (?u\<lparr>js_heap := (js_heap ?u)[?p := configureGroup (js_limit s) ?g]\<rparr>)"
  have u: "join_step i s = Some ?u" using i by (simp add: join_step_def Let_def)
  have t: "join_step i ?u = Some ?t" using i by (simp add: join_step_def Let_def joiner_moves_def)
  have ok': "heap_ok ?u" "heap_ok ?t" using heap_ok_step [OF ok u] heap_ok_step [OF _ t] by simp_all
  have "gm_groupMap (manager_of ?t) =
      map_assign (gm_groupMap (manager_of s)) ?k (configureGroup (js_limit s) ?g)"
  proof (rule map_ext)
    show "map_wf (gm_groupMap (manager_of ?t))" by (rule manager_of_wf [OF ok'(2)])
    show "map_wf (map_assign (gm_groupMap (manager_of s)) ?k (configureGroup (js_limit s) ?g))"
      using manager_of_wf [OF ok] by simp
    show "map_find (gm_groupMap (manager_of ?t)) l =
        map_find (map_assign (gm_groupMap (manager_of s)) ?k (configureGroup (js_limit s) ?g)) l" for l
      using ok by (cases "map_find (js_map s) l") (auto simp: manager_of_find heap_ok_def nth_append nth_list_update)
  qed
  then show ?thesis using u t ok' i by (intro exI [of _ ?t]) (simp add: joiner_moves_def)
qed

lemma alone_missing:
  assumes ok: "heap_ok s" and i: "i < length (js_joiners s)" "js_joiners s ! i = j" "jn_at j = Missing"
    and "map_find (js_map s) (jn_group j) = None"
  shows "joining_result (foldM join_step [i, i, i, i] s) i = register_joiner j (manager_of s, js_world s)"
proof -
  obtain t where t: "foldM join_step [i, i] s = Some t" "heap_ok t" "js_world t = js_world s" "js_limit t = js_limit s"
      "js_map t = map_assign (js_map s) (jn_group j) (length (js_heap s))"
      "js_joiners t = (js_joiners s)[i := j\<lparr>jn_at := Fetching\<rparr>]"
      "gm_groupMap (manager_of t) = map_assign (gm_groupMap (manager_of s)) (jn_group j)
        (configureGroup (js_limit s) (Group (e_int (jn_env j)) (jn_group j)))"
    using creates_group [OF ok i] by blast
  have "foldM join_step ([i, i] @ [i, i]) s = foldM join_step [i, i] t"
    by (simp only: foldM_append t(1) bind.simps)
  then have "foldM join_step [i, i, i, i] s = foldM join_step [i, i] t" by simp
  moreover have "joining_result (foldM join_step [i, i] t) i = register_joiner (j\<lparr>jn_at := Fetching\<rparr>) (manager_of t, js_world t)"
    using t i by (intro alone_existing) simp_all
  moreover have "manager_of t = (manager_of s)\<lparr>gm_groupMap := map_assign (gm_groupMap (manager_of s)) (jn_group j)
        (configureGroup (js_limit s) (Group (e_int (jn_env j)) (jn_group j)))\<rparr>"
    using t(4,7) by (simp add: manager_of_def)
  moreover have "map_find (gm_groupMap (manager_of s)) (jn_group j) = None"
    using assms(5) by (simp add: manager_of_find)
  ultimately show ?thesis
    using registerUserToGroup_creates [of "manager_of s" j "js_world s"] t(3) by (simp add: manager_of_def)
qed

text \<open>A thread that is not interrupted does what \<open>registerUserToGroup\<close> does.\<close>

lemma join_alone:
  assumes ok: "heap_ok s" and i: "i < length (js_joiners s)" "js_joiners s ! i = j" "jn_at j = Looking"
  shows "joining_result (foldM join_step (if map_find (js_map s) (jn_group j) = None then [i, i, i, i, i] else [i, i, i]) s) i =
    register_joiner j (manager_of s, js_world s)"
proof (cases "map_find (js_map s) (jn_group j)")
  case None
  let ?s = "joiner_moves i Missing s"
  have "join_step i s = Some ?s" using i None by (simp add: join_step_def Let_def)
  moreover have "joining_result (foldM join_step [i, i, i, i] ?s) i = register_joiner (j\<lparr>jn_at := Missing\<rparr>) (manager_of ?s, js_world ?s)"
    using ok i None by (intro alone_missing) simp_all
  ultimately show ?thesis using None by simp
next
  case (Some p)
  let ?s = "joiner_moves i Fetching s"
  have "join_step i s = Some ?s" using i Some by (simp add: join_step_def Let_def)
  moreover have "joining_result (foldM join_step [i, i] ?s) i = register_joiner (j\<lparr>jn_at := Fetching\<rparr>) (manager_of ?s, js_world ?s)"
    using ok i Some by (intro alone_existing [where p = p]) simp_all
  ultimately show ?thesis using Some by simp
qed

subsection \<open>Any number of threads, groups that exist\<close>

text \<open>
  When the groups exist the order in which the sessions are registered says what the outcome is:
  every schedule has the effect of the atomic operations in this order.
\<close>

definition join_atomically :: "joiner \<Rightarrow> manager \<times> world \<Rightarrow> (manager \<times> world) option" where
  "join_atomically j st = map_option snd (register_joiner j st)"

definition joiner_line :: "(string, nat) cmap \<Rightarrow> joiner \<Rightarrow> joiner \<Rightarrow> bool" where
  "joiner_line m j0 j \<longleftrightarrow> map_find m (jn_group j) \<noteq> None \<and> register_joiner j = register_joiner j0 \<and>
     jn_group j = jn_group j0 \<and>
     (case jn_at j of
        Missing \<Rightarrow> False
      | Created \<Rightarrow> False
      | Registering p \<Rightarrow> map_find m (jn_group j) = Some p
      | _ \<Rightarrow> True)"

lemma joiner_line_moves:
  "joiner_line m j0 j \<Longrightarrow> pc \<in> {Looking, Fetching} \<union> range Joined \<or>
     (\<exists>p. pc = Registering p \<and> map_find m (jn_group j) = Some p) \<Longrightarrow> joiner_line m j0 (j\<lparr>jn_at := pc\<rparr>)"
  by (auto simp: joiner_line_def)

definition join_line :: "join_state \<Rightarrow> join_state \<Rightarrow> bool" where
  "join_line s0 s \<longleftrightarrow> heap_ok s \<and> js_map s = js_map s0 \<and> length (js_joiners s) = length (js_joiners s0) \<and>
     (\<forall>i<length (js_joiners s). joiner_line (js_map s) (js_joiners s0 ! i) (js_joiners s ! i)) \<and>
     distinct (js_log s) \<and>
     set (js_log s) = {i. i < length (js_joiners s) \<and> (\<exists>r. jn_at (js_joiners s ! i) = Joined r)} \<and>
     foldM join_atomically (map ((!) (js_joiners s0)) (js_log s)) (manager_of s0, js_world s0) =
       Some (manager_of s, js_world s)"

lemma join_line_start:
  assumes "heap_ok s" and "js_log s = []"
    and "\<forall>j\<in>set (js_joiners s). jn_at j = Looking \<and> map_find (js_map s) (jn_group j) \<noteq> None"
  shows "join_line s s"
  using assms by (auto simp: join_line_def joiner_line_def nth_mem)

lemma join_line_moves:
  assumes line: "join_line s0 s" and i: "i < length (js_joiners s)" and "\<forall>r. jn_at (js_joiners s ! i) \<noteq> Joined r"
    and "pc = Fetching \<or> (\<exists>p. pc = Registering p \<and> map_find (js_map s) (jn_group (js_joiners s ! i)) = Some p)"
  shows "join_line s0 (joiner_moves i pc s)"
proof -
  let ?t = "joiner_moves i pc s"
  have "(\<exists>r. jn_at (js_joiners ?t ! j) = Joined r) \<longleftrightarrow> (\<exists>r. jn_at (js_joiners s ! j) = Joined r)"
    if "j < length (js_joiners s)" for j
    using assms(3,4) i by (cases "j = i") auto
  then have set: "{j. j < length (js_joiners s) \<and> (\<exists>r. jn_at (js_joiners ?t ! j) = Joined r)} =
      {j. j < length (js_joiners s) \<and> (\<exists>r. jn_at (js_joiners s ! j) = Joined r)}" by blast
  have "joiner_line (js_map s) (js_joiners s0 ! j) (js_joiners ?t ! j)" if "j < length (js_joiners s)" for j
    using line that i assms(4) joiner_line_moves [of "js_map s" "js_joiners s0 ! i" "js_joiners s ! i" pc]
    by (cases "j = i") (auto simp: join_line_def)
  then show ?thesis using line set unfolding join_line_def by auto
qed

lemma join_line_step:
  assumes line: "join_line s0 s" and step: "join_step i s = Some t"
  shows "join_line s0 t"
proof -
  let ?j = "js_joiners s ! i"
  note parts = line [unfolded join_line_def]
  have i: "i < length (js_joiners s)" using step by (auto simp: join_step_def split: if_splits)
  have line_i: "joiner_line (js_map s) (js_joiners s0 ! i) ?j" using parts i by blast
  then obtain q where q: "map_find (js_map s) (jn_group ?j) = Some q" by (auto simp: joiner_line_def)
  show ?thesis
  proof (cases "jn_at ?j")
    case Looking
    then have "t = joiner_moves i Fetching s" using step i q by (simp add: join_step_def Let_def)
    then show ?thesis using join_line_moves [OF line i] Looking by simp
  next
    case Fetching
    then have "t = joiner_moves i (Registering q) s" using step i q by (simp add: join_step_def Let_def)
    then show ?thesis using join_line_moves [OF line i] Fetching q by simp
  next
    case (Registering p)
    then have p: "map_find (js_map s) (jn_group ?j) = Some p" using line_i by (auto simp: joiner_line_def)
    obtain result g w where r: "registerNewSession (jn_env ?j) (fst (jn_session ?j)) (snd (jn_session ?j)) (jn_user ?j)
        (js_heap s ! p, js_world s) = Some (result, g, w)"
      using step i Registering by (auto simp: join_step_def Let_def bind_iff)
    let ?u = "s\<lparr>js_heap := (js_heap s)[p := g], js_world := w, js_log := js_log s @ [i]\<rparr>"
    have t: "t = joiner_moves i (Joined result) ?u" using step i Registering r by (simp add: join_step_def Let_def)
    have "register_joiner ?j (manager_of s, js_world s) = joining_result (Some t) i"
      using join_step_registers [OF _ i refl Registering p] parts step by simp
    then have "register_joiner (js_joiners s0 ! i) (manager_of s, js_world s) = Some (result, manager_of t, js_world t)"
      using i line_i t by (simp add: joining_result_def joiner_line_def)
    then have "join_atomically (js_joiners s0 ! i) (manager_of s, js_world s) = Some (manager_of t, js_world t)"
      by (simp add: join_atomically_def)
    then have run: "foldM join_atomically (map ((!) (js_joiners s0)) (js_log t)) (manager_of s0, js_world s0) =
        Some (manager_of t, js_world t)"
      using parts t by (simp add: foldM_append)
    have "js_joiners t ! j = (if j = i then ?j\<lparr>jn_at := Joined result\<rparr> else js_joiners s ! j)"
      if "j < length (js_joiners s)" for j
      using t that by (simp add: joiner_moves_def nth_list_update)
    moreover have "joiner_line (js_map s) (js_joiners s0 ! i) (?j\<lparr>jn_at := Joined result\<rparr>)"
      using line_i by (intro joiner_line_moves) auto
    moreover have "i \<notin> set (js_log s)" using parts Registering by simp
    moreover have "heap_ok t" using heap_ok_step [OF _ step] parts by simp
    moreover have "js_map t = js_map s" "length (js_joiners t) = length (js_joiners s)" "js_log t = js_log s @ [i]"
      using t by simp_all
    ultimately show ?thesis using run parts i unfolding join_line_def by auto
  next
    case Missing
    then show ?thesis using line_i by (simp add: joiner_line_def)
  next
    case Created
    then show ?thesis using line_i by (simp add: joiner_line_def)
  next
    case (Joined r)
    then show ?thesis using step i by (simp add: join_step_def Let_def)
  qed
qed

interpretation joins: event_machine join_step "\<lambda>_. True" "join_line s0" for s0
  by unfold_locales (rule join_line_step)

subsection \<open>A group that does not exist\<close>

text \<open>
  Two threads look for the same missing group before either has stored it. The first creates it and
  registers its session; the second creates it again, and the table then points to a group
  without the first session, as if the first thread had only sent its packets.
\<close>

definition race :: "nat \<Rightarrow> nat \<Rightarrow> nat list" where
  "race i j = [i, j] @ [i, i, i, i] @ [j, j, j, j]"

lemma join_step_others:
  assumes "join_step i s = Some t"
  shows "length (js_joiners t) = length (js_joiners s) \<and> (\<forall>j. j \<noteq> i \<longrightarrow> js_joiners t ! j = js_joiners s ! j)"
proof -
  have "i < length (js_joiners s)" using assms by (auto simp: join_step_def split: if_splits)
  then show ?thesis
    using assms by (cases "jn_at (js_joiners s ! i)") (auto simp: join_step_def Let_def bind_iff)
qed

lemma join_step_next:
  assumes "join_step i s = Some t"
  shows "i < length (js_joiners s) \<and> (case jn_at (js_joiners s ! i) of
     Looking \<Rightarrow> jn_at (js_joiners t ! i) \<in> {Missing, Fetching}
   | Missing \<Rightarrow> jn_at (js_joiners t ! i) = Created
   | Created \<Rightarrow> jn_at (js_joiners t ! i) = Fetching
   | Fetching \<Rightarrow> jn_at (js_joiners t ! i) \<in> range Registering
   | Registering p \<Rightarrow> jn_at (js_joiners t ! i) \<in> range Joined
   | Joined r \<Rightarrow> False)"
proof -
  have "i < length (js_joiners s)" using assms by (auto simp: join_step_def split: if_splits)
  then show ?thesis
    using assms by (cases "jn_at (js_joiners s ! i)") (auto simp: join_step_def Let_def bind_iff split: if_splits)
qed

lemma four_steps_join:
  assumes "foldM join_step [i, i, i, i] s = Some t" and "jn_at (js_joiners s ! i) = Missing"
  shows "jn_at (js_joiners t ! i) \<in> range Joined"
proof -
  obtain a b c where steps: "join_step i s = Some a" "join_step i a = Some b" "join_step i b = Some c" "join_step i c = Some t"
    using assms(1) by (auto simp: bind_iff)
  have "jn_at (js_joiners a ! i) = Created" using join_step_next [OF steps(1)] assms(2) by simp
  then have "jn_at (js_joiners b ! i) = Fetching" using join_step_next [OF steps(2)] by simp
  then have "jn_at (js_joiners c ! i) \<in> range Registering" using join_step_next [OF steps(3)] by simp
  then show ?thesis using join_step_next [OF steps(4)] by auto
qed

lemma join_steps_others:
  assumes "foldM join_step is s = Some t" and "j \<notin> set is" and "heap_ok s"
  shows "length (js_joiners t) = length (js_joiners s) \<and> js_joiners t ! j = js_joiners s ! j \<and> heap_ok t"
  using assms
proof (induction "is" arbitrary: s)
  case Nil
  then show ?case by simp
next
  case (Cons i "is")
  then obtain u where u: "join_step i s = Some u" "foldM join_step is u = Some t" by (auto simp: bind_iff)
  show ?case using Cons.IH [OF u(2)] heap_ok_step [OF _ u(1)] join_step_others [OF u(1)] Cons.prems by auto
qed

definition with_new_group :: "joiner \<Rightarrow> manager \<Rightarrow> manager" where
  "with_new_group j m = m\<lparr>gm_groupMap := map_assign (gm_groupMap m) (jn_group j)
     (configureGroup (gm_maxMessages m) (Group (e_int (jn_env j)) (jn_group j)))\<rparr>"

text \<open>A thread that has seen no group creates one whether or not there is one by now.\<close>

lemma alone_creates:
  assumes ok: "heap_ok s" and i: "i < length (js_joiners s)" "js_joiners s ! i = j" "jn_at j = Missing"
  shows "joining_result (foldM join_step [i, i, i, i] s) i = register_joiner j (with_new_group j (manager_of s), js_world s)"
proof -
  obtain t where t: "foldM join_step [i, i] s = Some t" "heap_ok t" "js_world t = js_world s" "js_limit t = js_limit s"
      "js_map t = map_assign (js_map s) (jn_group j) (length (js_heap s))"
      "js_joiners t = (js_joiners s)[i := j\<lparr>jn_at := Fetching\<rparr>]"
      "gm_groupMap (manager_of t) = map_assign (gm_groupMap (manager_of s)) (jn_group j)
        (configureGroup (js_limit s) (Group (e_int (jn_env j)) (jn_group j)))"
    using creates_group [OF ok i] by blast
  have "foldM join_step ([i, i] @ [i, i]) s = foldM join_step [i, i] t"
    by (simp only: foldM_append t(1) bind.simps)
  then have "foldM join_step [i, i, i, i] s = foldM join_step [i, i] t" by simp
  moreover have "joining_result (foldM join_step [i, i] t) i = register_joiner (j\<lparr>jn_at := Fetching\<rparr>) (manager_of t, js_world t)"
    using t i by (intro alone_existing) simp_all
  moreover have "manager_of t = with_new_group j (manager_of s)"
    using t(4,7) by (simp add: manager_of_def with_new_group_def)
  ultimately show ?thesis using t(3) by simp
qed

lemma map_assign_again [simp]: "map_assign (map_assign m k a) k b = map_assign m k b"
  by (induction m k a rule: map_assign.induct) auto

lemma with_new_group_again:
  assumes "register_joiner i (m, w) = Some (r, m', w')" and "jn_group j = jn_group i"
    and "map_find (gm_groupMap m) (jn_group i) = None" and "map_wf (gm_groupMap m)"
  shows "with_new_group j m' = with_new_group j m"
  using assms
  by (auto simp: register_joiner_def registerUserToGroup_def groupExists_def bind_iff with_new_group_def)

lemma race_loses_first:
  assumes ok: "heap_ok s" and ij: "i < length (js_joiners s)" "j < length (js_joiners s)" "i \<noteq> j"
    and at: "jn_at (js_joiners s ! i) = Looking" "jn_at (js_joiners s ! j) = Looking"
    and grp: "jn_group (js_joiners s ! i) = jn_group (js_joiners s ! j)"
    and none: "map_find (js_map s) (jn_group (js_joiners s ! j)) = None"
  shows "joining_result (foldM join_step (race i j) s) j = do {
    (result, m, w) \<leftarrow> register_joiner (js_joiners s ! i) (manager_of s, js_world s);
    register_joiner (js_joiners s ! j) (manager_of s, w) }"
proof -
  let ?u = "joiner_moves i Missing s"
  let ?s = "joiner_moves j Missing ?u"
  let ?i = "js_joiners s ! i" and ?j = "js_joiners s ! j"
  have "join_step i s = Some ?u" "join_step j ?u = Some ?s"
    using ij at grp none by (simp_all add: join_step_def Let_def)
  then have both: "foldM join_step [i, j] s = Some ?s" by simp
  have run: "foldM join_step (race i j) s = Option.bind (foldM join_step [i, i, i, i] ?s) (foldM join_step [j, j, j, j])"
    unfolding race_def foldM_append both bind.simps ..
  have mi: "register_joiner ?i (manager_of s, js_world s) = register_joiner ?i (with_new_group ?i (manager_of s), js_world s)"
    unfolding with_new_group_def by (rule registerUserToGroup_creates) (simp add: manager_of_find none grp)
  have mj: "register_joiner ?j (manager_of s, w) = register_joiner ?j (with_new_group ?j (manager_of s), w)" for w
    unfolding with_new_group_def by (rule registerUserToGroup_creates) (simp add: manager_of_find none)
  have first: "joining_result (foldM join_step [i, i, i, i] ?s) i = register_joiner ?i (manager_of s, js_world s)"
    using alone_creates [of ?s i "?i\<lparr>jn_at := Missing\<rparr>"] ok ij mi by (simp add: with_new_group_def)
  show ?thesis
  proof (cases "foldM join_step [i, i, i, i] ?s")
    case None
    then show ?thesis using first run by (simp add: joining_result_def)
  next
    case (Some t)
    have t: "length (js_joiners t) = length (js_joiners s)" "js_joiners t ! j = ?j\<lparr>jn_at := Missing\<rparr>" "heap_ok t"
      using join_steps_others [OF Some, of j] ij ok by simp_all
    have second: "joining_result (foldM join_step [j, j, j, j] t) j =
        register_joiner ?j (with_new_group ?j (manager_of t), js_world t)"
      using alone_creates [OF t(3), of j "?j\<lparr>jn_at := Missing\<rparr>"] t ij by (simp add: with_new_group_def)
    obtain r where "jn_at (js_joiners t ! i) = Joined r"
      using four_steps_join [OF Some] ij by auto
    then have joined: "register_joiner ?i (manager_of s, js_world s) = Some (r, manager_of t, js_world t)"
      using first unfolding Some by (simp add: joining_result_def)
    have "with_new_group ?j (manager_of t) = with_new_group ?j (manager_of s)"
      using with_new_group_again [OF joined grp [symmetric]] none grp manager_of_wf [OF ok] by (simp add: manager_of_find)
    then have "joining_result (foldM join_step [j, j, j, j] t) j = register_joiner ?j (manager_of s, js_world t)"
      using second mj by simp
    then show ?thesis unfolding run Some joined by (simp only: bind.simps prod.case)
  qed
qed

text \<open>A registration with a group that does not exist makes a group with this session alone.\<close>

lemma new_group_members:
  assumes none: "map_find (gm_groupMap m) (jn_group j) = None" and reg: "register_joiner j (m, w) = Some (r, m', w')"
  shows "\<exists>g. map_find (gm_groupMap m') (jn_group j) = Some g \<and> conns g = [jn_session j]"
proof -
  let ?g = "configureGroup (gm_maxMessages m) (Group (e_int (jn_env j)) (jn_group j))"
  obtain g' where nr: "registerNewSession (jn_env j) (fst (jn_session j)) (snd (jn_session j)) (jn_user j) (?g, w) = Some (r, g', w')"
    and m': "m' = m\<lparr>gm_groupMap := map_assign (map_assign (gm_groupMap m) (jn_group j) ?g) (jn_group j) g'\<rparr>"
    using reg none by (auto simp: register_joiner_def registerUserToGroup_def groupExists_def bind_iff)
  have "g_users ?g = []" "group_ok ?g" by (simp_all add: configureGroup_def Group_def group_ok_def)
  then have "g_users g' = add_session (jn_user j) (jn_session j) []"
    using registerNewSession_users [OF nr] by (simp add: MAX_NUMBER_OF_SIMULTANEOUS_CONNECTIONS_def)
  then have "conns g' = [jn_session j]" by (simp add: conns_users add_session_def)
  then show ?thesis using m' by simp
qed

end
