(* ===== verification/Close_Race.thy ===== *)
theory Close_Race
  imports Membership
begin

section \<open>A front end closed by two threads\<close>

text \<open>
  \<open>Server::closeFrontEndConnection\<close> is called by the listening thread of a front end when its
  connection ends and by its monitoring thread when it times out, and the test of the list of addresses
  is in a critical section of its own: both threads can pass it. Here the four parts of the
  function are steps: the test, the disconnection of the sessions, \<open>close\<close> of the socket
  found in the address book, and the purge of the address. Each runs under its semaphore and is
  atomic. A schedule is the list of the threads that move.
\<close>

datatype closing = Checking | Leaving | Closing | Purging | Gone

record closer =
  cr_address :: string
  cr_sent :: string  \<comment> \<open>\<open>FE_DISCONNECT\<close> as it is read when the event is built\<close>
  cr_compared :: string
  cr_now :: timestamp
  cr_at :: closing

record close_state =
  cs_server :: server
  cs_closers :: "closer list"

definition closer_moves :: "nat \<Rightarrow> closing \<Rightarrow> server \<Rightarrow> close_state \<Rightarrow> close_state" where
  "closer_moves i pc S s =
     s\<lparr>cs_server := S, cs_closers := (cs_closers s)[i := (cs_closers s ! i)\<lparr>cr_at := pc\<rparr>]\<rparr>"

definition close_step :: "nat \<Rightarrow> close_state \<Rightarrow> close_state option" where
  "close_step i s =
     (if i < length (cs_closers s) then
        (let c = cs_closers s ! i; S = cs_server s; feAddress = cr_address c in
         case cr_at c of
           Checking \<Rightarrow>
             Some (closer_moves i (if feAddress \<in> set (s_feAddresses S) then Leaving else Gone) S s)
         | Leaving \<Rightarrow>
             map_option (\<lambda>S. closer_moves i Closing S s)
               (closeClientConnection (cr_compared c) (cr_now c) (cr_sent c, feAddress) S)
         | Closing \<Rightarrow>
             (let (socketId, w) = getSocketFromAddress feAddress (s_world S)
              in Some (closer_moves i Purging (S\<lparr>s_world := w, s_closed := s_closed S @ [socketId]\<rparr>) s))
         | Purging \<Rightarrow> map_option (\<lambda>S. closer_moves i Gone S s) (purgeFeConnection feAddress S)
         | Gone \<Rightarrow> None)
      else None)"

lemma closer_moves_simps [simp]:
  "cs_server (closer_moves i pc S s) = S" "length (cs_closers (closer_moves i pc S s)) = length (cs_closers s)"
  "i < length (cs_closers s) \<Longrightarrow> cs_closers (closer_moves i pc S s) ! i = (cs_closers s ! i)\<lparr>cr_at := pc\<rparr>"
  "j \<noteq> i \<Longrightarrow> cs_closers (closer_moves i pc S s) ! j = cs_closers s ! j"
  by (simp_all add: closer_moves_def)

lemma close_step_bound: "close_step i s = Some t \<Longrightarrow> i < length (cs_closers s)"
  by (auto simp: close_step_def split: if_splits)

subsection \<open>One thread alone\<close>

lemma close_alone_known:
  assumes i: "i < length (cs_closers s)" "cs_closers s ! i = c" "cr_at c = Checking"
    and known: "cr_address c \<in> set (s_feAddresses (cs_server s))"
  shows "map_option cs_server (foldM close_step [i, i, i, i] s) =
    closeFrontEndConnection (cr_sent c) (cr_compared c) (cr_now c) (cr_address c) (cs_server s)"
proof -
  have *: "map_option cs_server (foldM close_step [i, i] u) =
      Option.bind (Some (getSocketFromAddress (cr_address c) (s_world (cs_server u))))
        (\<lambda>(socketId, w). purgeFeConnection (cr_address c)
          ((cs_server u)\<lparr>s_world := w, s_closed := s_closed (cs_server u) @ [socketId]\<rparr>))"
    if "i < length (cs_closers u)" "cs_closers u ! i = c\<lparr>cr_at := Closing\<rparr>" for u
    using that by (simp add: close_step_def Let_def case_prod_beta option.map_comp comp_def option.map_ident)
  have two: "foldM close_step [i, i] s =
      map_option (\<lambda>S. closer_moves i Closing S (closer_moves i Leaving (cs_server s) s))
        (closeClientConnection (cr_compared c) (cr_now c) (cr_sent c, cr_address c) (cs_server s))"
    using i known by (simp add: close_step_def Let_def)
  have "foldM close_step ([i, i] @ [i, i]) s =
      Option.bind (map_option (\<lambda>S. closer_moves i Closing S (closer_moves i Leaving (cs_server s) s))
        (closeClientConnection (cr_compared c) (cr_now c) (cr_sent c, cr_address c) (cs_server s)))
        (foldM close_step [i, i])"
    unfolding foldM_append two ..
  then have "map_option cs_server (foldM close_step [i, i, i, i] s) =
      Option.bind (closeClientConnection (cr_compared c) (cr_now c) (cr_sent c, cr_address c) (cs_server s))
        (\<lambda>S. map_option cs_server (foldM close_step [i, i] (closer_moves i Closing S (closer_moves i Leaving (cs_server s) s))))"
    by (cases "closeClientConnection (cr_compared c) (cr_now c) (cr_sent c, cr_address c) (cs_server s)") simp_all
  then show ?thesis
    using i known by (simp only: closeFrontEndConnection_def) (simp add: * case_prod_beta Let_def del: foldM.simps)
qed

subsection \<open>Any number of threads\<close>

text \<open>
  The sessions are removed once, whatever the threads do: the table is that of the losses one
  after the other. The stages a thread has passed say what has been done by now.
\<close>

definition past :: "closing set \<Rightarrow> string \<Rightarrow> closer list \<Rightarrow> bool" where
  "past pcs a cs \<longleftrightarrow> (\<exists>c\<in>set cs. cr_address c = a \<and> cr_at c \<in> pcs)"

definition closer_line :: "string set \<Rightarrow> closer \<Rightarrow> closer \<Rightarrow> bool" where
  "closer_line F c0 c \<longleftrightarrow> cr_address c = cr_address c0 \<and> cr_sent c = cr_compared c \<and> cr_sent c \<noteq> cr_address c \<and>
     (cr_at c \<in> {Leaving, Closing, Purging} \<longrightarrow> cr_address c \<in> F)"

definition close_inv :: "close_state \<Rightarrow> close_state \<Rightarrow> bool" where
  "close_inv s0 s \<longleftrightarrow> (let T0 = table_of (cs_server s0); F = t_front_ends T0 in
     table_ok (cs_server s) \<and> list_all2 (closer_line F) (cs_closers s0) (cs_closers s) \<and>
     t_front_ends (table_of (cs_server s)) = {a \<in> F. \<not> past {Gone} a (cs_closers s)} \<and>
     t_members (table_of (cs_server s)) =
       filter_mset (\<lambda>m. \<not> (snd (snd (snd m)) \<in> F \<and> past {Closing, Purging, Gone} (snd (snd (snd m))) (cs_closers s)))
         (t_members T0))"

definition others :: "nat \<Rightarrow> closing set \<Rightarrow> string \<Rightarrow> closer list \<Rightarrow> bool" where
  "others i pcs a cs \<longleftrightarrow> (\<exists>j<length cs. j \<noteq> i \<and> cr_address (cs ! j) = a \<and> cr_at (cs ! j) \<in> pcs)"

lemma past_moves:
  assumes "i < length cs"
  shows "past pcs a (cs[i := (cs ! i)\<lparr>cr_at := pc\<rparr>]) \<longleftrightarrow>
    (cr_address (cs ! i) = a \<and> pc \<in> pcs) \<or> others i pcs a cs"
proof -
  have "set (cs[i := x]) = insert x {cs ! j | j. j < length cs \<and> j \<noteq> i}" for x
    using assms by (auto simp: set_conv_nth nth_list_update)
  then show ?thesis by (auto simp: past_def others_def)
qed

lemma past_nth:
  assumes "i < length cs"
  shows "past pcs a cs \<longleftrightarrow> (cr_address (cs ! i) = a \<and> cr_at (cs ! i) \<in> pcs) \<or> others i pcs a cs"
  using past_moves [OF assms, of pcs a "cr_at (cs ! i)"] assms by simp

lemma close_inv_start:
  assumes "table_ok (cs_server s)"
    and "\<forall>c\<in>set (cs_closers s). cr_at c = Checking \<and> cr_sent c = cr_compared c \<and> cr_sent c \<noteq> cr_address c"
  shows "close_inv s s"
proof -
  have "\<not> past pcs a (cs_closers s)" if "Checking \<notin> pcs" for pcs a
    using assms(2) that by (auto simp: past_def)
  then have "\<not> past {Gone} a (cs_closers s)" "\<not> past {Closing, Purging, Gone} a (cs_closers s)" for a
    by simp_all
  moreover have "list_all2 (closer_line (t_front_ends (table_of (cs_server s)))) (cs_closers s) (cs_closers s)"
    using assms(2) by (auto simp: closer_line_def list_all2_same)
  ultimately show ?thesis using assms(1) by (simp add: close_inv_def)
qed

lemma closer_line_moves:
  assumes "list_all2 (closer_line F) cs0 cs" and "i < length cs"
    and "pc \<in> {Leaving, Closing, Purging} \<longrightarrow> cr_address (cs ! i) \<in> F"
  shows "list_all2 (closer_line F) cs0 (cs[i := (cs ! i)\<lparr>cr_at := pc\<rparr>])"
proof -
  have "closer_line F (cs0 ! i) (cs ! i)" using assms(1,2) by (simp add: list_all2_conv_all_nth)
  then have "closer_line F (cs0 ! i) ((cs ! i)\<lparr>cr_at := pc\<rparr>)" using assms(3) by (auto simp: closer_line_def)
  then show ?thesis using list_all2_update_cong [OF assms(1), of "cs0 ! i" _ i] by simp
qed

lemma table_ok_filtered:
  assumes "server_ok S" and "table_ok S0" and "t_members (table_of S) = filter_mset P (t_members (table_of S0))"
  shows "table_ok S"
  using assms own_identifiers_filter by (simp add: table_ok_def)

lemma close_inv_step:
  assumes inv: "close_inv s0 s" and step: "close_step i s = Some t"
  shows "close_inv s0 t"
proof -
  let ?c = "cs_closers s ! i" and ?S = "cs_server s" and ?F = "t_front_ends (table_of (cs_server s0))"
  let ?a = "cr_address ?c"
  have i: "i < length (cs_closers s)" by (rule close_step_bound [OF step])
  note parts = inv [unfolded close_inv_def Let_def]
  have ok: "table_ok ?S" and lines: "list_all2 (closer_line ?F) (cs_closers s0) (cs_closers s)" using parts by auto
  have line: "closer_line ?F (cs_closers s0 ! i) ?c" using lines i by (auto simp: list_all2_conv_all_nth)
  have cs: "cs_closers (closer_moves i pc S s) = (cs_closers s)[i := ?c\<lparr>cr_at := pc\<rparr>]" for pc S
    by (simp add: closer_moves_def)
  let ?M0 = "t_members (table_of (cs_server s0))" and ?of = "\<lambda>m :: member. snd (snd (snd m))"
  define gone left where "gone a = others i {Gone} a (cs_closers s)"
    and "left a = others i {Closing, Purging, Gone} a (cs_closers s)" for a
  have gone: "gone a \<Longrightarrow> left a" for a by (auto simp: gone_def left_def others_def)
  have F: "a \<in> set (s_feAddresses ?S) \<longleftrightarrow> a \<in> ?F \<and> \<not> (?a = a \<and> cr_at ?c = Gone) \<and> \<not> gone a" for a
    using parts by (auto simp: table_of_def past_nth [OF i] gone_def)
  have M: "t_members (table_of ?S) = filter_mset (\<lambda>m. \<not> (?of m \<in> ?F \<and>
      (?a = ?of m \<and> cr_at ?c \<in> {Closing, Purging, Gone} \<or> left (?of m)))) ?M0"
    using parts by (simp add: past_nth [OF i] left_def)
  have moves: "close_inv s0 (closer_moves i pc S s)"
    if "table_ok S" "pc \<in> {Leaving, Closing, Purging} \<longrightarrow> ?a \<in> ?F"
      "\<And>a. a \<in> set (s_feAddresses S) \<longleftrightarrow> a \<in> ?F \<and> \<not> (?a = a \<and> pc = Gone) \<and> \<not> gone a"
      "t_members (table_of S) = filter_mset (\<lambda>m. \<not> (?of m \<in> ?F \<and>
        (?a = ?of m \<and> pc \<in> {Closing, Purging, Gone} \<or> left (?of m)))) ?M0" for pc S
  proof -
    have "t_front_ends (table_of S) = {a \<in> ?F. \<not> past {Gone} a ((cs_closers s)[i := ?c\<lparr>cr_at := pc\<rparr>])}"
      using that(3) by (auto simp: table_of_def past_moves [OF i] gone_def)
    then show ?thesis
      using that(1,4) closer_line_moves [OF lines i that(2)]
      by (simp add: close_inv_def cs past_moves [OF i] left_def)
  qed
  show ?thesis
  proof (cases "cr_at ?c")
    case Checking
    have step': "t = closer_moves i (if ?a \<in> set (s_feAddresses ?S) then Leaving else Gone) ?S s"
      using step i Checking by (simp add: close_step_def Let_def)
    show ?thesis
    proof (cases "?a \<in> set (s_feAddresses ?S)")
      case True
      have "close_inv s0 (closer_moves i Leaving ?S s)"
        using True Checking F [of ?a] by (intro moves ok) (simp_all add: F M)
      then show ?thesis using step' True by simp
    next
      case False
      have "?a \<in> ?F \<Longrightarrow> left ?a" using False F [of ?a] gone [of ?a] Checking by simp
      then have "close_inv s0 (closer_moves i Gone ?S s)"
        using False Checking by (intro moves ok) (auto simp: F M intro!: filter_mset_cong)
      then show ?thesis using step' False by simp
    qed
  next
    case Leaving
    then obtain S where S: "closeClientConnection (cr_compared ?c) (cr_now ?c) (cr_sent ?c, ?a) ?S = Some S"
        "t = closer_moves i Closing S s"
      using step i by (auto simp: close_step_def Let_def)
    have tags: "cr_sent ?c = cr_compared ?c" "cr_sent ?c \<noteq> ?a" "?a \<in> ?F" using line Leaving by (auto simp: closer_line_def)
    note eff = closeClientConnection_members [OF ok S(1) tags(2)]
    have "t_members (table_of S) = filter_mset (\<lambda>m. ?of m \<noteq> ?a) (t_members (table_of ?S))"
      using eff tags(1) by (simp add: table_of_def stays_def)
    moreover have "server_ok S"
      using closeClientConnection_effect [OF _ S(1) tags(2)] ok by (simp add: table_ok_def)
    ultimately show ?thesis
      unfolding S(2) using Leaving tags(3) eff table_ok_filtered [OF _ ok]
      by (intro moves) (auto intro!: filter_mset_cong simp: F M filter_filter_mset)
  next
    case Closing
    obtain sock w where w: "getSocketFromAddress ?a (s_world ?S) = (sock, w)" by fastforce
    let ?S' = "?S\<lparr>s_world := w, s_closed := s_closed ?S @ [sock]\<rparr>"
    have t: "t = closer_moves i Purging ?S' s" using step i w Closing by (simp add: close_step_def Let_def)
    have "table_ok ?S' \<and> table_of ?S' = table_of ?S" by (rule table_ok_shift [OF ok]) simp_all
    moreover have "?a \<in> ?F" using line Closing by (auto simp: closer_line_def)
    ultimately show ?thesis
      unfolding t using Closing by (intro moves) (simp_all add: F M)
  next
    case Purging
    then obtain S where S: "purgeFeConnection ?a ?S = Some S" "t = closer_moves i Gone S s"
      using step i by (auto simp: close_step_def Let_def)
    note eff = purgeFeConnection_effect [OF S(1)]
    have "groups_of S = groups_of ?S" using eff by (simp add: groups_of_def)
    then have mem: "t_members (table_of S) = t_members (table_of ?S)" by (simp add: table_of_def)
    have "server_ok S" using eff ok server_ok_cong [of S ?S] by (simp add: table_ok_def)
    then have "table_ok S" using mem ok by (simp add: table_ok_def)
    then show ?thesis
      unfolding S(2) using Purging eff mem by (intro moves) (auto simp: F M)
  next
    case Gone
    then show ?thesis using step i by (simp add: close_step_def Let_def)
  qed
qed


interpretation closers: event_machine close_step "\<lambda>_. True" "close_inv s0" for s0
  by unfold_locales (rule close_inv_step)

lemma lose_front_ends:
  "fold lose_front_end fs T =
     \<lparr>t_members = filter_mset (\<lambda>m. \<not> (snd (snd (snd m)) \<in> t_front_ends T \<and> snd (snd (snd m)) \<in> set fs)) (t_members T),
      t_front_ends = t_front_ends T - set fs\<rparr>"
  by (induction fs arbitrary: T) (auto simp: lose_front_end_def filter_filter_mset intro!: filter_mset_cong)

lemma closed_by_all:
  assumes "close_inv s0 s" and "\<forall>c\<in>set (cs_closers s). cr_at c = Gone"
  shows "table_of (cs_server s) = fold lose_front_end (map cr_address (cs_closers s0)) (table_of (cs_server s0))"
proof -
  have "map cr_address (cs_closers s) = map cr_address (cs_closers s0)"
    using assms(1) by (auto simp: close_inv_def Let_def closer_line_def list_all2_conv_all_nth intro!: nth_equalityI)
  then have "past pcs a (cs_closers s) \<longleftrightarrow> a \<in> set (map cr_address (cs_closers s0))" if "Gone \<in> pcs" for pcs a
    using assms(2) that by (simp flip: \<open>map cr_address _ = _\<close>) (auto simp: past_def)
  then show ?thesis
    using assms(1) by (auto simp: close_inv_def Let_def lose_front_ends intro!: table.equality)
qed

subsection \<open>One socket closed twice\<close>

text \<open>
  When both threads pass the test before either has purged the address, the function \<open>close\<close> is called
  twice. Which descriptor the second call gets depends on the purge of the first.
\<close>

definition leaves :: "closer \<Rightarrow> server \<Rightarrow> server option" where
  "leaves c = closeClientConnection (cr_compared c) (cr_now c) (cr_sent c, cr_address c)"

lemma leaves_keeps:
  "leaves c S = Some S' \<Longrightarrow> s_world S' = s_world S \<and> s_feAddresses S' = s_feAddresses S \<and> s_closed S' = s_closed S"
  by (auto simp: leaves_def closeClientConnection_def bind_iff)

lemma close_step_stages:
  assumes "i < length (cs_closers s)"
  shows "cr_at (cs_closers s ! i) = Checking \<Longrightarrow> cr_address (cs_closers s ! i) \<in> set (s_feAddresses (cs_server s)) \<Longrightarrow>
      close_step i s = Some (closer_moves i Leaving (cs_server s) s)"
    and "cr_at (cs_closers s ! i) = Leaving \<Longrightarrow> close_step i s =
      map_option (\<lambda>S. closer_moves i Closing S s) (leaves (cs_closers s ! i) (cs_server s))"
    and "cr_at (cs_closers s ! i) = Closing \<Longrightarrow> close_step i s = Some (closer_moves i Purging
      ((cs_server s)\<lparr>s_world := snd (getSocketFromAddress (cr_address (cs_closers s ! i)) (s_world (cs_server s))),
         s_closed := s_closed (cs_server s) @ [socket_of (w_book (s_world (cs_server s))) (cr_address (cs_closers s ! i))]\<rparr>) s)"
    and "cr_at (cs_closers s ! i) = Purging \<Longrightarrow> close_step i s =
      map_option (\<lambda>S. closer_moves i Gone S s) (purgeFeConnection (cr_address (cs_closers s ! i)) (cs_server s))"
  using assms getSocketFromAddress_char [of "cr_address (cs_closers s ! i)" "s_world (cs_server s)"]
  by (auto simp: close_step_def Let_def leaves_def)

lemma closes_same_socket_twice:
  assumes ij: "i < length (cs_closers s)" "j < length (cs_closers s)" "i \<noteq> j"
    and at: "cr_at (cs_closers s ! i) = Closing" "cr_at (cs_closers s ! j) = Closing"
    and same: "cr_address (cs_closers s ! i) = cr_address (cs_closers s ! j)"
    and run: "foldM close_step [i, j] s = Some t"
  shows "s_closed (cs_server t) = s_closed (cs_server s) @
    replicate 2 (socket_of (w_book (s_world (cs_server s))) (cr_address (cs_closers s ! j)))"
  using run ij at same getSocketFromAddress_char [of "cr_address (cs_closers s ! j)" "s_world (cs_server s)"]
  by (auto simp: close_step_stages numeral_2_eq_2 sends_only_def)

lemma closes_descriptor_0:
  assumes ij: "i < length (cs_closers s)" "j < length (cs_closers s)" "i \<noteq> j"
    and at: "cr_at (cs_closers s ! i) = Closing" "cr_at (cs_closers s ! j) = Closing"
    and same: "cr_address (cs_closers s ! i) = cr_address (cs_closers s ! j)"
    and known: "cr_address (cs_closers s ! j) \<in> set (s_feAddresses (cs_server s))"
    and wf: "map_wf (w_book (s_world (cs_server s)))"
    and run: "foldM close_step [i, i, j, j] s = Some t"
  shows "s_closed (cs_server t) = s_closed (cs_server s) @
    [socket_of (w_book (s_world (cs_server s))) (cr_address (cs_closers s ! j)), 0] \<and>
    map_find (w_book (s_world (cs_server t))) (cr_address (cs_closers s ! j)) = Some 0"
proof -
  let ?f = "cr_address (cs_closers s ! j)" and ?S = "cs_server s"
  let ?S1 = "?S\<lparr>s_world := snd (getSocketFromAddress ?f (s_world ?S)), s_closed := s_closed ?S @ [socket_of (w_book (s_world ?S)) ?f]\<rparr>"
  let ?s1 = "closer_moves i Purging ?S1 s"
  have s1: "close_step i s = Some ?s1" using ij at same close_step_stages(3) [of i s] by simp
  have book: "map_wf (w_book (s_world ?S1))"
    using wf by (simp add: getSocketFromAddress_def getInternalSocketId_def case_prod_beta)
  obtain S2 where S2: "purgeFeConnection ?f ?S1 = Some S2" "close_step i ?s1 = Some (closer_moves i Gone S2 ?s1)"
    using run s1 ij same by (auto simp: close_step_stages bind_iff)
  let ?s2 = "closer_moves i Gone S2 ?s1"
  note p2 = purgeFeConnection_effect [OF S2(1)]
  have S2': "map_find (w_book (s_world S2)) ?f = None" "s_closed S2 = s_closed ?S1" "?f \<notin> set (s_feAddresses S2)"
    using p2 known book by (simp_all add: removeServerSocket_def)
  let ?S3 = "S2\<lparr>s_world := snd (getSocketFromAddress ?f (s_world S2)), s_closed := s_closed S2 @ [0]\<rparr>"
  have s3: "close_step j ?s2 = Some (closer_moves j Purging ?S3 ?s2)"
    using ij at S2'(1) close_step_stages(3) [of j ?s2] by (simp add: socket_of_def)
  have book3: "map_find (w_book (s_world ?S3)) ?f = Some 0"
    using S2'(1) by (simp add: getSocketFromAddress_def getInternalSocketId_def case_prod_beta map_index_def)
  have "close_step j (closer_moves j Purging ?S3 ?s2) = Some t" using run unfolding foldM.simps s1 S2(2) s3 bind.simps by simp
  then obtain S4 where S4: "purgeFeConnection ?f ?S3 = Some S4" "cs_server t = S4"
    using ij close_step_stages(4) [of j "closer_moves j Purging ?S3 ?s2"] by auto
  show ?thesis using purgeFeConnection_effect [OF S4(1)] S2'(2,3) book3 S4(2) by simp
qed

lemma both_leave:
  assumes ij: "i < length (cs_closers s)" "j < length (cs_closers s)" "i \<noteq> j"
    and at: "cr_at (cs_closers s ! i) = Checking" "cr_at (cs_closers s ! j) = Checking"
    and same: "cr_address (cs_closers s ! i) = cr_address (cs_closers s ! j)"
    and known: "cr_address (cs_closers s ! j) \<in> set (s_feAddresses (cs_server s))"
    and run: "foldM close_step [i, j, i, j] s = Some u"
  shows "length (cs_closers u) = length (cs_closers s) \<and>
    cs_closers u ! i = (cs_closers s ! i)\<lparr>cr_at := Closing\<rparr> \<and> cs_closers u ! j = (cs_closers s ! j)\<lparr>cr_at := Closing\<rparr> \<and>
    s_world (cs_server u) = s_world (cs_server s) \<and> s_feAddresses (cs_server u) = s_feAddresses (cs_server s) \<and>
    s_closed (cs_server u) = s_closed (cs_server s)"
proof -
  let ?s1 = "closer_moves i Leaving (cs_server s) s"
  let ?s2 = "closer_moves j Leaving (cs_server ?s1) ?s1"
  have "close_step i s = Some ?s1" "close_step j ?s1 = Some ?s2"
    using ij at same known close_step_stages(1) [of i s] close_step_stages(1) [of j ?s1] by simp_all
  then have "foldM close_step [i, j] ?s2 = Some u" using run by simp
  then obtain S where S: "leaves (cs_closers ?s2 ! i) (cs_server ?s2) = Some S"
      "close_step j (closer_moves i Closing S ?s2) = Some u"
    using ij close_step_stages(2) [of i ?s2] by (auto simp: bind_iff)
  let ?s3 = "closer_moves i Closing S ?s2"
  have "map_option (\<lambda>S'. closer_moves j Closing S' ?s3) (leaves (cs_closers ?s3 ! j) S) = Some u"
    using S(2) ij close_step_stages(2) [of j ?s3] by simp
  then obtain S' where S': "leaves (cs_closers ?s3 ! j) S = Some S'" "u = closer_moves j Closing S' ?s3"
    by auto
  show ?thesis using leaves_keeps [OF S(1)] leaves_keeps [OF S'(1)] S'(2) ij by simp
qed

subsection \<open>A join in between\<close>

text \<open>
  The monitoring thread closes the front end's connection while the listening thread still handles
  packets from it: a client that joins between the disconnection of the sessions and the purge
  of the address.
\<close>

lemma join_in_between:
  assumes ok: "table_ok (cs_server s)" and i: "i < length (cs_closers s)" "cs_closers s ! i = c"
    and c: "cr_at c = Checking" "cr_sent c = cr_compared c" "cr_sent c \<noteq> cr_address c"
    and left: "foldM close_step [i, i] s = Some u" and known: "cr_address c \<in> set (s_feAddresses (cs_server s))"
    and ids: "ids_apart p (cr_address c)" and may: "packet_may tag p (cs_server u)" and sized: "packet_sized p"
    and packet: "handleFrontEndPacket e tag confirms (cr_address c) sock p (cs_server u) = Some S"
    and closed: "foldM close_step [i, i] (u\<lparr>cs_server := S\<rparr>) = Some t"
  shows "t_members (table_of (cs_server t)) = t_members (packet_table p (cr_address c) (table_of (cs_server u))) \<and>
    cr_address c \<notin> t_front_ends (table_of (cs_server t)) \<and>
    closeFrontEndConnection sent compared now (cr_address c) (cs_server t) = Some (cs_server t)"
proof -
  let ?f = "cr_address c" and ?s1 = "closer_moves i Leaving (cs_server s) s"
  have "map_option (\<lambda>S. closer_moves i Closing S ?s1) (leaves (c\<lparr>cr_at := Leaving\<rparr>) (cs_server s)) = Some u"
    using left i c(1) known close_step_stages(1) [of i s] close_step_stages(2) [of i ?s1] by simp
  then obtain U where U: "closeClientConnection (cr_compared c) (cr_now c) (cr_sent c, ?f) (cs_server s) = Some U"
      "u = closer_moves i Closing U ?s1"
    by (auto simp: leaves_def)
  have oku: "table_ok U" and fes: "s_feAddresses U = s_feAddresses (cs_server s)"
    using closeClientConnection_members [OF ok U(1) c(3)] closeClientConnection_effect [OF _ U(1) c(3)] ok
    by (auto simp: table_of_def table_ok_def intro!: own_identifiers_filter)
  have tab: "table_of S = packet_table p ?f (table_of U)"
    using handleFrontEndPacket_table [OF oku ids, of tag] may packet U(2) by simp
  let ?S1 = "S\<lparr>s_world := snd (getSocketFromAddress ?f (s_world S)), s_closed := s_closed S @ [socket_of (w_book (s_world S)) ?f]\<rparr>"
  let ?u = "u\<lparr>cs_server := S\<rparr>"
  have u: "i < length (cs_closers ?u)" "cs_closers ?u ! i = c\<lparr>cr_at := Closing\<rparr>"
    using U(2) i by simp_all
  have "map_option (\<lambda>S. closer_moves i Gone S (closer_moves i Purging ?S1 ?u)) (purgeFeConnection ?f ?S1) = Some t"
    using closed u close_step_stages(3) [of i ?u] close_step_stages(4) [of i "closer_moves i Purging ?S1 ?u"] by simp
  then obtain T where T: "purgeFeConnection ?f ?S1 = Some T" "cs_server t = T" by auto
  note eff = purgeFeConnection_effect [OF T(1)]
  have "members (groups_of T) = members (groups_of S)" "?f \<notin> set (s_feAddresses T)"
    using eff by (simp_all add: groups_of_def)
  moreover from this have "t_members (table_of T) = t_members (packet_table p ?f (table_of U))"
    unfolding tab [symmetric] by (simp add: table_of_def)
  moreover have "cs_server u = U" "t_front_ends (table_of T) = set (s_feAddresses T)"
    using U(2) by (simp_all add: table_of_def)
  ultimately show ?thesis using T(2) closeFrontEndConnection_unknown [of ?f T] by simp
qed

end
