(* ===== verification/Link_Order.thy ===== *)
theory Link_Order
  imports Handoff
begin

section \<open>The order of a client's packets on the way to the server\<close>

text \<open>
  \<open>src/proxy_fe/ProxyFE.cpp\<close>: the packets of a client reach the server's connection by two ways.
  Its own thread (\<open>listenClientCommunication\<close>) sends the join (\<open>registerUserSocket\<close>) and, when
  the client is gone, the disconnection (\<open>disconnectUser\<close>); a message goes through the slot
  (\<open>processIncomingClientMessage\<close>) to the forwarding thread (\<open>handleProcessingMessage\<close>), and the client's thread
  does not wait until it is forwarded. The state has the slot of theory \<open>Handoff\<close>, with every message marked
  by its client, the stage of each client's thread and the line of packets to the server. Clients
  join first, as \<open>Client::ConnectToServer\<close> does; a \<open>sendPacket\<close> is one step.
\<close>

datatype 'm item = Joins | Chat 'm | Leaves

datatype 'm reader = Fresh | Reading | Waiting 'm | Storing 'm | Unlocking | Left

record 'm link =
  lk_slot :: "(nat \<times> 'm) slot"
  lk_at :: "nat \<Rightarrow> 'm reader"
  lk_line :: "(nat \<times> 'm item) list"
  lk_read :: "nat \<Rightarrow> 'm list"  \<comment> \<open>messages a client's thread has read\<close>

definition link0 :: "'m link" where
  "link0 = \<lparr>lk_slot = slot0, lk_at = (\<lambda>i. Fresh), lk_line = [], lk_read = (\<lambda>i. [])\<rparr>"

inductive link_step :: "'m link \<Rightarrow> 'm link \<Rightarrow> bool" where
  Join: "lk_at s i = Fresh \<Longrightarrow>
    link_step s (s\<lparr>lk_at := (lk_at s)(i := Reading), lk_line := lk_line s @ [(i, Joins)]\<rparr>)"
| Read: "lk_at s i = Reading \<Longrightarrow>
    link_step s (s\<lparr>lk_at := (lk_at s)(i := Waiting m), lk_read := (lk_read s)(i := lk_read s i @ [m])\<rparr>)"
| Acquire: "lk_at s i = Waiting m \<Longrightarrow> sl_free (lk_slot s) \<Longrightarrow>
    link_step s (s\<lparr>lk_at := (lk_at s)(i := Storing m),
      lk_slot := (lk_slot s)\<lparr>sl_free := False, sl_holder := Some (i, m)\<rparr>\<rparr>)"
| Store: "lk_at s i = Storing m \<Longrightarrow> sl_holder (lk_slot s) = Some (i, m) \<Longrightarrow>
    link_step s (s\<lparr>lk_at := (lk_at s)(i := Unlocking),
      lk_slot := (lk_slot s)\<lparr>sl_holder := None, sl_packet := Some (i, m), sl_unlocks := Suc (sl_unlocks (lk_slot s)),
        sl_stored := sl_stored (lk_slot s) @ [(i, m)]\<rparr>\<rparr>)"
| Unlock: "lk_at s i = Unlocking \<Longrightarrow> sl_unlocks (lk_slot s) = Suc n \<Longrightarrow>
    link_step s (s\<lparr>lk_at := (lk_at s)(i := Reading),
      lk_slot := (lk_slot s)\<lparr>sl_unlocks := n, sl_locked := False\<rparr>\<rparr>)"
| Leave: "lk_at s i = Reading \<Longrightarrow>
    link_step s (s\<lparr>lk_at := (lk_at s)(i := Left), lk_line := lk_line s @ [(i, Leaves)]\<rparr>)"
| Lock: "sl_forwarder (lk_slot s) = Asleep \<Longrightarrow> \<not> sl_locked (lk_slot s) \<Longrightarrow>
    link_step s (s\<lparr>lk_slot := (lk_slot s)\<lparr>sl_forwarder := Forwarding, sl_locked := True\<rparr>\<rparr>)"
| Forward: "sl_forwarder (lk_slot s) = Forwarding \<Longrightarrow> sl_packet (lk_slot s) = Some (j, m) \<Longrightarrow>
    link_step s (s\<lparr>lk_slot := (lk_slot s)\<lparr>sl_forwarder := Posting, sl_sent := sl_sent (lk_slot s) @ [(j, m)]\<rparr>,
      lk_line := lk_line s @ [(j, Chat m)]\<rparr>)"
| Post: "sl_forwarder (lk_slot s) = Posting \<Longrightarrow>
    link_step s (s\<lparr>lk_slot := (lk_slot s)\<lparr>sl_forwarder := Asleep, sl_free := True\<rparr>\<rparr>)"

inductive_cases link_stepE: "link_step s t"

definition link_reachable :: "'m link \<Rightarrow> bool" where
  "link_reachable s \<longleftrightarrow> link_step\<^sup>*\<^sup>* link0 s"

lemma link_reachable_start: "link_reachable link0"
  by (simp add: link_reachable_def)

lemma link_reachable_step: "link_reachable s \<Longrightarrow> link_step s t \<Longrightarrow> link_reachable t"
  by (simp add: link_reachable_def)

text \<open>The slot does what theory \<open>Handoff\<close> lets it do.\<close>

lemma link_step_slot: "link_step s t \<Longrightarrow> lk_slot t = lk_slot s \<or> slot_step (lk_slot s) (lk_slot t)"
  by (erule link_stepE) (auto intro: slot_step.intros)

lemma link_slot_reachable: "link_reachable s \<Longrightarrow> slot_reachable (lk_slot s)"
  unfolding link_reachable_def slot_reachable_def
proof (induction rule: rtranclp_induct)
  case base
  then show ?case by (simp add: link0_def)
next
  case (step s t)
  then show ?case using link_step_slot [OF step(2)] by (auto intro: rtranclp.rtrancl_into_rtrancl)
qed

subsection \<open>One client's part\<close>

definition mine :: "nat \<Rightarrow> (nat \<times> 'a) list \<Rightarrow> 'a list" where
  "mine i xs = map snd (filter (\<lambda>x. fst x = i) xs)"

lemma mine_simps [simp]:
  "mine i [] = []" "mine i (x # xs) = (if fst x = i then snd x # mine i xs else mine i xs)"
  "mine i (xs @ ys) = mine i xs @ mine i ys"
  by (simp_all add: mine_def)

lemma length_mine: "length (mine i xs) \<le> length xs"
  by (simp add: mine_def)

text \<open>
  What the stage of a client's thread says of its packets in the line, of those sent, still in the slot
  and stored, and of the messages it has read.
\<close>

definition reader_ok ::
    "'m reader \<Rightarrow> 'm item list \<Rightarrow> 'm list \<Rightarrow> 'm list \<Rightarrow> 'm list \<Rightarrow> 'm list \<Rightarrow> bool" where
  "reader_ok pc line sent queue stored read \<longleftrightarrow>
     (case pc of
        Fresh \<Rightarrow> line = [] \<and> stored = [] \<and> read = []
      | Left \<Rightarrow> (\<exists>a b. line = Joins # map Chat a @ Leaves # map Chat b \<and> sent = a @ b \<and> length (b @ queue) \<le> 1) \<and>
          read = stored
      | Waiting m \<Rightarrow> line = Joins # map Chat sent \<and> read = stored @ [m]
      | Storing m \<Rightarrow> line = Joins # map Chat sent \<and> read = stored @ [m]
      | _ \<Rightarrow> line = Joins # map Chat sent \<and> read = stored)"

abbreviation reader_at :: "'m link \<Rightarrow> nat \<Rightarrow> bool" where
  "reader_at s i \<equiv> reader_ok (lk_at s i) (mine i (lk_line s)) (mine i (sl_sent (lk_slot s)))
     (mine i (slot_queue (lk_slot s))) (mine i (sl_stored (lk_slot s))) (lk_read s i)"

lemma slot_facts:
  assumes "slot_reachable s"
  shows "sl_stored s = sl_sent s @ slot_queue s" "length (slot_queue s) \<le> 1" "slot_inv s"
proof -
  show "sl_stored s = sl_sent s @ slot_queue s" using fe_slot.fifo [of s] assms by (simp add: slot_reachable_def)
  show "length (slot_queue s) \<le> 1" by (simp add: slot_queue_def split: option.split)
  show "slot_inv s" using fe_slot.invariant [of s] assms by (simp add: slot_reachable_def)
qed

lemma reader_step:
  assumes reach: "slot_reachable (lk_slot s)" "slot_reachable (lk_slot t)" and step: "link_step s t"
    and ok: "reader_at s i"
  shows "reader_at t i"
proof -
  note fs = slot_facts [OF reach(1)] and ft = slot_facts [OF reach(2)]
  have fifo: "mine i (sl_stored (lk_slot s)) = mine i (sl_sent (lk_slot s)) @ mine i (slot_queue (lk_slot s))"
    "mine i (sl_stored (lk_slot t)) = mine i (sl_sent (lk_slot t)) @ mine i (slot_queue (lk_slot t))"
    using fs(1) ft(1) by simp_all
  have short: "length (mine i (slot_queue (lk_slot s))) \<le> 1"
    using fs(2) length_mine [of i "slot_queue (lk_slot s)"] by linarith
  from step show ?thesis
  proof (cases rule: link_step.cases)
    case (Join j)
    have "sl_stored (lk_slot s) = [] \<Longrightarrow> mine i (sl_stored (lk_slot s)) = []" by simp
    then show ?thesis using ok fifo(1) Join by (cases "j = i") (auto simp: reader_ok_def)
  next
    case (Read j m)
    then show ?thesis using ok by (cases "j = i") (auto simp: reader_ok_def)
  next
    case (Acquire j m)
    have "mine i (slot_queue (lk_slot t)) = mine i (slot_queue (lk_slot s))" using fifo Acquire by simp
    then show ?thesis using ok Acquire by (cases "j = i") (auto simp: reader_ok_def)
  next
    case (Store j m)
    have "j \<noteq> i \<Longrightarrow> mine i (slot_queue (lk_slot t)) = mine i (slot_queue (lk_slot s))" using fifo Store by simp
    then show ?thesis using ok Store by (cases "j = i") (auto simp: reader_ok_def)
  next
    case (Unlock j n)
    have "mine i (slot_queue (lk_slot t)) = mine i (slot_queue (lk_slot s))" using fifo Unlock by simp
    then show ?thesis using ok Unlock by (cases "j = i") (auto simp: reader_ok_def)
  next
    case (Leave j)
    let ?sent = "mine i (sl_sent (lk_slot s))"
    have "\<exists>a b. map Chat ?sent @ [Leaves] = map Chat a @ Leaves # map Chat b \<and> ?sent = a @ b \<and>
        length (b @ mine i (slot_queue (lk_slot s))) \<le> 1"
      using short by (intro exI [of _ ?sent] exI [of _ "[]"]) simp
    then show ?thesis using ok Leave by (cases "j = i") (auto simp: reader_ok_def)
  next
    case Lock
    have "mine i (slot_queue (lk_slot t)) = mine i (slot_queue (lk_slot s))" using fifo Lock by simp
    then show ?thesis using ok Lock by (simp add: reader_ok_def)
  next
    case (Forward j m)
    have q: "mine i (slot_queue (lk_slot s)) = (if j = i then [m] else []) @ mine i (slot_queue (lk_slot t))"
      using fifo Forward by simp
    show ?thesis
    proof (cases "j = i")
      case False
      then show ?thesis using ok q Forward by (auto simp: reader_ok_def)
    next
      case True
      have fresh: "lk_at s i \<noteq> Fresh" using ok fifo(1) q True by (auto simp: reader_ok_def)
      have left: "\<exists>a b. mine i (lk_line t) = Joins # map Chat a @ Leaves # map Chat b \<and>
          mine i (sl_sent (lk_slot t)) = a @ b \<and> length (b @ mine i (slot_queue (lk_slot t))) \<le> 1"
        if at: "lk_at s i = Left"
      proof -
        obtain a b where "mine i (lk_line s) = Joins # map Chat a @ Leaves # map Chat b"
            "mine i (sl_sent (lk_slot s)) = a @ b" "length (b @ mine i (slot_queue (lk_slot s))) \<le> 1"
          using ok at by (auto simp: reader_ok_def)
        then show ?thesis using Forward True q by (intro exI [of _ a] exI [of _ "b @ [m]"]) simp
      qed
      show ?thesis using ok fresh left Forward True by (cases "lk_at s i") (auto simp: reader_ok_def)
    qed
  next
    case Post
    have "mine i (slot_queue (lk_slot t)) = mine i (slot_queue (lk_slot s))" using fifo Post by simp
    then show ?thesis using ok Post by (simp add: reader_ok_def)
  qed
qed

lemma readers_ok: "link_reachable s \<Longrightarrow> reader_at s i"
  unfolding link_reachable_def
proof (induction rule: rtranclp_induct)
  case base
  then show ?case by (simp add: link0_def slot0_def reader_ok_def)
next
  case (step s t)
  then have "link_reachable s" "link_reachable t" by (auto simp: link_reachable_def)
  then show ?case using reader_step [OF link_slot_reachable link_slot_reachable step(2,3)] by blast
qed

text \<open>What is on its way between the client's thread and the line.\<close>

definition on_the_way :: "'m link \<Rightarrow> nat \<Rightarrow> 'm list" where
  "on_the_way s i = mine i (slot_queue (lk_slot s)) @
     (case lk_at s i of Waiting m \<Rightarrow> [m] | Storing m \<Rightarrow> [m] | _ \<Rightarrow> [])"

lemma link_order:
  assumes "link_reachable s"
  shows "\<exists>a b. mine i (lk_line s) = (if lk_at s i = Fresh then [] else Joins # map Chat a) @
      (if lk_at s i = Left then Leaves # map Chat b else []) \<and>
    lk_read s i = a @ b @ on_the_way s i \<and>
    (if lk_at s i = Left then length (b @ on_the_way s i) \<le> 1 else b = [])"
proof -
  have fifo: "mine i (sl_stored (lk_slot s)) = mine i (sl_sent (lk_slot s)) @ mine i (slot_queue (lk_slot s))"
    using slot_facts(1) [OF link_slot_reachable [OF assms]] by simp
  note ok = readers_ok [OF assms, of i]
  show ?thesis
  proof (cases "lk_at s i = Left")
    case True
    then show ?thesis using ok fifo by (auto simp: reader_ok_def on_the_way_def)
  next
    case False
    then show ?thesis using ok fifo
      by (intro exI [of _ "mine i (sl_sent (lk_slot s))"] exI [of _ "[]"])
        (auto simp: reader_ok_def on_the_way_def split: reader.splits)
  qed
qed

end
