(* ===== verification/Stale_Reader.thy ===== *)
theory Stale_Reader
  imports Prelude
begin

section \<open>Confirmations after a fail-over\<close>

text \<open>
  \<open>src/server/server.cpp\<close>: a backup has a thread (\<open>handleRMCommunication\<close>) that reads from the
  connection to each other server. The thread tests \<open>isPrimaryServer\<close> only when it starts: when the
  backup becomes the primary the thread still reads, from the very connection on which a listening
  thread (\<open>listenFrontEndCommunication\<close>) now waits for the confirmation of a replicated
  packet. It answers what it gets with a confirmation of its own, and so does the thread of the
  other server. The listening threads are in the critical section of \<open>sockets_connections_semaphore\<close> while they
  wait, and the old thread passes through this semaphore before each read.

  The state is that of one connection between a new primary and a backup. One of \<open>readPacket\<close> or \<open>sendPacket\<close> is one
  step; packets are read whole.
\<close>

datatype 'p carried = Replicated 'p | Confirmation

datatype old_thread = Passing | Reading | Replying

record 'p takeover =
  tk_waiting :: bool  \<comment> \<open>a listening thread is in the critical section, before its \<open>readPacket\<close>\<close>
  tk_old :: old_thread
  tk_to_backup :: "'p carried list"
  tk_to_primary :: nat  \<comment> \<open>confirmations on their way; nothing else is sent to the primary\<close>
  tk_sent :: "'p list"
  tk_handled :: "'p list"  \<comment> \<open>packets the backup has handled\<close>
  tk_confirmed :: nat

definition takeover0 :: "'p takeover" where
  "takeover0 = \<lparr>tk_waiting = False, tk_old = Reading, tk_to_backup = [], tk_to_primary = 0, tk_sent = [],
     tk_handled = [], tk_confirmed = 0\<rparr>"

definition replicated :: "'p carried \<Rightarrow> 'p list" where
  "replicated c = (case c of Replicated p \<Rightarrow> [p] | Confirmation \<Rightarrow> [])"

inductive takeover_step :: "'p takeover \<Rightarrow> 'p takeover \<Rightarrow> bool" where
  Replicate: "\<not> tk_waiting s \<Longrightarrow>
    takeover_step s (s\<lparr>tk_waiting := True, tk_to_backup := tk_to_backup s @ [Replicated p], tk_sent := tk_sent s @ [p]\<rparr>)"
| Backup: "tk_to_backup s = c # cs \<Longrightarrow>
    takeover_step s (s\<lparr>tk_to_backup := cs, tk_handled := tk_handled s @ replicated c,
      tk_to_primary := Suc (tk_to_primary s)\<rparr>)"
| Confirm: "tk_waiting s \<Longrightarrow> tk_to_primary s = Suc n \<Longrightarrow>
    takeover_step s (s\<lparr>tk_waiting := False, tk_to_primary := n, tk_confirmed := Suc (tk_confirmed s)\<rparr>)"
| Pass: "tk_old s = Passing \<Longrightarrow> \<not> tk_waiting s \<Longrightarrow> takeover_step s (s\<lparr>tk_old := Reading\<rparr>)"
| Take: "tk_old s = Reading \<Longrightarrow> tk_to_primary s = Suc n \<Longrightarrow>
    takeover_step s (s\<lparr>tk_old := Replying, tk_to_primary := n\<rparr>)"
| Reply: "tk_old s = Replying \<Longrightarrow>
    takeover_step s (s\<lparr>tk_old := Passing, tk_to_backup := tk_to_backup s @ [Confirmation]\<rparr>)"

inductive_cases takeover_stepE: "takeover_step s t"

definition takeover_reachable :: "'p takeover \<Rightarrow> bool" where
  "takeover_reachable s \<longleftrightarrow> takeover_step\<^sup>*\<^sup>* takeover0 s"

lemma takeover_reachable_start: "takeover_reachable takeover0"
  by (simp add: takeover_reachable_def)

lemma takeover_reachable_step: "takeover_reachable s \<Longrightarrow> takeover_step s t \<Longrightarrow> takeover_reachable t"
  by (simp add: takeover_reachable_def)

text \<open>At any time one packet is under way for a listening thread that waits, and none otherwise.\<close>

definition takeover_inv :: "'p takeover \<Rightarrow> bool" where
  "takeover_inv s \<longleftrightarrow>
     length (tk_to_backup s) + tk_to_primary s + (if tk_old s = Replying then 1 else 0) =
       (if tk_waiting s then 1 else 0) \<and>
     tk_sent s = tk_handled s @ concat (map replicated (tk_to_backup s)) \<and>
     length (tk_sent s) = tk_confirmed s + (if tk_waiting s then 1 else 0)"

lemma takeover_inv_step: "takeover_inv s \<Longrightarrow> takeover_step s t \<Longrightarrow> takeover_inv t"
  by (erule takeover_stepE) (auto simp: takeover_inv_def replicated_def split: if_splits carried.splits)

lemma takeover_reachable_inv: "takeover_reachable s \<Longrightarrow> takeover_inv s"
  unfolding takeover_reachable_def
proof (induction rule: rtranclp_induct)
  case base
  then show ?case by (simp add: takeover_inv_def takeover0_def)
next
  case (step s t)
  then show ?case using takeover_inv_step by blast
qed

text \<open>
  How many steps can still be made before the confirmation. The old thread can take it once; then it
  is held up at the semaphore.
\<close>

definition steps_left :: "'p takeover \<Rightarrow> nat" where
  "steps_left s = (case tk_old s of Replying \<Rightarrow> 3
     | Reading \<Rightarrow> if tk_to_backup s = [] then 4 else 5
     | Passing \<Rightarrow> if tk_to_backup s = [] then 1 else 2)"

lemma takeover_progress:
  assumes inv: "takeover_inv s" and w: "tk_waiting s"
  shows "\<exists>t. takeover_step s t"
proof -
  consider c cs where "tk_to_backup s = c # cs" | n where "tk_to_primary s = Suc n" | "tk_old s = Replying"
    using inv w by (cases "tk_to_backup s"; cases "tk_to_primary s") (auto simp: takeover_inv_def split: if_splits)
  then show ?thesis using w by cases (blast intro: takeover_step.intros)+
qed

lemma takeover_closer:
  assumes "takeover_inv s" and "tk_waiting s" and "takeover_step s t"
  shows "tk_confirmed t = Suc (tk_confirmed s) \<or>
    tk_waiting t \<and> tk_confirmed t = tk_confirmed s \<and> steps_left t < steps_left s"
  using assms(3,1,2) by cases (auto simp: takeover_inv_def steps_left_def split: if_splits old_thread.splits)

lemma takeover_confirmed_mono: "takeover_step s t \<Longrightarrow> tk_confirmed s \<le> tk_confirmed t"
  by (erule takeover_stepE) auto

lemma takeover_run_mono: "(takeover_step ^^ n) s t \<Longrightarrow> tk_confirmed s \<le> tk_confirmed t"
proof (induction n arbitrary: t)
  case 0
  then show ?case by simp
next
  case (Suc n)
  then show ?case using takeover_confirmed_mono by (metis order_trans relpowp_Suc_E)
qed

lemma takeover_confirms:
  "takeover_inv s \<Longrightarrow> tk_waiting s \<Longrightarrow> (takeover_step ^^ n) s t \<Longrightarrow> steps_left s \<le> n \<Longrightarrow> tk_confirmed s < tk_confirmed t"
proof (induction n arbitrary: s)
  case 0
  then show ?case by (simp add: steps_left_def split: old_thread.splits if_splits)
next
  case (Suc n)
  obtain u where u: "takeover_step s u" "(takeover_step ^^ n) u t" using relpowp_Suc_E2 [OF Suc.prems(3)] by blast
  from takeover_closer [OF Suc.prems(1,2) u(1)] show ?case
  proof (elim disjE conjE)
    assume "tk_confirmed u = Suc (tk_confirmed s)"
    then show ?thesis using takeover_run_mono [OF u(2)] by simp
  next
    assume "tk_waiting u" "tk_confirmed u = tk_confirmed s" "steps_left u < steps_left s"
    then show ?thesis using Suc.IH [OF takeover_inv_step [OF Suc.prems(1) u(1)] _ u(2)] Suc.prems(4) by simp
  qed
qed

lemma steps_left_5: "steps_left s \<le> 5"
  by (simp add: steps_left_def split: old_thread.split)

end
