(* ===== verification/Concurrency_Properties.thy ===== *)
theory Concurrency_Properties
  imports Samples Server_Locks Proxy_Locks Thread_Start Join_Race Close_Race Link_Order Stale_Reader
begin

section \<open>Properties of the threads against one another\<close>

text \<open>
  The threads of a server and of a front end at the grain of their accesses to shared data: the
  semaphores they hold, the start of the threads of the front ends, joins and closings at the same time,
  the order of a client's packets, and the connection to a backup after a fail-over.
\<close>

subsection \<open>Semaphores\<close>


definition sample_threads :: "calls list list" where
  "sample_threads =
     [[listenFrontEndCommunication_locks [(True, handled.Join (Accepted ''room'' ''anna'' False 2)), (True, handled.Chat (Some ''room''))]
        True True [(''room'', [Some (''anna'', True)])] 1],
      [monitorConnection_locks 3 True True [(''room'', [None])] 0],
      [consumeMessageQueue_locks ''room'' [[(True, 2)]]],
      [connect_all_locks 1 @ handleFrontEndsConnections_locks 1, closeServer_locks 1]]"

lemma sample_threads_ok: "\<forall>ops\<in>set sample_threads. \<forall>p\<in>set ops. server_thread p"
  by (simp add: sample_threads_def server_thread.intros)


text \<open>
  A server that is told to stop while one of its threads has \<open>feAddressesSemaphore\<close> does not stop:
  the signal handler, which runs on the interrupted thread, waits for that semaphore, and in every
  state that the threads can reach from there it still does.
\<close>

lemma interrupted_close_waits_for_ever:
  assumes "\<forall>ops\<in>set threads. \<forall>p\<in>set ops. server_thread p"
    and "lock_step\<^sup>*\<^sup>* (locks_of (map concat threads)) s" and "lk_owner s Fe_Addresses = Some i"
    and "lock_step\<^sup>*\<^sup>* (interrupted i n s) t"
  shows "\<exists>p. lk_threads t ! i = Wait Fe_Addresses # p \<and> lk_owner t Fe_Addresses = Some i"
proof -
  have "locks_ok server_rank s" by (rule server_semaphores.reachable_ok [OF assms(1,2)])
  then obtain p where "self_waiting server_rank i Fe_Addresses p (interrupted i n s)"
    using interrupted_self_waiting assms(3) by blast
  from self_waiting_run [OF assms(4) this] show ?thesis by (auto simp: self_waiting_def)
qed

lemma interrupted_close_waits_for_ever_witness:
  "\<exists>s. lock_step\<^sup>*\<^sup>* (locks_of [connect_all_locks 0 @ handleFrontEndsConnections_locks 1]) s \<and>
     (\<forall>t. lock_step\<^sup>*\<^sup>* (interrupted 0 1 s) t \<longrightarrow>
       (\<exists>p. lk_threads t ! 0 = Wait Fe_Addresses # p \<and> lk_owner t Fe_Addresses = Some 0))"
proof -
  let ?main = "connect_all_locks 0 @ handleFrontEndsConnections_locks 1"
  let ?p = "tl ?main"
  let ?s = "locks_of [?main]"
  let ?t = "?s\<lparr>lk_owner := (lk_owner ?s)(Fe_Addresses \<mapsto> 0), lk_threads := (lk_threads ?s)[0 := ?p]\<rparr>"
  have "?main = Wait Fe_Addresses # ?p"
    by (simp add: connect_all_locks_def handleFrontEndsConnections_locks_def under_def)
  then have "lock_step ?s ?t" by (intro lock_step.Take) (simp_all add: locks_of_def)
  moreover have "map concat [[?main]] = [?main]" by simp
  ultimately have run: "lock_step\<^sup>*\<^sup>* (locks_of (map concat [[?main]])) ?t" by (simp only: r_into_rtranclp)
  have ok: "\<forall>ops\<in>set [[?main]]. \<forall>p\<in>set ops. server_thread p" using server_thread.Main by simp
  have own: "lk_owner ?t Fe_Addresses = Some 0" by simp
  show ?thesis
    using run interrupted_close_waits_for_ever [OF ok run own] by (intro exI [of _ ?t]) simp
qed

subsection \<open>Starting threads\<close>

text \<open>
  C24: The start of the threads of the front ends ends after at most nine steps for each and three
  more, however the threads interleave. No thread ever reads another's address or freed storage,
  and at the end every front end has exactly its two threads, each with its own address.
\<close>

theorem front_end_threads_get_their_address:
  assumes "(start_step ^^ k) (start_up0 feAddresses) s"
  shows "k \<le> 9 * length feAddresses + 3 \<and>
    (\<forall>(a, n)\<in>set (su_threads s). n \<in> {Starting, Has_Read (Some a), Running (Some a)}) \<and>
    ((\<nexists>t. start_step s t) \<longleftrightarrow> su_main s = [] \<and>
      su_threads s = map (\<lambda>a. (a, Running (Some a))) (concat (map (\<lambda>a. [a, a]) feAddresses)))"
proof -
  have "start_reachable feAddresses s" using assms by (auto simp: start_reachable_def dest: relpowp_imp_rtranclp)
  from start_reachable_inv [OF this] have inv: "start_inv s"
    and all: "started s = concat (map (\<lambda>a. [a, a]) feAddresses)" by auto
  have "\<forall>(a, n)\<in>set (su_threads s). n \<in> {Starting, Has_Read (Some a), Running (Some a)}"
    using newcomers_ok [OF inv] by fastforce
  then show ?thesis
    unfolding start_stuck_iff [OF inv] start_over_iff [OF inv] all using start_run_length [OF assms] by blast
qed

theorem front_end_threads_get_their_address_witness:
  "\<exists>k s. (start_step ^^ k) (start_up0 [fe1, fe2]) s \<and> k \<le> 21 \<and>
     su_threads s = [(fe1, Running (Some fe1)), (fe1, Running (Some fe1)), (fe2, Running (Some fe2)), (fe2, Running (Some fe2))]"
proof -
  obtain k s where "(start_step ^^ k) (start_up0 [fe1, fe2]) s" "\<nexists>t. start_step s t" using start_ends by blast
  then show ?thesis using front_end_threads_get_their_address [of k "[fe1, fe2]" s] by auto
qed

subsection \<open>Joins at the same time\<close>


definition sample_joiners :: "joiner list" where
  "sample_joiners =
     [\<lparr>jn_env = sample_env, jn_session = (''id-carl'', fe1), jn_user = ''carl'', jn_group = ''room'', jn_at = joining.Looking\<rparr>,
      \<lparr>jn_env = sample_env, jn_session = (''id-dora'', fe2), jn_user = ''dora'', jn_group = ''room'', jn_at = joining.Looking\<rparr>]"

definition sample_join_state :: "bool \<Rightarrow> join_state" where
  \<comment> \<open>two clients join \<open>room\<close>, which exists or not\<close>
  "sample_join_state exists =
     \<lparr>js_map = (if exists then [(''room'', 0)] else []), js_heap = (if exists then [sample_room] else []), js_limit = 0,
      js_world = s_world (sample_server True), js_joiners = sample_joiners, js_log = []\<rparr>"

lemma sample_heap_ok: "heap_ok (sample_join_state exists)"
  by (auto simp: heap_ok_def sample_join_state_def map_wf_def split: if_splits)


text \<open>
  C33: Of two threads that join the same group at the same time, when it does not exist yet, one session can be lost:
  after a schedule in which both look before either has stored the group, the group is the one of the second
  thread, with its session alone. All that is left of the first registration are the packets it sent, though it
  was told that it has joined.
\<close>

theorem first_joins_lose_a_session:
  assumes "heap_ok s" and "i < length (js_joiners s)" "j < length (js_joiners s)" "i \<noteq> j"
    and "jn_at (js_joiners s ! i) = joining.Looking" "jn_at (js_joiners s ! j) = joining.Looking"
    and "jn_group (js_joiners s ! i) = jn_group (js_joiners s ! j)"
    and "map_find (js_map s) (jn_group (js_joiners s ! j)) = None"
  shows "joining_result (foldM join_step (race i j) s) j = do {
      (result, m, w) \<leftarrow> register_joiner (js_joiners s ! i) (manager_of s, js_world s);
      register_joiner (js_joiners s ! j) (manager_of s, w) } \<and>
    (\<forall>r m w. joining_result (foldM join_step (race i j) s) j = Some (r, m, w) \<longrightarrow>
      (\<exists>g. map_find (gm_groupMap m) (jn_group (js_joiners s ! j)) = Some g \<and> conns g = [jn_session (js_joiners s ! j)]))"
proof -
  have none: "map_find (gm_groupMap (manager_of s)) (jn_group (js_joiners s ! j)) = None"
    using assms(8) by (simp add: manager_of_find)
  note lost = race_loses_first [OF assms]
  have "\<exists>g. map_find (gm_groupMap m) (jn_group (js_joiners s ! j)) = Some g \<and> conns g = [jn_session (js_joiners s ! j)]"
    if res: "joining_result (foldM join_step (race i j) s) j = Some (r, m, w)" for r m w
  proof -
    obtain x where "register_joiner (js_joiners s ! j) (manager_of s, snd (snd x)) = Some (r, m, w)"
      using res lost by (cases "register_joiner (js_joiners s ! i) (manager_of s, js_world s)") auto
    then show ?thesis by (rule new_group_members [OF none])
  qed
  then show ?thesis using lost by blast
qed

theorem first_joins_lose_a_session_witness:
  "\<exists>r m w g. joining_result (foldM join_step (race 0 1) (sample_join_state False)) 1 = Some (r, m, w) \<and>
     map_find (gm_groupMap m) ''room'' = Some g \<and> conns g = [(''id-dora'', fe2)] \<and>
     joining_result (foldM join_step [0, 1, 0, 0, 0, 0] (sample_join_state False)) 0 \<noteq> None"
proof -
  let ?s = "sample_join_state False"
  have "joining_result (foldM join_step (race 0 1) ?s) 1 \<noteq> None \<and>
      joining_result (foldM join_step [0, 1, 0, 0, 0, 0] ?s) 0 \<noteq> None"
    by code_simp
  then obtain r m w where r: "joining_result (foldM join_step (race 0 1) ?s) 1 = Some (r, m, w)"
      "joining_result (foldM join_step [0, 1, 0, 0, 0, 0] ?s) 0 \<noteq> None" by auto
  have s: "0 < length (js_joiners ?s)" "1 < length (js_joiners ?s)" "(0::nat) \<noteq> 1"
      "jn_at (js_joiners ?s ! 0) = joining.Looking" "jn_at (js_joiners ?s ! 1) = joining.Looking"
      "jn_group (js_joiners ?s ! 0) = jn_group (js_joiners ?s ! 1)" "map_find (js_map ?s) (jn_group (js_joiners ?s ! 1)) = None"
    by (simp_all add: sample_join_state_def sample_joiners_def)
  have j: "jn_group (js_joiners ?s ! 1) = ''room''" "jn_session (js_joiners ?s ! 1) = (''id-dora'', fe2)"
    by (simp_all add: sample_join_state_def sample_joiners_def)
  show ?thesis using first_joins_lose_a_session [OF sample_heap_ok s] r unfolding j by blast
qed

subsection \<open>Closing a front end's connection\<close>


definition sample_closer :: closer where
  "sample_closer = \<lparr>cr_address = fe2, cr_sent = ''fe-gone'', cr_compared = ''fe-gone'', cr_now = 200, cr_at = Checking\<rparr>"

definition sample_closing :: close_state where
  "sample_closing = \<lparr>cs_server = sample_server True, cs_closers = [sample_closer, sample_closer]\<rparr>"

lemma sample_table_ok: "table_ok (sample_server True)"
proof -
  have "distinct (map fst (all_conns (groups_of (sample_server True))))" by code_simp
  then show ?thesis using sample_server_ok by (simp add: table_ok_def table_of_def own_identifiers_distinct)
qed

lemma sample_closing_start:
  "table_ok (cs_server sample_closing)"
  "\<forall>c\<in>set (cs_closers sample_closing). cr_at c = Checking \<and> cr_sent c = cr_compared c \<and> cr_sent c \<noteq> cr_address c"
  using sample_table_ok by (simp_all add: sample_closing_def sample_closer_def fe2_def)


text \<open>
  But when the listening and the monitoring thread of a front end both find it in the list
  of addresses, \<open>close\<close> is called twice: on the same socket, whose number another connection may have been given
  in between, or, when the first thread has purged the address by then, on descriptor 0, and then the
  address is left in the address book with socket 0.
\<close>

lemma front_end_closed_twice:
  assumes ij: "i < length (cs_closers s)" "j < length (cs_closers s)" "i \<noteq> j"
    and at: "cr_at (cs_closers s ! i) = Checking" "cr_at (cs_closers s ! j) = Checking"
    and same: "cr_address (cs_closers s ! i) = f" "cr_address (cs_closers s ! j) = f"
    and known: "f \<in> set (s_feAddresses (cs_server s))" and wf: "map_wf (w_book (s_world (cs_server s)))"
    and left: "foldM close_step [i, j, i, j] s = Some u"
  shows "(foldM close_step [i, j] u = Some t \<longrightarrow>
      s_closed (cs_server t) = s_closed (cs_server s) @ replicate 2 (socket_of (w_book (s_world (cs_server s))) f)) \<and>
    (foldM close_step [i, i, j, j] u = Some t \<longrightarrow>
      s_closed (cs_server t) = s_closed (cs_server s) @ [socket_of (w_book (s_world (cs_server s))) f, 0] \<and>
      map_find (w_book (s_world (cs_server t))) f = Some 0)"
proof -
  have "cr_address (cs_closers s ! j) \<in> set (s_feAddresses (cs_server s))" using known same by simp
  with both_leave [OF ij at _ this left] same ij have u: "i < length (cs_closers u)" "j < length (cs_closers u)"
      "cr_at (cs_closers u ! i) = Closing" "cr_at (cs_closers u ! j) = Closing"
      "cr_address (cs_closers u ! i) = cr_address (cs_closers u ! j)" "cr_address (cs_closers u ! j) = f"
      "s_world (cs_server u) = s_world (cs_server s)" "s_feAddresses (cs_server u) = s_feAddresses (cs_server s)"
      "s_closed (cs_server u) = s_closed (cs_server s)"
    by simp_all
  show ?thesis
    using closes_same_socket_twice [OF u(1,2) ij(3) u(3-5), of t] closes_descriptor_0 [OF u(1,2) ij(3) u(3-5), of t] known wf
    unfolding u(6-9) by blast
qed

lemma front_end_closed_twice_witness:
  "\<exists>u t t'. foldM close_step [0, 1, 0, 1] sample_closing = Some u \<and>
     foldM close_step [0, 1] u = Some t \<and> s_closed (cs_server t) = [6, 6] \<and>
     foldM close_step [0, 0, 1, 1] u = Some t' \<and> s_closed (cs_server t') = [6, 0]"
proof -
  have "map_option (\<lambda>u. foldM close_step [0, 1] u \<noteq> None \<and> foldM close_step [0, 0, 1, 1] u \<noteq> None)
      (foldM close_step [0, 1, 0, 1] sample_closing) = Some True"
    by code_simp
  then obtain u t t' where run: "foldM close_step [0, 1, 0, 1] sample_closing = Some u"
      "foldM close_step [0, 1] u = Some t" "foldM close_step [0, 0, 1, 1] u = Some t'" by auto
  have s: "0 < length (cs_closers sample_closing)" "1 < length (cs_closers sample_closing)" "(0::nat) \<noteq> 1"
      "cr_at (cs_closers sample_closing ! 0) = Checking" "cr_at (cs_closers sample_closing ! 1) = Checking"
      "cr_address (cs_closers sample_closing ! 0) = fe2" "cr_address (cs_closers sample_closing ! 1) = fe2"
      "fe2 \<in> set (s_feAddresses (cs_server sample_closing))"
    by (simp_all add: sample_closing_def sample_closer_def sample_server_def)
  have "map_wf (w_book (s_world (cs_server sample_closing))) \<and>
      socket_of (w_book (s_world (cs_server sample_closing))) fe2 = 6 \<and> s_closed (cs_server sample_closing) = []" by code_simp
  then show ?thesis
    using front_end_closed_twice [OF s _ run(1), of t] front_end_closed_twice [OF s _ run(1), of t'] run
    by (auto simp: numeral_2_eq_2)
qed

text \<open>
  C36: A client that joins while the monitoring thread closes its front end's connection, between the
  disconnection of the sessions and the purge of the address, keeps its session for good: the
  session stays in its group though the server no longer knows the front end, and every later closing of
  this connection, by the listening thread as well, changes nothing.
\<close>

theorem join_while_closing_stays:
  assumes ok: "table_ok (cs_server s)" and i: "i < length (cs_closers s)" "cs_closers s ! i = c"
    and c: "cr_at c = Checking" "cr_sent c = cr_compared c" "cr_sent c \<noteq> cr_address c"
    and left: "foldM close_step [i, i] s = Some u" and known: "cr_address c \<in> set (s_feAddresses (cs_server s))"
    and join: "isJoinMessage p" "c_str (p_username p) = Some name" "c_str (p_user_id p) = Some uid" "c_str (p_group p) = Some gname"
      "ids_apart p (cr_address c)" "packet_may tag p (cs_server u)"
      "total_sessions name (groups_of (cs_server u)) < MAX_NUMBER_OF_SIMULTANEOUS_CONNECTIONS"
    and packet: "handleFrontEndPacket e tag confirms (cr_address c) sock p (cs_server u) = Some S"
    and closed: "foldM close_step [i, i] (u\<lparr>cs_server := S\<rparr>) = Some t"
  shows "(gname, name, uid, cr_address c) \<in># t_members (table_of (cs_server t)) \<and>
    cr_address c \<notin> t_front_ends (table_of (cs_server t)) \<and>
    closeFrontEndConnection sent compared now (cr_address c) (cs_server t) = Some (cs_server t)"
proof -
  have sized: "packet_sized p" using join(5) by (simp add: ids_apart_def)
  note rest = join_in_between [OF ok i c left known join(5,6) sized packet closed]
  have "(gname, name, uid, cr_address c) \<in># t_members (packet_table p (cr_address c) (table_of (cs_server u)))"
    using join(1-4,7) by (simp add: packet_table_def join_table_def table_of_def size_members)
  then show ?thesis using rest by simp
qed

definition join_carl :: packet where
  "join_carl = sample_packet JOIN_PACKET ''id-carl'' ''carl'' ''''"

theorem join_while_closing_stays_witness:
  "\<exists>u S t. foldM close_step [0, 0] sample_closing = Some u \<and>
     handleFrontEndPacket sample_env ''fe-gone'' (\<lambda>r. True) fe2 6 join_carl (cs_server u) = Some S \<and>
     foldM close_step [0, 0] (u\<lparr>cs_server := S\<rparr>) = Some t \<and>
     (''room'', ''carl'', ''id-carl'', fe2) \<in># t_members (table_of (cs_server t)) \<and>
     closeFrontEndConnection ''fe-gone'' ''fe-gone'' 300 fe2 (cs_server t) = Some (cs_server t)"
proof -
  let ?join = "\<lambda>u. handleFrontEndPacket sample_env ''fe-gone'' (\<lambda>r. True) fe2 6 join_carl (cs_server u)"
  have "map_option (\<lambda>u. packet_may ''fe-gone'' join_carl (cs_server u) \<and> total_sessions ''carl'' (groups_of (cs_server u)) = 0 \<and>
      Option.bind (?join u) (\<lambda>S. foldM close_step [0, 0] (u\<lparr>cs_server := S\<rparr>)) \<noteq> None)
    (foldM close_step [0, 0] sample_closing) = Some True"
    by code_simp
  then obtain u where u: "foldM close_step [0, 0] sample_closing = Some u" "packet_may ''fe-gone'' join_carl (cs_server u)"
      "total_sessions ''carl'' (groups_of (cs_server u)) = 0"
      "Option.bind (?join u) (\<lambda>S. foldM close_step [0, 0] (u\<lparr>cs_server := S\<rparr>)) \<noteq> None"
    unfolding map_option_eq_Some by blast
  then obtain S where S: "?join u = Some S" by (cases "?join u") (simp_all only: bind.simps simp_thms)
  then obtain t where t: "foldM close_step [0, 0] (u\<lparr>cs_server := S\<rparr>) = Some t"
    using u(4) unfolding S bind.simps by blast
  have c: "0 < length (cs_closers sample_closing)" "cs_closers sample_closing ! 0 = sample_closer"
      "cr_at sample_closer = Checking" "cr_sent sample_closer = cr_compared sample_closer"
      "cr_sent sample_closer \<noteq> cr_address sample_closer" "cr_address sample_closer = fe2"
      "cr_address sample_closer \<in> set (s_feAddresses (cs_server sample_closing))"
    by (simp_all add: sample_closing_def sample_closer_def fe2_def sample_server_def)
  have p: "isJoinMessage join_carl" "c_str (p_username join_carl) = Some ''carl''" "c_str (p_user_id join_carl) = Some ''id-carl''"
      "c_str (p_group join_carl) = Some ''room''" "ids_apart join_carl fe2"
    by code_simp+
  have room: "total_sessions ''carl'' (groups_of (cs_server u)) < MAX_NUMBER_OF_SIMULTANEOUS_CONNECTIONS"
    unfolding u(3) by (simp add: MAX_NUMBER_OF_SIMULTANEOUS_CONNECTIONS_def)
  show ?thesis
    using join_while_closing_stays [OF sample_closing_start(1) c(1-5) u(1) c(7) p(1-4) _ u(2) room, unfolded c(6), OF p(5) S t]
      u(1) S t by blast
qed

subsection \<open>The order of a client's packets\<close>

text \<open>
  C22: Under every interleaving of the threads of a front end, what a client's thread has read reaches the line to the
  server once and in order, after the client's join; of its messages at most the last comes after its
  disconnection.
\<close>

theorem disconnection_overtakes_one_message:
  assumes "link_reachable s"
  shows "\<exists>a b. mine i (lk_line s) = (if lk_at s i = Fresh then [] else Joins # map item.Chat a) @
      (if lk_at s i = Left then Leaves # map item.Chat b else []) \<and>
    lk_read s i = a @ b @ on_the_way s i \<and>
    (if lk_at s i = Left then length (b @ on_the_way s i) \<le> 1 else b = [])"
  by (rule link_order [OF assms])

theorem disconnection_overtakes_one_message_witness:
  "\<exists>s :: nat link. link_reachable s \<and> mine 0 (lk_line s) = [Joins, Leaves, item.Chat 7] \<and> lk_read s 0 = [7]"
proof -
  note to = link_reachable_step
  define sl :: "(nat \<times> nat) slot" where "sl = slot0\<lparr>sl_free := False, sl_packet := Some (0, 7), sl_stored := [(0, 7)]\<rparr>"
  let ?at = "\<lambda>pc. (lk_at link0)(0 := pc)" and ?read = "(lk_read link0)(0 := [7])"
  let ?s = "\<lambda>pc slot line. \<lparr>lk_slot = slot, lk_at = ?at pc, lk_line = line, lk_read = ?read\<rparr> :: nat link"
  have r1: "link_reachable (link0\<lparr>lk_at := ?at reader.Reading, lk_line := [(0, Joins)]\<rparr> :: nat link)"
    using to [OF link_reachable_start link_step.Join [of link0 0]] by (simp add: link0_def)
  have r2: "link_reachable (?s (Waiting 7) slot0 [(0, Joins)])"
    using to [OF r1 link_step.Read [of _ 0 7]] by (simp add: link0_def)
  have r3: "link_reachable (?s (Storing 7) (slot0\<lparr>sl_free := False, sl_holder := Some (0, 7)\<rparr>) [(0, Joins)])"
    using to [OF r2 link_step.Acquire [of _ 0 7]] by (simp add: slot0_def)
  have r4: "link_reachable (?s Unlocking (sl\<lparr>sl_unlocks := 1\<rparr>) [(0, Joins)])"
    using to [OF r3 link_step.Store [of _ 0 7]] by (simp add: slot0_def sl_def)
  have r5: "link_reachable (?s reader.Reading (sl\<lparr>sl_locked := False\<rparr>) [(0, Joins)])"
    using to [OF r4 link_step.Unlock [of _ 0 0]] by (simp add: slot0_def sl_def)
  have r6: "link_reachable (?s Left (sl\<lparr>sl_locked := False\<rparr>) [(0, Joins), (0, Leaves)])"
    using to [OF r5 link_step.Leave [of _ 0]] by simp
  have r7: "link_reachable (?s Left (sl\<lparr>sl_forwarder := Forwarding\<rparr>) [(0, Joins), (0, Leaves)])"
    using to [OF r6 link_step.Lock] by (simp add: slot0_def sl_def)
  let ?t = "?s Left (sl\<lparr>sl_forwarder := Posting, sl_sent := [(0, 7)]\<rparr>) [(0, Joins), (0, Leaves), (0, item.Chat 7)]"
  have r: "link_reachable ?t"
    using to [OF r7 link_step.Forward [of _ 0 7]] by (simp add: slot0_def sl_def)
  have "mine 0 (lk_line ?t) = [Joins, Leaves, item.Chat 7]" "lk_read ?t 0 = [7]" by simp_all
  moreover obtain a b where "lk_read ?t 0 = a @ b @ on_the_way ?t 0"
    using disconnection_overtakes_one_message [OF r, of 0] by blast
  ultimately show ?thesis using r by blast
qed

subsection \<open>Replication after a fail-over\<close>

text \<open>
  C23: A backup that has become the primary keeps a thread that reads from the very connections on which confirmations
  arrive. This does no harm when packets are read whole: the other backup handles every replicated
  packet once and in order, and a listening thread that waits for a confirmation gets one within five
  steps of the threads, whatever they are, as the old thread can take the confirmation only once before it
  is held up at the semaphore.
\<close>

theorem new_primary_gets_confirmations:
  assumes "takeover_reachable s"
  shows "tk_sent s = tk_handled s @ concat (map replicated (tk_to_backup s)) \<and>
    (tk_waiting s \<longrightarrow> (\<exists>t. takeover_step s t) \<and>
      (\<forall>t. (takeover_step ^^ 5) s t \<longrightarrow> tk_confirmed s < tk_confirmed t))"
proof -
  have inv: "takeover_inv s" by (rule takeover_reachable_inv [OF assms])
  then have "tk_sent s = tk_handled s @ concat (map replicated (tk_to_backup s))" by (simp add: takeover_inv_def)
  then show ?thesis using takeover_progress [OF inv] takeover_confirms [OF inv _ _ steps_left_5] by blast
qed

theorem new_primary_gets_confirmations_witness:
  "\<exists>s :: nat takeover. takeover_reachable s \<and> tk_waiting s \<and> tk_old s = Passing \<and> (\<exists>t. takeover_step s t) \<and>
     (\<forall>t. (takeover_step ^^ 5) s t \<longrightarrow> 0 < tk_confirmed t)"
proof -
  note to = takeover_reachable_step
  let ?s = "\<lambda>old b p h. \<lparr>tk_waiting = True, tk_old = old, tk_to_backup = b, tk_to_primary = p, tk_sent = [7],
    tk_handled = h, tk_confirmed = 0\<rparr> :: nat takeover"
  have r1: "takeover_reachable (?s old_thread.Reading [Replicated 7] 0 [])"
    using to [OF takeover_reachable_start takeover_step.Replicate [of _ 7]] by (simp add: takeover0_def)
  have r2: "takeover_reachable (?s old_thread.Reading [] 1 [7])"
    using to [OF r1 takeover_step.Backup [of _ "Replicated 7" "[]"]] by (simp add: replicated_def)
  have r3: "takeover_reachable (?s Replying [] 0 [7])"
    using to [OF r2 takeover_step.Take [of _ 0]] by simp
  have r: "takeover_reachable (?s Passing [Confirmation] 0 [7])"
    using to [OF r3 takeover_step.Reply] by simp
  have "tk_waiting (?s Passing [Confirmation] 0 [7])" "tk_old (?s Passing [Confirmation] 0 [7]) = Passing"
    "tk_confirmed (?s Passing [Confirmation] 0 [7]) = 0" by simp_all
  then show ?thesis using new_primary_gets_confirmations [OF r] r by metis
qed

end
