(* ===== verification/Join_Window.thy ===== *)
theory Join_Window
  imports Message_Path "HOL-Library.Multiset"
begin

section \<open>Joining a group while it talks\<close>

text \<open>
  \<open>Group::registerNewSession\<close> reads the history and sends it to the client before it waits for the
  semaphore of the users and adds the session; \<open>Group::consumeMessageQueue\<close> takes a message from the
  queue, writes it to the history and only then waits for that semaphore and sends it to the sessions.
  Here the critical sections of both, and the accesses outside of them, are steps of their own: a
  room is a group with its consumer thread and any number of threads inside
  \<open>registerNewSession\<close>, and other threads may say something or take sessions away between any
  two of these steps. The log of what was stored, the list of what was sent out, and how long they were when a
  client's thread read the history and added the session, are kept for the statements only.
\<close>

subsection \<open>The operations in pieces\<close>

definition enterGroup :: "env \<Rightarrow> string \<Rightarrow> string \<Rightarrow> string \<Rightarrow> bool \<Rightarrow> chat_group \<Rightarrow> int \<times> chat_group" where
  \<comment> \<open>\<open>registerNewSession\<close> between the wait for \<open>usersSemaphore\<close> and the post\<close>
  "enterGroup e clientID feAddress userName primary g =
     (let (i, g') = (case find_index (\<lambda>u. u_username u = userName) (g_users g) of
            Some i \<Rightarrow> (i, g)
          | None \<Rightarrow> (length (g_users g),
              (let g1 = g\<lparr>g_users := g_users g @ [User userName]\<rparr>
               in if primary then sendActivityMessage (e_now e) userName JOINED_MESSAGE g1 else g1)));
          (result, u) = registerSession (g_users g' ! i) clientID feAddress
      in (result, g'\<lparr>g_users := (g_users g')[i := u]\<rparr>))"

datatype broadcasting = Asleep | Drawing | Storing message | Sending_Out message
datatype entering = Arriving | Accepted | Greeting "message list" | Greeted | Entered int

record entrant =
  en_env :: env
  en_client :: string
  en_front_end :: string
  en_user :: string
  en_at :: entering
  en_read :: nat  \<comment> \<open>messages stored when it read the history\<close>
  en_from :: nat  \<comment> \<open>messages sent out when it added the session\<close>

record room =
  rm_group :: chat_group
  rm_world :: world
  rm_counts :: counts
  rm_thread :: broadcasting
  rm_entrants :: "entrant list"
  rm_log :: "message list"
  rm_cast :: "message list"

definition chats :: "message list \<Rightarrow> message list" where
  "chats = filter (\<lambda>m. \<not> m_isNotification m)"

definition consumer_step :: "env \<Rightarrow> room \<Rightarrow> room option" where
  "consumer_step e s =
     (case rm_thread s of
        Asleep \<Rightarrow>
          if g_consumer_locked (rm_group s) then None
          else Some (s\<lparr>rm_group := (rm_group s)\<lparr>g_consumer_locked := True\<rparr>, rm_thread := Drawing\<rparr>)
      | Drawing \<Rightarrow>
          (case g_messages_queue (rm_group s) of
             [] \<Rightarrow> Some (s\<lparr>rm_thread := Asleep\<rparr>)
           | m # ms \<Rightarrow> Some (s\<lparr>rm_group := (rm_group s)\<lparr>g_messages_queue := ms\<rparr>, rm_thread := Storing m\<rparr>))
      | Storing m \<Rightarrow>
          Some (s\<lparr>rm_world := (rm_world s)\<lparr>w_files :=
                    appendGroupMessageToHistory (g_maxMessages (rm_group s)) m (w_files (rm_world s))\<rparr>,
                  rm_thread := Sending_Out m, rm_log := rm_log s @ chats [m]\<rparr>)
      | Sending_Out m \<Rightarrow> do {
          w \<leftarrow> (if w_primary (rm_world s)
               then broadcastMessageToUsers e m (getAllActiveConnectionIds (rm_group s)) (rm_world s)
               else Some (rm_world s));
          Some (s\<lparr>rm_world := w, rm_thread := Drawing, rm_cast := rm_cast s @ [m]\<rparr>)
        })"

definition entrant_moves :: "nat \<Rightarrow> entrant \<Rightarrow> room \<Rightarrow> room" where
  "entrant_moves i j s = s\<lparr>rm_entrants := (rm_entrants s)[i := j]\<rparr>"

definition entrant_step :: "nat \<Rightarrow> room \<Rightarrow> room option" where
  "entrant_step i s =
     (if i < length (rm_entrants s) then
        (let j = rm_entrants s ! i; e = en_env j; g = rm_group s in
         case en_at j of
           Arriving \<Rightarrow>
             if w_primary (rm_world s) then do {
               w \<leftarrow> sendAcceptToUser e (en_client j) (en_front_end j) (rm_world s);
               Some (entrant_moves i (j\<lparr>en_at := Accepted\<rparr>) (s\<lparr>rm_world := w\<rparr>))
             }
             else Some (entrant_moves i (j\<lparr>en_at := Greeted\<rparr>) s)
         | Accepted \<Rightarrow> do {
             (messages, fs) \<leftarrow> readGroupHistoryMessages (g_maxMessages g) (g_groupName g) (w_files (rm_world s));
             Some (entrant_moves i (j\<lparr>en_at := Greeting messages, en_read := length (rm_log s)\<rparr>)
               (s\<lparr>rm_world := (rm_world s)\<lparr>w_files := fs\<rparr>\<rparr>))
           }
         | Greeting messages \<Rightarrow> do {
             w \<leftarrow> foldM (\<lambda>m. sendMessageToAddress e (setIsNotification m True) (en_client j) (en_front_end j))
                    messages (rm_world s);
             Some (entrant_moves i (j\<lparr>en_at := Greeted\<rparr>) (s\<lparr>rm_world := w\<rparr>))
           }
         | Greeted \<Rightarrow>
             (let (result, g') = enterGroup e (en_client j) (en_front_end j) (en_user j) (w_primary (rm_world s)) g
              in Some (entrant_moves i (j\<lparr>en_at := Entered result, en_from := length (rm_cast s)\<rparr>)
                   (s\<lparr>rm_group := g'\<rparr>)))
         | Entered result \<Rightarrow> None)
      else None)"

datatype room_event =
  Consume env  \<comment> \<open>the consumer thread\<close>
| Enter nat  \<comment> \<open>a thread inside \<open>registerNewSession\<close>\<close>
| Say timestamp string string  \<comment> \<open>\<open>processReceivedMessage\<close>\<close>
| Leave string timestamp string string  \<comment> \<open>\<open>handleDisconnectEvent\<close>\<close>

fun room_step :: "room_event \<Rightarrow> room \<Rightarrow> room option" where
  "room_step (Consume e) s = consumer_step e s"
| "room_step (Enter i) s = entrant_step i s"
| "room_step (Say now userName txt) s = Some (s\<lparr>rm_group := processReceivedMessage now userName txt (rm_group s)\<rparr>)"
| "room_step (Leave fe_tag now c f) s =
     map_option (\<lambda>(g, cs). s\<lparr>rm_group := g, rm_counts := cs\<rparr>)
       (handleDisconnectEvent fe_tag (w_primary (rm_world s)) now c f (rm_group s, rm_counts s))"

subsection \<open>The pieces make up the operations\<close>

lemma registerNewSession_pieces:
  "registerNewSession e c f name (g, w) = do {
     w' \<leftarrow> (if w_primary w
            then Option.bind (sendAcceptToUser e c f w) (sendHistoryToUser e c f g) else Some w);
     let (r, g') = enterGroup e c f name (w_primary w) g;
     Some (r, g', w')
   }"
  by (cases "find_index (\<lambda>u. u_username u = name) (g_users g)")
    (simp_all add: registerNewSession_def enterGroup_def Let_def case_prod_beta)

lemma consumeMessage_pieces:
  assumes "rm_thread s = Storing m" and "rm_group s = g" and "rm_world s = w"
  shows "map_option rm_world (foldM room_step [Consume e', Consume e] s) = consumeMessage e m g w"
  using assms
proof -
  let ?w = "w\<lparr>w_files := appendGroupMessageToHistory (g_maxMessages g) m (w_files w)\<rparr>"
  show ?thesis
    using assms
    by (cases "broadcastMessageToUsers e m (conns g) ?w") (simp_all add: consumer_step_def consumeMessage_def Let_def)
qed

text \<open>Sending does not change the role.\<close>

lemma sendAcceptToUser_primary: "sendAcceptToUser e c f w = Some w' \<Longrightarrow> w_primary w' = w_primary w"
  by (auto simp: sendAcceptToUser_def sendPacketToSocketId_def getSocketFromAddress_def emit_def bind_iff Let_def case_prod_beta)

lemma send_list_primary:
  "foldM (\<lambda>m. sendMessageToAddress e (msg m) c f) ms w = Some w' \<Longrightarrow> w_primary w' = w_primary w"
proof (induction ms arbitrary: w)
  case Nil
  then show ?case by simp
next
  case (Cons m ms)
  obtain v where v: "sendMessageToAddress e (msg m) c f w = Some v"
      "foldM (\<lambda>m. sendMessageToAddress e (msg m) c f) ms v = Some w'"
    using Cons.prems by (auto simp: bind_iff)
  have "w_primary v = w_primary w"
    using v(1) by (auto simp: sendMessageToAddress_def sendMessageToSocketId_def getSocketFromAddress_def emit_def bind_iff
        case_prod_beta Let_def)
  then show ?case using Cons.IH [OF v(2)] by simp
qed

text \<open>A thread that is not disturbed does what \<open>registerNewSession\<close> does.\<close>

lemma entrant_alone:
  assumes i: "i < length (rm_entrants s)" "rm_entrants s ! i = j" "en_at j = Arriving"
    and w: "w_primary w" "rm_group s = g" "rm_world s = w"
    and run: "foldM room_step [Enter i, Enter i, Enter i, Enter i] s = Some t"
  shows "\<exists>r. registerNewSession (en_env j) (en_client j) (en_front_end j) (en_user j) (g, w) = Some (r, rm_group t, rm_world t) \<and>
    en_at (rm_entrants t ! i) = Entered r"
proof -
  let ?c = "en_client j" and ?f = "en_front_end j" and ?e = "en_env j"
  obtain w1 ms fs w2 where p: "sendAcceptToUser ?e ?c ?f w = Some w1"
      "readGroupHistoryMessages (g_maxMessages g) (g_groupName g) (w_files w1) = Some (ms, fs)"
      "foldM (\<lambda>m. sendMessageToAddress ?e (setIsNotification m True) ?c ?f) ms (w1\<lparr>w_files := fs\<rparr>) = Some w2"
    using i w run by (auto simp: bind_iff entrant_step_def entrant_moves_def Let_def case_prod_beta)
  have "w_primary w2" using sendAcceptToUser_primary [OF p(1)] send_list_primary [OF p(3)] w(1) by simp
  moreover have "sendHistoryToUser ?e ?c ?f g w1 = Some w2" using p(2,3) by (simp add: sendHistoryToUser_def)
  ultimately show ?thesis
    using i w run p
    by (auto simp: entrant_step_def entrant_moves_def registerNewSession_pieces Let_def case_prod_beta)
qed

subsection \<open>The room\<close>

definition name_fits :: "string \<Rightarrow> bool" where
  "name_fits n \<longleftrightarrow> NUL \<notin> set n \<and> length n < USERNAME_MAX_SIZE - 1"

definition room_message :: "string \<Rightarrow> message \<Rightarrow> bool" where
  "room_message gname m \<longleftrightarrow> fits_packet m \<and> (m_isNotification m \<or> storable m \<and> m_group m = gname)"

definition entrant_ok :: "entrant \<Rightarrow> bool" where
  "entrant_ok j \<longleftrightarrow> env_ok (en_env j) \<and> name_fits (en_user j) \<and> length (en_client j) < UUID_SIZE \<and>
     NUL \<notin> set (en_client j) \<and> en_client j \<noteq> en_front_end j"

definition in_hand :: "room \<Rightarrow> message list" where
  \<comment> \<open>what the consumer thread has stored and not sent out\<close>
  "in_hand s = (case rm_thread s of Sending_Out m \<Rightarrow> chats [m] | _ \<Rightarrow> [])"

definition room_ok :: "room \<Rightarrow> bool" where
  "room_ok s \<longleftrightarrow> group_ok (rm_group s) \<and> w_primary (rm_world s) \<and>
     history_rep (g_maxMessages (rm_group s)) (g_groupName (rm_group s)) (rm_log s) (w_files (rm_world s)) \<and>
     (\<forall>m\<in>set (g_messages_queue (rm_group s)). room_message (g_groupName (rm_group s)) m) \<and>
     (\<forall>m. rm_thread s = Storing m \<or> rm_thread s = Sending_Out m \<longrightarrow> room_message (g_groupName (rm_group s)) m) \<and>
     (\<forall>u\<in>set (g_users (rm_group s)). name_fits (u_username u)) \<and>
     (\<forall>x\<in>set (conns (rm_group s)). NUL \<notin> set (fst x)) \<and>
     (\<forall>m\<in>set (rm_log s). fits_packet m) \<and> (\<forall>m\<in>set (rm_cast s). fits_packet m) \<and>
     rm_log s = chats (rm_cast s) @ in_hand s \<and>
     (\<forall>j\<in>set (rm_entrants s). entrant_ok j)"

text \<open>Texts that can be stored and sent; a session that goes is not one of the client \<open>c\<close> behind \<open>f\<close>.\<close>

fun room_event_ok :: "string \<Rightarrow> string \<Rightarrow> room_event \<Rightarrow> bool" where
  "room_event_ok c f (Consume e) = env_ok e"
| "room_event_ok c f (Enter i) = True"
| "room_event_ok c f (Say now n t) \<longleftrightarrow> storable (Message t n [] now) \<and> fits_packet (Message t n [] now)"
| "room_event_ok c f (Leave tag now c' f') \<longleftrightarrow> c' \<noteq> f' \<and> (if c' = tag then f' \<noteq> f else c' \<noteq> c)"

lemma activity_message:
  assumes "name_fits n" and "a = JOINED_MESSAGE \<or> a = LEFT_GROUP_MESSAGE"
  shows "room_message gname (setIsNotification (Message a n g now) True)"
proof -
  have "NUL \<notin> set a \<and> length a < MESSAGE_MAX_SIZE - 1"
    using assms(2) by (auto simp: JOINED_MESSAGE_def LEFT_GROUP_MESSAGE_def MESSAGE_MAX_SIZE_def)
  then show ?thesis using assms(1) by (simp add: room_message_def fits_packet_def name_fits_def)
qed

subsection \<open>The sessions of a room\<close>

lemma add_session_mset:
  "mset (concat (map u_clientIdentifiers (add_session n x us))) = add_mset x (mset (concat (map u_clientIdentifiers us)))"
proof (cases "find_index (\<lambda>u. u_username u = n) us")
  case None
  then show ?thesis by (simp add: add_session_def)
next
  case (Some i)
  then obtain A u B where us: "us = A @ u # B" "i = length A" by (auto dest: find_index_split)
  then show ?thesis using Some unfolding us(1,2) by (simp add: add_session_def)
qed

lemma enterGroup_cases:
  assumes enter: "enterGroup e c f n True g = (r, g')" and ok: "group_ok g"
  obtains (full) "r = - 1" "g' = g"
  | (added) "r = 0" "g_users g' = add_session n (c, f) (g_users g)"
      "sessions_in n (g_users g) < MAX_NUMBER_OF_SIMULTANEOUS_CONNECTIONS"
      "g_groupName g' = g_groupName g" "g_maxMessages g' = g_maxMessages g"
      "g_messages_queue g' = g_messages_queue g @ (if n \<in> u_username ` set (g_users g) then []
         else [setIsNotification (Message JOINED_MESSAGE n (g_groupName g) (e_now e)) True])"
proof (cases "find_index (\<lambda>u. u_username u = n) (g_users g)")
  case None
  then have "n \<notin> u_username ` set (g_users g)" by (auto simp: find_index_None_iff)
  then show ?thesis
    using None enter sessions_in_other [of n "g_users g"] added
    by (auto simp: enterGroup_def Let_def registerSession_def User_def add_session_def sendActivityMessage_def
        MAX_NUMBER_OF_SIMULTANEOUS_CONNECTIONS_def split: if_splits)
next
  case (Some i)
  then have i: "i < length (g_users g)" "u_username (g_users g ! i) = n" using find_index_SomeD [OF Some] by auto
  then have len: "sessions_in n (g_users g) = length (u_clientIdentifiers (g_users g ! i))"
    using ok sessions_in_distinct [of "g_users g" "g_users g ! i"] by (simp add: group_ok_def)
  have mem: "n \<in> u_username ` set (g_users g)" using i by (metis image_eqI nth_mem)
  show ?thesis
  proof (cases "length (u_clientIdentifiers (g_users g ! i)) < MAX_NUMBER_OF_SIMULTANEOUS_CONNECTIONS")
    case True
    then show ?thesis
      using Some enter len mem added
      by (auto simp: enterGroup_def Let_def registerSession_def add_session_def)
  next
    case False
    then show ?thesis using Some enter full by (auto simp: enterGroup_def Let_def registerSession_def)
  qed
qed

lemma enterGroup_conns:
  assumes "enterGroup e c f n True g = (r, g')" and "group_ok g"
  shows "mset (conns g') = (if r = 0 then {#(c, f)#} else {#}) + mset (conns g)" "r = 0 \<or> r = - 1"
  using assms(2)
  by (cases rule: enterGroup_cases [OF assms]; simp add: conns_users add_session_mset)+

lemma add_session_names: "u \<in> set (add_session n x us) \<Longrightarrow> u_username u = n \<or> u_username u \<in> u_username ` set us"
  by (auto simp: add_session_def split: option.splits dest!: set_update_subset_insert [THEN subsetD] find_index_SomeD)

subsection \<open>Every step keeps the room in order\<close>

definition talk_ok :: "chat_group \<Rightarrow> bool" where
  "talk_ok g \<longleftrightarrow> (\<forall>u\<in>set (g_users g). name_fits (u_username u)) \<and>
     (\<forall>m\<in>set (g_messages_queue g). room_message (g_groupName g) m)"

lemma disconnectSession_talk:
  assumes "disconnectSession primary now c f (g, cs) = Some (g', cs')" and "talk_ok g"
  shows "talk_ok g' \<and> g_groupName g' = g_groupName g"
proof (cases "getUserFromConnectionId c f g")
  case None
  then show ?thesis using assms by (simp add: disconnectSession_def)
next
  case (Some i)
  then have i: "i < length (g_users g)" unfolding getUserFromConnectionId_def by (auto dest: find_index_SomeD)
  obtain u where u: "releaseSession (g_users g ! i) c f = Some u"
    using assms Some by (auto simp: disconnectSession_def bind_iff Let_def)
  have fits: "name_fits (u_username u)" using u i assms(2) by (auto simp: releaseSession_def talk_ok_def)
  have users: "v \<in> set ((g_users g)[i := u]) \<Longrightarrow> name_fits (u_username v)" for v
    using fits assms(2) by (auto simp: talk_ok_def dest!: set_update_subset_insert [THEN subsetD])
  then have "v \<in> set (remove_nth i ((g_users g)[i := u])) \<Longrightarrow> name_fits (u_username v)" for v
    using mset_remove_nth_set [of i "(g_users g)[i := u]"] by blast
  then show ?thesis
    using assms Some u fits users activity_message [of "u_username u" LEFT_GROUP_MESSAGE]
    by (auto simp: disconnectSession_def Let_def talk_ok_def sendActivityMessage_def split: if_splits)
qed

lemma handleDisconnectEvent_talk:
  assumes "handleDisconnectEvent tag primary now c f (g, cs) = Some (g', cs')" and "talk_ok g"
  shows "talk_ok g' \<and> g_groupName g' = g_groupName g"
proof (cases "c = tag")
  case True
  then have "foldM (\<lambda>conn st. if snd conn = f then disconnectSession primary now (fst conn) f st else Some st)
      (conns g) (g, cs) = Some (g', cs')"
    using assms(1) by (simp add: handleDisconnectEvent_def)
  then have "talk_ok (fst (g', cs')) \<and> g_groupName (fst (g', cs')) = g_groupName g"
    by (rule foldM_invariant) (use assms(2) in \<open>auto dest: disconnectSession_talk split: if_splits\<close>)
  then show ?thesis by simp
next
  case False
  then show ?thesis using assms disconnectSession_talk by (simp add: handleDisconnectEvent_def)
qed

lemma room_ok_alt:
  "room_ok s \<longleftrightarrow> group_ok (rm_group s) \<and> w_primary (rm_world s) \<and> talk_ok (rm_group s) \<and>
     history_rep (g_maxMessages (rm_group s)) (g_groupName (rm_group s)) (rm_log s) (w_files (rm_world s)) \<and>
     (\<forall>m. rm_thread s = Storing m \<or> rm_thread s = Sending_Out m \<longrightarrow> room_message (g_groupName (rm_group s)) m) \<and>
     (\<forall>x\<in>set (conns (rm_group s)). NUL \<notin> set (fst x)) \<and>
     (\<forall>m\<in>set (rm_log s). fits_packet m) \<and> (\<forall>m\<in>set (rm_cast s). fits_packet m) \<and>
     rm_log s = chats (rm_cast s) @ in_hand s \<and> (\<forall>j\<in>set (rm_entrants s). entrant_ok j)"
  by (auto simp: room_ok_def talk_ok_def)

lemma chats_simps [simp]: "chats [] = []" "chats (xs @ ys) = chats xs @ chats ys"
  "set (chats xs) \<subseteq> set xs" "m \<in> set (chats xs) \<longleftrightarrow> m \<in> set xs \<and> \<not> m_isNotification m"
  by (auto simp: chats_def)

lemma group_update_simps [simp]:
  "conns (g\<lparr>g_consumer_locked := b\<rparr>) = conns g" "conns (g\<lparr>g_messages_queue := q\<rparr>) = conns g"
  "group_ok (g\<lparr>g_consumer_locked := b\<rparr>) = group_ok g" "group_ok (g\<lparr>g_messages_queue := q\<rparr>) = group_ok g"
  by (simp_all add: conns_users group_ok_def)

text \<open>What each step sends, and what becomes of the rest.\<close>

lemma consumer_step_effect:
  assumes ok: "room_ok s" and e: "env_ok e" and step: "consumer_step e s = Some t"
  shows "room_ok t \<and> rm_entrants t = rm_entrants s \<and> conns (rm_group t) = conns (rm_group s) \<and>
    socket_of (w_book (rm_world t)) = socket_of (w_book (rm_world s)) \<and>
    g_maxMessages (rm_group t) = g_maxMessages (rm_group s) \<and>
    (\<exists>ms. rm_cast t = rm_cast s @ ms \<and> w_sent (rm_world t) = w_sent (rm_world s) @
       queue_packets e (w_book (rm_world s)) (conns (rm_group s)) ms) \<and> (\<exists>ms. rm_log t = rm_log s @ ms)"
proof (cases "rm_thread s")
  case Asleep
  then show ?thesis using ok step
    by (auto simp: consumer_step_def room_ok_alt in_hand_def talk_ok_def queue_packets_def split: if_splits)
next
  case Drawing
  then show ?thesis using ok step
    by (auto simp: consumer_step_def room_ok_alt in_hand_def talk_ok_def queue_packets_def split: list.splits)
next
  case (Storing m)
  then have m: "room_message (g_groupName (rm_group s)) m" using ok by (simp add: room_ok_alt)
  have "history_rep (g_maxMessages (rm_group s)) (g_groupName (rm_group s)) (rm_log s @ chats [m])
      (appendGroupMessageToHistory (g_maxMessages (rm_group s)) m (w_files (rm_world s)))"
    using appendGroupMessageToHistory_rep [of _ _ "rm_log s" "w_files (rm_world s)" m] ok m
    by (auto simp: room_ok_alt room_message_def chats_def)
  then show ?thesis using Storing ok step m
    by (auto simp: consumer_step_def room_ok_alt in_hand_def talk_ok_def queue_packets_def room_message_def)
next
  case (Sending_Out m)
  then have m: "room_message (g_groupName (rm_group s)) m" using ok by (simp add: room_ok_alt)
  have "\<forall>x\<in>set (conns (rm_group s)). length (fst x) < UUID_SIZE"
    using ok group_ok_conns [of "rm_group s"] by (simp add: room_ok_alt)
  then obtain w where w: "broadcastMessageToUsers e m (conns (rm_group s)) (rm_world s) = Some w"
      "sends_only (broadcast_packets e m (w_book (rm_world s)) (conns (rm_group s))) (rm_world s) w"
    using broadcast_char [OF e] by blast
  have t: "t = s\<lparr>rm_world := w, rm_thread := Drawing, rm_cast := rm_cast s @ [m]\<rparr>"
    using step Sending_Out w(1) ok by (simp add: consumer_step_def room_ok_alt)
  show ?thesis unfolding t using Sending_Out ok m w(2)
    by (auto simp: room_ok_alt in_hand_def queue_packets_def sends_only_def room_message_def)
qed

text \<open>A thread inside \<open>registerNewSession\<close>, at each of its four steps.\<close>

lemma entrant_ok_moved [simp]:
  "entrant_ok (j\<lparr>en_at := a\<rparr>) = entrant_ok j" "entrant_ok (j\<lparr>en_at := a, en_read := n\<rparr>) = entrant_ok j"
  "entrant_ok (j\<lparr>en_at := a, en_from := n\<rparr>) = entrant_ok j"
  by (simp_all add: entrant_ok_def)

lemma entrants_ok_update:
  "\<forall>j\<in>set js. entrant_ok j \<Longrightarrow> entrant_ok j' \<Longrightarrow> \<forall>j\<in>set (js[i := j']). entrant_ok j"
  by (auto dest!: set_update_subset_insert [THEN subsetD])

definition same_talk :: "room \<Rightarrow> room \<Rightarrow> bool" where
  "same_talk s t \<longleftrightarrow> rm_log t = rm_log s \<and> rm_cast t = rm_cast s \<and> rm_thread t = rm_thread s \<and>
     socket_of (w_book (rm_world t)) = socket_of (w_book (rm_world s)) \<and>
     g_maxMessages (rm_group t) = g_maxMessages (rm_group s)"

lemma room_ok_step:
  assumes "room_ok s" and "same_talk s t" and "w_primary (rm_world t)" and "group_ok (rm_group t)" and "talk_ok (rm_group t)"
    and "g_groupName (rm_group t) = g_groupName (rm_group s)"
    and "history_rep (g_maxMessages (rm_group s)) (g_groupName (rm_group s)) (rm_log s) (w_files (rm_world t))"
    and "\<forall>x\<in>set (conns (rm_group t)). NUL \<notin> set (fst x)"
    and "rm_entrants t = (rm_entrants s)[i := j]" and "entrant_ok j"
  shows "room_ok t"
proof -
  have "in_hand t = in_hand s" using assms(2) by (simp add: same_talk_def in_hand_def)
  moreover have "\<forall>j\<in>set (rm_entrants t). entrant_ok j"
    using assms(1,9,10) entrants_ok_update [of "rm_entrants s" j i] by (simp add: room_ok_def)
  ultimately show ?thesis using assms(1-8) unfolding room_ok_alt same_talk_def by simp
qed

lemma room_okD:
  assumes "room_ok s"
  shows "w_primary (rm_world s)" "group_ok (rm_group s)" "talk_ok (rm_group s)"
    "history_rep (g_maxMessages (rm_group s)) (g_groupName (rm_group s)) (rm_log s) (w_files (rm_world s))"
    "\<forall>x\<in>set (conns (rm_group s)). NUL \<notin> set (fst x)"
  using assms unfolding room_ok_alt by blast+

lemma entrant_moves_simps [simp]:
  "rm_group (entrant_moves i j s) = rm_group s" "rm_world (entrant_moves i j s) = rm_world s"
  "rm_entrants (entrant_moves i j s) = (rm_entrants s)[i := j]" "same_talk u (entrant_moves i j s) = same_talk u s"
  by (simp_all add: entrant_moves_def same_talk_def)

lemma entrant_accepted:
  assumes ok: "room_ok s" and i: "i < length (rm_entrants s)" "rm_entrants s ! i = j" "en_at j = Arriving"
    and step: "entrant_step i s = Some t"
  shows "room_ok t \<and> same_talk s t \<and> rm_group t = rm_group s \<and> rm_entrants t = (rm_entrants s)[i := j\<lparr>en_at := Accepted\<rparr>] \<and>
    (\<exists>a. p_type a = ACCEPT_PACKET \<and>
      w_sent (rm_world t) = w_sent (rm_world s) @ [(socket_of (w_book (rm_world s)) (en_front_end j), a)])"
proof -
  have j: "entrant_ok j" using ok i by (auto simp: room_ok_def)
  then obtain a w where a: "sendAcceptToUser (en_env j) (en_client j) (en_front_end j) (rm_world s) = Some w"
      "p_type a = ACCEPT_PACKET" "sends_only [(socket_of (w_book (rm_world s)) (en_front_end j), a)] (rm_world s) w"
    using sendAcceptToUser_effect [of "en_env j" "en_client j" "en_front_end j" "rm_world s"]
    unfolding entrant_ok_def by blast
  have t: "t = entrant_moves i (j\<lparr>en_at := Accepted\<rparr>) (s\<lparr>rm_world := w\<rparr>)"
    using step i a(1) ok by (simp add: entrant_step_def room_ok_def)
  have talk: "same_talk s t" using a(3) by (simp add: t) (simp add: same_talk_def sends_only_def)
  have "room_ok t"
    by (rule room_ok_step [where i = i and j = "j\<lparr>en_at := Accepted\<rparr>", OF ok talk]) (use room_okD [OF ok] a(3) j in \<open>simp_all add: t sends_only_def\<close>)
  then show ?thesis using talk a(2,3) by (auto simp: t sends_only_def)
qed

lemma entrant_reads:
  assumes ok: "room_ok s" and i: "i < length (rm_entrants s)" "rm_entrants s ! i = j" "en_at j = Accepted"
    and step: "entrant_step i s = Some t"
  shows "room_ok t \<and> same_talk s t \<and> rm_group t = rm_group s \<and>
    rm_entrants t = (rm_entrants s)[i := j\<lparr>en_at := Greeting (last_n (history_limit (g_maxMessages (rm_group s))) (rm_log s)),
      en_read := length (rm_log s)\<rparr>] \<and> w_sent (rm_world t) = w_sent (rm_world s)"
proof -
  let ?ms = "last_n (history_limit (g_maxMessages (rm_group s))) (rm_log s)"
  have j: "entrant_ok j" using ok i by (auto simp: room_ok_def)
  obtain fs where fs: "readGroupHistoryMessages (g_maxMessages (rm_group s)) (g_groupName (rm_group s)) (w_files (rm_world s)) = Some (?ms, fs)"
      "history_rep (g_maxMessages (rm_group s)) (g_groupName (rm_group s)) (rm_log s) fs"
    using csv.read_law [OF room_okD(4) [OF ok]] by blast
  have t: "t = entrant_moves i (j\<lparr>en_at := Greeting ?ms, en_read := length (rm_log s)\<rparr>) (s\<lparr>rm_world := (rm_world s)\<lparr>w_files := fs\<rparr>\<rparr>)"
    using step i fs(1) by (simp add: entrant_step_def Let_def)
  have talk: "same_talk s t" by (simp add: t) (simp add: same_talk_def)
  have "room_ok t"
    by (rule room_ok_step [where i = i and j = "j\<lparr>en_at := Greeting ?ms, en_read := length (rm_log s)\<rparr>", OF ok talk]) (use room_okD [OF ok] fs(2) j in \<open>simp_all add: t\<close>)
  then show ?thesis using talk by (simp add: t)
qed

lemma entrant_greets:
  assumes ok: "room_ok s" and i: "i < length (rm_entrants s)" "rm_entrants s ! i = j" "en_at j = Greeting ms"
    and step: "entrant_step i s = Some t"
  shows "room_ok t \<and> same_talk s t \<and> rm_group t = rm_group s \<and> rm_entrants t = (rm_entrants s)[i := j\<lparr>en_at := Greeted\<rparr>] \<and>
    w_sent (rm_world t) = w_sent (rm_world s) @
      history_packets (en_env j) (en_client j) (socket_of (w_book (rm_world s)) (en_front_end j)) ms"
proof -
  have j: "entrant_ok j" using ok i by (auto simp: room_ok_def)
  have "\<forall>m\<in>set ms. message_packet (en_env j) (setIsNotification m True) (en_client j) =
      Some (the (message_packet (en_env j) m (en_client j)))"
    using message_packet_defined [of "en_env j" "en_client j"] j by (force simp: entrant_ok_def)
  from direct.send_list [of ms "en_env j" "\<lambda>m. setIsNotification m True" "\<lambda>_. en_client j", OF this,
      of "\<lambda>_. en_front_end j" "rm_world s"]
  obtain w where w: "foldM (\<lambda>m. sendMessageToAddress (en_env j) (setIsNotification m True) (en_client j) (en_front_end j)) ms (rm_world s) = Some w"
      "sends_only (history_packets (en_env j) (en_client j) (socket_of (w_book (rm_world s)) (en_front_end j)) ms) (rm_world s) w"
    by (auto simp: history_packets_def sendMessageToAddress_eq)
  have t: "t = entrant_moves i (j\<lparr>en_at := Greeted\<rparr>) (s\<lparr>rm_world := w\<rparr>)"
    using step i w(1) by (simp add: entrant_step_def Let_def)
  have talk: "same_talk s t" using w(2) by (simp add: t) (simp add: same_talk_def sends_only_def)
  have "room_ok t"
    by (rule room_ok_step [where i = i and j = "j\<lparr>en_at := Greeted\<rparr>", OF ok talk]) (use room_okD [OF ok] w(2) j in \<open>simp_all add: t sends_only_def\<close>)
  then show ?thesis using talk w(2) by (simp add: t sends_only_def)
qed

lemma enterGroup_ok:
  assumes enter: "enterGroup e c f n True g = (r, g')" and g: "group_ok g" "talk_ok g" "\<forall>x\<in>set (conns g). NUL \<notin> set (fst x)"
    and j: "name_fits n" "length c < UUID_SIZE" "NUL \<notin> set c" "c \<noteq> f"
  shows "group_ok g'" "talk_ok g'" "\<forall>x\<in>set (conns g'). NUL \<notin> set (fst x)"
    "g_groupName g' = g_groupName g" "g_maxMessages g' = g_maxMessages g"
proof -
  note c = enterGroup_cases [OF enter g(1)]
  show "group_ok g'"
    by (rule c) (use g add_session_ok [of "g_users g" n "(c, f)"] j in \<open>auto simp: group_ok_def\<close>)
  show "talk_ok g'"
    by (rule c) (use g activity_message [OF j(1), of JOINED_MESSAGE] j(1) in
      \<open>auto simp: talk_ok_def dest!: add_session_names\<close>)
  have "set_mset (mset (conns g')) \<subseteq> insert (c, f) (set (conns g))"
    unfolding enterGroup_conns(1) [OF enter g(1)] by auto
  then show "\<forall>x\<in>set (conns g'). NUL \<notin> set (fst x)" using g(3) j(3) by fastforce
  show "g_groupName g' = g_groupName g" "g_maxMessages g' = g_maxMessages g" by (rule c; simp)+
qed

lemma entrant_enters:
  assumes ok: "room_ok s" and i: "i < length (rm_entrants s)" "rm_entrants s ! i = j" "en_at j = Greeted"
    and step: "entrant_step i s = Some t"
  shows "room_ok t \<and> same_talk s t \<and> w_sent (rm_world t) = w_sent (rm_world s) \<and>
    (\<exists>r. rm_entrants t = (rm_entrants s)[i := j\<lparr>en_at := Entered r, en_from := length (rm_cast s)\<rparr>] \<and>
      mset (conns (rm_group t)) = (if r = 0 then {#(en_client j, en_front_end j)#} else {#}) + mset (conns (rm_group s)))"
proof -
  have j: "entrant_ok j" using ok i by (auto simp: room_ok_def)
  obtain r g where g: "enterGroup (en_env j) (en_client j) (en_front_end j) (en_user j) True (rm_group s) = (r, g)"
    by fastforce
  have t: "t = entrant_moves i (j\<lparr>en_at := Entered r, en_from := length (rm_cast s)\<rparr>) (s\<lparr>rm_group := g\<rparr>)"
    using step i g ok by (simp add: entrant_step_def room_ok_def Let_def)
  have j4: "name_fits (en_user j)" "length (en_client j) < UUID_SIZE" "NUL \<notin> set (en_client j)" "en_client j \<noteq> en_front_end j"
    using j by (simp_all add: entrant_ok_def)
  note g1 = enterGroup_ok [OF g room_okD(2,3,5) [OF ok] j4]
  have "mset (conns g) = (if r = 0 then {#(en_client j, en_front_end j)#} else {#}) + mset (conns (rm_group s))"
    using enterGroup_conns(1) [OF g] ok by (simp add: room_ok_def)
  moreover have talk: "same_talk s t" using g1(5) by (simp add: t) (simp add: same_talk_def)
  moreover have "room_ok t"
    by (rule room_ok_step [where i = i and j = "j\<lparr>en_at := Entered r, en_from := length (rm_cast s)\<rparr>", OF ok talk]) (use room_okD [OF ok] g1 j in \<open>simp_all add: t\<close>)
  ultimately show ?thesis by (auto simp: t)
qed

subsection \<open>What a client sees\<close>

text \<open>The sender and text of every message in the packets to one client behind one socket, and of a message.\<close>

definition seen_by :: "string \<Rightarrow> socket \<Rightarrow> (socket \<times> packet) list \<Rightarrow> (string option \<times> string option) list" where
  "seen_by c k out = map (\<lambda>p. (c_str (p_username p), c_str (p_message p)))
     (filter (\<lambda>p. p_type p = MESSAGE_PACKET \<and> c_str (p_user_id p) = Some c) (sent_to k out))"

definition said :: "message \<Rightarrow> string option \<times> string option" where
  "said m = (Some (m_user m), Some (m_text m))"

lemma seen_by_simps [simp]:
  "seen_by c k [] = []" "seen_by c k (xs @ ys) = seen_by c k xs @ seen_by c k ys"
  by (simp_all add: seen_by_def)

lemma packet_for_said:
  assumes e: "env_ok e" and c: "length c < UUID_SIZE" "NUL \<notin> set c" and m: "fits_packet m"
  shows "seen_by c' k [(k', packet_for e c m)] = (if k' = k \<and> c' = c then [said m] else [])"
proof -
  obtain p where p: "message_packet e m c = Some p" using message_packet_defined e c by blast
  then have "c_str (p_username p) = Some (m_user m)" "c_str (p_message p) = Some (m_text m)"
    using m Packet_full_username Packet_full_message unfolding message_packet_def fits_packet_def by blast+
  moreover have "packet_for e c m = p" using p by (simp add: packet_for_def)
  ultimately show ?thesis using packet_for_props [OF e c, of m] by (auto simp: seen_by_def said_def)
qed

lemma seen_history:
  assumes e: "env_ok e" and c: "length c < UUID_SIZE" "NUL \<notin> set c" and ms: "\<forall>m\<in>set ms. fits_packet m"
  shows "seen_by c' k (history_packets e c k' ms) = (if k' = k \<and> c' = c then map said ms else [])"
  using ms
proof (induction ms)
  case Nil
  then show ?case by (simp add: history_packets_def)
next
  case (Cons m ms)
  have "seen_by c' k (history_packets e c k' (m # ms)) =
      seen_by c' k [(k', packet_for e c m)] @ seen_by c' k (history_packets e c k' ms)"
    unfolding seen_by_simps(2) [symmetric] by (simp add: history_packets_def packet_for_def)
  then show ?case using Cons packet_for_said [OF e c, of m] by simp
qed

lemma seen_broadcast:
  assumes e: "env_ok e" and cs: "\<forall>x\<in>set cs. length (fst x) < UUID_SIZE \<and> NUL \<notin> set (fst x)" and m: "fits_packet m"
  shows "seen_by c k (broadcast_packets e m book cs) =
    map (\<lambda>x. said m) (filter (\<lambda>x. socket_of book (snd x) = k) (filter (\<lambda>x. fst x = c) cs))"
  using cs
proof (induction cs)
  case Nil
  then show ?case by (simp add: broadcast_packets_def)
next
  case (Cons x cs)
  have "seen_by c k (broadcast_packets e m book (x # cs)) =
      seen_by c k [(socket_of book (snd x), packet_for e (fst x) m)] @ seen_by c k (broadcast_packets e m book cs)"
    unfolding seen_by_simps(2) [symmetric] by (simp add: broadcast_packets_def packet_for_def)
  then show ?case using Cons packet_for_said [OF e _ _ m, of "fst x"] by auto
qed

lemma seen_queue:
  assumes e: "env_ok e" and cs: "\<forall>x\<in>set cs. length (fst x) < UUID_SIZE \<and> NUL \<notin> set (fst x)" and ms: "\<forall>m\<in>set ms. fits_packet m"
    and mine: "filter (\<lambda>x. fst x = c) cs = (if here then [(c, f)] else [])" and k: "socket_of book f = k"
  shows "seen_by c k (queue_packets e book cs ms) = (if here then map said ms else [])"
  using ms
proof (induction ms)
  case Nil
  then show ?case by (simp add: queue_packets_def)
next
  case (Cons m ms)
  have "seen_by c k (broadcast_packets e m book cs) = (if here then [said m] else [])"
    using seen_broadcast [OF e cs, of m c k book] Cons.prems mine k by (simp del: filter_filter)
  then show ?case using Cons by (simp add: queue_packets_def)
qed

text \<open>
  Where a client stands: before its thread has read the history it sees nothing, then the end of
  the log as it was when the thread read it, and from the step that adds the session every
  message that is sent out. At most the one message that was in the hands of the consumer thread is in both.
\<close>

definition history_seen :: "entrant \<Rightarrow> int \<Rightarrow> message list \<Rightarrow> message list" where
  "history_seen j mx log = last_n (history_limit mx) (take (en_read j) log)"

definition stands :: "entrant \<Rightarrow> int \<Rightarrow> message list \<Rightarrow> message list \<Rightarrow> session list \<Rightarrow>
    (string option \<times> string option) list \<Rightarrow> bool" where
  "stands j mx log cast mine seen \<longleftrightarrow>
     (let read = (en_read j \<le> length log \<and> en_read j \<le> length (chats cast) + 1)
      in case en_at j of
           Arriving \<Rightarrow> seen = [] \<and> mine = []
         | Accepted \<Rightarrow> seen = [] \<and> mine = []
         | Greeting ms \<Rightarrow> seen = [] \<and> mine = [] \<and> ms = history_seen j mx log \<and> read
         | Greeted \<Rightarrow> seen = map said (history_seen j mx log) \<and> mine = [] \<and> read
         | Entered r \<Rightarrow> read \<and> en_from j \<le> length cast \<and> en_read j \<le> length (chats (take (en_from j) cast)) + 1 \<and>
             mine = (if r = 0 then [(en_client j, en_front_end j)] else []) \<and>
             seen = map said (history_seen j mx log @ (if r = 0 then drop (en_from j) cast else [])))"

definition follows :: "nat \<Rightarrow> room \<Rightarrow> bool" where
  "follows i s \<longleftrightarrow> room_ok s \<and> i < length (rm_entrants s) \<and> distinct (map en_client (rm_entrants s)) \<and>
     (let j = rm_entrants s ! i
      in stands j (g_maxMessages (rm_group s)) (rm_log s) (rm_cast s)
           (filter (\<lambda>x. fst x = en_client j) (conns (rm_group s)))
           (seen_by (en_client j) (socket_of (w_book (rm_world s)) (en_front_end j)) (w_sent (rm_world s))))"

lemma stands_mine:
  "stands j mx log cast mine seen \<Longrightarrow> mine = (if mine \<noteq> [] then [(en_client j, en_front_end j)] else [])"
  by (auto simp: stands_def Let_def split: entering.splits if_splits)

lemma stands_grows:
  assumes "stands j mx log cast mine seen"
  shows "stands j mx (log @ ls) (cast @ ms) mine (seen @ (if mine \<noteq> [] then map said ms else []))"
  using assms
  by (auto simp: stands_def Let_def history_seen_def split: entering.splits if_splits)

text \<open>The sessions of one client, when others come and go.\<close>

lemma filter_one:
  assumes "mset xs' = mset ys + mset xs" and "\<forall>y\<in>set ys. \<not> P y" and "filter P xs = (if here then [a] else [])"
  shows "filter P xs' = (if here then [a] else [])"
proof -
  have none: "filter P ys = []" using assms(2) by (simp add: filter_empty_conv)
  have "mset (filter P xs') = mset (filter P ys) + mset (filter P xs)" by (simp add: assms(1))
  then have m: "mset (filter P xs') = mset (if here then [a] else [])" unfolding none assms(3) by simp
  show ?thesis
  proof (cases here)
    case True
    then have "mset (filter P xs') = {#a#}" using m by (simp only: if_True mset.simps)
    then have "filter P xs' = [a]" by (simp only: mset_single_iff)
    then show ?thesis using True by (simp only: if_True)
  next
    case False
    then have "mset (filter P xs') = {#}" using m by (simp only: if_False mset.simps)
    then have "filter P xs' = []" by (simp only: mset_zero_iff)
    then show ?thesis using False by (simp only: if_False)
  qed
qed

lemma entered_one:
  assumes "mset xs' = {#a#} + mset xs" and "P a" and "filter P xs = []"
  shows "filter P xs' = [a]"
proof -
  have "mset (filter P xs') = {#a#} + mset (filter P xs)" using assms(1,2) by simp
  then have "mset (filter P xs') = {#a#}" unfolding assms(3) by simp
  then show ?thesis by (simp only: mset_single_iff)
qed

lemma filter_remove1_other: "\<not> P y \<Longrightarrow> filter P (remove1 y xs) = filter P xs"
  by (induction xs) auto

subsection \<open>Each step\<close>

lemma followsD:
  assumes "follows i s" and "rm_entrants s ! i = j"
  shows "room_ok s" "i < length (rm_entrants s)" "entrant_ok j"
    "stands j (g_maxMessages (rm_group s)) (rm_log s) (rm_cast s)
       (filter (\<lambda>x. fst x = en_client j) (conns (rm_group s)))
       (seen_by (en_client j) (socket_of (w_book (rm_world s)) (en_front_end j)) (w_sent (rm_world s)))"
  using assms by (auto simp: follows_def Let_def room_ok_def)

lemma follows_consumer:
  assumes f: "follows i s" and e: "env_ok e" and step: "consumer_step e s = Some t"
  shows "follows i t"
proof -
  let ?j = "rm_entrants s ! i" and ?cs = "conns (rm_group s)" and ?k = "socket_of (w_book (rm_world s)) (en_front_end (rm_entrants s ! i))"
  let ?mine = "filter (\<lambda>x. fst x = en_client ?j) ?cs"
  note d = followsD [OF f refl]
  have eff: "room_ok t" "rm_entrants t = rm_entrants s" "conns (rm_group t) = ?cs"
      "socket_of (w_book (rm_world t)) = socket_of (w_book (rm_world s))" "g_maxMessages (rm_group t) = g_maxMessages (rm_group s)"
    using consumer_step_effect [OF d(1) e step] by simp_all
  obtain ls ms where more: "rm_log t = rm_log s @ ls" "rm_cast t = rm_cast s @ ms"
      "w_sent (rm_world t) = w_sent (rm_world s) @ queue_packets e (w_book (rm_world s)) ?cs ms"
    using consumer_step_effect [OF d(1) e step] by blast
  have cs: "\<forall>x\<in>set ?cs. length (fst x) < UUID_SIZE \<and> NUL \<notin> set (fst x)"
    using room_okD(2,5) [OF d(1)] group_ok_conns by blast
  have ms: "\<forall>m\<in>set ms. fits_packet m" using eff(1) more(2) unfolding room_ok_def by simp
  have "seen_by (en_client ?j) ?k (queue_packets e (w_book (rm_world s)) ?cs ms) = (if ?mine \<noteq> [] then map said ms else [])"
    by (rule seen_queue [OF e cs ms stands_mine [OF d(4)] refl])
  then show ?thesis
    using f eff more stands_grows [OF d(4), of ls ms] by (simp add: follows_def Let_def del: filter_empty_conv)
qed

lemma follows_unseen:
  assumes f: "follows i s" and ok: "room_ok t" and talk: "same_talk s t" and j: "rm_entrants t ! i = rm_entrants s ! i"
    and same: "map en_client (rm_entrants t) = map en_client (rm_entrants s)"
    and mine: "filter (\<lambda>x. fst x = en_client (rm_entrants s ! i)) (conns (rm_group t)) =
      filter (\<lambda>x. fst x = en_client (rm_entrants s ! i)) (conns (rm_group s))"
    and sent: "w_sent (rm_world t) = w_sent (rm_world s) @ out" "\<And>k. seen_by (en_client (rm_entrants s ! i)) k out = []"
  shows "follows i t"
proof -
  have "length (rm_entrants t) = length (rm_entrants s)" using same by (rule map_eq_imp_length_eq)
  then show ?thesis using f ok talk j same mine sent by (simp add: follows_def Let_def same_talk_def)
qed

lemma other_entrant:
  assumes "i' \<noteq> i" and "rm_entrants t = (rm_entrants s)[i' := j']" and "en_client j' = en_client (rm_entrants s ! i')"
  shows "rm_entrants t ! i = rm_entrants s ! i" "map en_client (rm_entrants t) = map en_client (rm_entrants s)"
proof -
  show "rm_entrants t ! i = rm_entrants s ! i" using assms(1,2) by simp
  have "map en_client ((rm_entrants s)[i' := j']) = (map en_client (rm_entrants s))[i' := en_client (rm_entrants s ! i')]"
    by (simp add: map_update assms(3))
  also have "\<dots> = map en_client (rm_entrants s)"
    using list_update_id [of "map en_client (rm_entrants s)" i'] list_update_beyond [of "map en_client (rm_entrants s)" i']
    by (cases "i' < length (rm_entrants s)") simp_all
  finally show "map en_client (rm_entrants t) = map en_client (rm_entrants s)" using assms(2) by simp
qed

lemma follows_other:
  assumes f: "follows i s" and ne: "i' \<noteq> i" and step: "entrant_step i' s = Some t"
  shows "follows i t"
proof -
  let ?j = "rm_entrants s ! i" and ?o = "rm_entrants s ! i'"
  note d = followsD [OF f refl]
  have i': "i' < length (rm_entrants s)" using step by (simp add: entrant_step_def split: if_splits)
  have o: "entrant_ok ?o" using d(1) i' by (simp add: room_ok_def)
  have "map en_client (rm_entrants s) ! i' \<noteq> map en_client (rm_entrants s) ! i"
    using f ne i' d(2) nth_eq_iff_index_eq [of "map en_client (rm_entrants s)" i' i] by (simp add: follows_def)
  then have c: "en_client ?o \<noteq> en_client ?j" using i' d(2) by simp
  show ?thesis
  proof (cases "en_at ?o")
    case Arriving
    then obtain a where a: "p_type a = ACCEPT_PACKET" "room_ok t" "same_talk s t" "rm_group t = rm_group s"
        "rm_entrants t = (rm_entrants s)[i' := ?o\<lparr>en_at := Accepted\<rparr>]"
        "w_sent (rm_world t) = w_sent (rm_world s) @ [(socket_of (w_book (rm_world s)) (en_front_end ?o), a)]"
      using entrant_accepted [OF d(1) i' refl _ step] by blast
    have "seen_by (en_client ?j) k [(socket_of (w_book (rm_world s)) (en_front_end ?o), a)] = []" for k
      using a(1) by (simp add: seen_by_def packet_type_defs)
    then show ?thesis using follows_unseen [OF f a(2,3) other_entrant [OF ne a(5)] _ a(6)] a(4) by simp
  next
    case Accepted
    note r = entrant_reads [OF d(1) i' refl Accepted step]
    then show ?thesis
      using follows_unseen [OF f, of t "[]"] other_entrant [OF ne, of t s] by simp
  next
    case (Greeting ms)
    then have gr: "room_ok t" "same_talk s t" "rm_group t = rm_group s" "rm_entrants t = (rm_entrants s)[i' := ?o\<lparr>en_at := Greeted\<rparr>]"
        "w_sent (rm_world t) = w_sent (rm_world s) @
          history_packets (en_env ?o) (en_client ?o) (socket_of (w_book (rm_world s)) (en_front_end ?o)) ms"
      using entrant_greets [OF d(1) i' refl _ step] by blast+
    have "p_type (packet_for (en_env ?o) (en_client ?o) m) = MESSAGE_PACKET \<and>
        c_str (p_user_id (packet_for (en_env ?o) (en_client ?o) m)) = Some (en_client ?o)" for m
      using packet_for_props [of "en_env ?o" "en_client ?o" m] o by (simp add: entrant_ok_def)
    then have "seen_by (en_client ?j) k (history_packets (en_env ?o) (en_client ?o) k' ms) = []" for k k'
      using c by (auto simp: seen_by_def history_packets_def sent_to_def filter_empty_conv packet_for_def [symmetric])
    then show ?thesis using follows_unseen [OF f gr(1,2) other_entrant [OF ne gr(4)] _ gr(5)] gr(3) by simp
  next
    case Greeted
    then obtain r where r: "room_ok t" "same_talk s t" "w_sent (rm_world t) = w_sent (rm_world s)"
        "rm_entrants t = (rm_entrants s)[i' := ?o\<lparr>en_at := Entered r, en_from := length (rm_cast s)\<rparr>]"
        "mset (conns (rm_group t)) = mset (if r = 0 then [(en_client ?o, en_front_end ?o)] else []) + mset (conns (rm_group s))"
      using entrant_enters [OF d(1) i' refl _ step] by (auto split: if_splits)
    have "filter (\<lambda>x. fst x = en_client ?j) (conns (rm_group t)) = filter (\<lambda>x. fst x = en_client ?j) (conns (rm_group s))"
      using filter_one [OF r(5) _ stands_mine [OF d(4)]] stands_mine [OF d(4)] c by (simp split: if_splits)
    then show ?thesis using follows_unseen [OF f r(1,2) other_entrant [OF ne r(4)], of "[]"] r(3) by simp
  next
    case (Entered r)
    then show ?thesis using step i' by (simp add: entrant_step_def Let_def)
  qed
qed

lemma own_entrant:
  assumes "follows i s" and "room_ok t" and "same_talk s t" and "rm_entrants t = (rm_entrants s)[i := j']"
    and "en_client j' = en_client (rm_entrants s ! i)" and "en_front_end j' = en_front_end (rm_entrants s ! i)"
    and "stands j' (g_maxMessages (rm_group s)) (rm_log s) (rm_cast s)
       (filter (\<lambda>x. fst x = en_client (rm_entrants s ! i)) (conns (rm_group t)))
       (seen_by (en_client (rm_entrants s ! i)) (socket_of (w_book (rm_world s)) (en_front_end (rm_entrants s ! i))) (w_sent (rm_world t)))"
  shows "follows i t"
proof -
  have "map en_client ((rm_entrants s)[i := j']) = map en_client (rm_entrants s)"
    using assms(5) list_update_id [of "map en_client (rm_entrants s)" i] followsD(2) [OF assms(1) refl] by (simp add: map_update)
  then show ?thesis using assms by (simp add: follows_def Let_def same_talk_def)
qed

lemma in_hand_length: "length (in_hand s) \<le> 1"
  by (simp add: in_hand_def chats_def split: broadcasting.split)

lemma follows_own:
  assumes f: "follows i s" and step: "entrant_step i s = Some t"
  shows "follows i t"
proof -
  let ?j = "rm_entrants s ! i" and ?k = "socket_of (w_book (rm_world s)) (en_front_end (rm_entrants s ! i))"
  note d = followsD [OF f refl]
  have e: "env_ok (en_env ?j)" "length (en_client ?j) < UUID_SIZE" "NUL \<notin> set (en_client ?j)"
    using d(3) by (simp_all add: entrant_ok_def)
  have logs: "rm_log s = chats (rm_cast s) @ in_hand s" "\<forall>m\<in>set (rm_log s). fits_packet m"
    using d(1) unfolding room_ok_def by blast+
  then have len: "length (rm_log s) \<le> length (chats (rm_cast s)) + 1" using in_hand_length [of s] by simp
  show ?thesis
  proof (cases "en_at ?j")
    case Arriving
    then obtain a where a: "p_type a = ACCEPT_PACKET" "room_ok t" "same_talk s t" "rm_group t = rm_group s"
        "rm_entrants t = (rm_entrants s)[i := ?j\<lparr>en_at := Accepted\<rparr>]"
        "w_sent (rm_world t) = w_sent (rm_world s) @ [(?k, a)]"
      using entrant_accepted [OF d(1,2) refl _ step] by blast
    have "seen_by (en_client ?j) ?k [(?k, a)] = []" using a(1) by (simp add: seen_by_def packet_type_defs)
    then show ?thesis
      using own_entrant [OF f a(2,3,5)] d(4) Arriving a(4,6) by (simp add: stands_def)
  next
    case Accepted
    note r = entrant_reads [OF d(1,2) refl Accepted step]
    then show ?thesis
      using own_entrant [OF f, of t] d(4) Accepted len by (simp add: stands_def history_seen_def)
  next
    case (Greeting ms)
    then have gr: "room_ok t" "same_talk s t" "rm_group t = rm_group s" "rm_entrants t = (rm_entrants s)[i := ?j\<lparr>en_at := Greeted\<rparr>]"
        "w_sent (rm_world t) = w_sent (rm_world s) @ history_packets (en_env ?j) (en_client ?j) ?k ms"
      using entrant_greets [OF d(1,2) refl _ step] by blast+
    have ms: "ms = history_seen ?j (g_maxMessages (rm_group s)) (rm_log s)" using d(4) Greeting by (simp add: stands_def)
    have "set ms \<subseteq> set (rm_log s)"
      unfolding ms history_seen_def by (rule order_trans [OF set_last_n set_take_subset])
    then have "\<forall>m\<in>set ms. fits_packet m" using logs(2) by blast
    then have "seen_by (en_client ?j) ?k (history_packets (en_env ?j) (en_client ?j) ?k ms) = map said ms"
      using seen_history [OF e] by simp
    then show ?thesis
      using own_entrant [OF f gr(1,2,4)] d(4) Greeting gr(3,5) ms by (simp add: stands_def history_seen_def)
  next
    case Greeted
    then obtain r where r: "room_ok t" "same_talk s t" "w_sent (rm_world t) = w_sent (rm_world s)"
        "rm_entrants t = (rm_entrants s)[i := ?j\<lparr>en_at := Entered r, en_from := length (rm_cast s)\<rparr>]"
        "mset (conns (rm_group t)) = (if r = 0 then {#(en_client ?j, en_front_end ?j)#} else {#}) + mset (conns (rm_group s))"
      using entrant_enters [OF d(1,2) refl _ step] by blast
    have none: "filter (\<lambda>x. fst x = en_client ?j) (conns (rm_group s)) = []" using d(4) Greeted by (simp add: stands_def)
    have "filter (\<lambda>x. fst x = en_client ?j) (conns (rm_group t)) = (if r = 0 then [(en_client ?j, en_front_end ?j)] else [])"
    proof (cases "r = 0")
      case True
      then have "mset (conns (rm_group t)) = {#(en_client ?j, en_front_end ?j)#} + mset (conns (rm_group s))" using r(5) by simp
      from entered_one [OF this _ none] show ?thesis using True by simp
    next
      case False
      then have "mset (conns (rm_group t)) = mset [] + mset (conns (rm_group s))" using r(5) by simp
      from filter_one [OF this, of _ False] none show ?thesis using False by simp
    qed
    then show ?thesis
      using own_entrant [OF f r(1,2,4)] d(4) Greeted r(3) by (simp add: stands_def history_seen_def)
  next
    case (Entered r)
    then show ?thesis using step d(2) by (simp add: entrant_step_def Let_def)
  qed
qed

lemma follows_say:
  assumes f: "follows i s" and ok: "storable (Message txt n [] now)" "fits_packet (Message txt n [] now)"
  shows "follows i (s\<lparr>rm_group := processReceivedMessage now n txt (rm_group s)\<rparr>)"
proof -
  let ?g = "processReceivedMessage now n txt (rm_group s)" and ?t = "s\<lparr>rm_group := processReceivedMessage now n txt (rm_group s)\<rparr>"
  let ?m = "Message txt n (g_groupName (rm_group s)) now"
  note d = followsD [OF f refl]
  have g: "conns ?g = conns (rm_group s)" "group_ok ?g" "g_maxMessages ?g = g_maxMessages (rm_group s)"
      "g_groupName ?g = g_groupName (rm_group s)" "g_users ?g = g_users (rm_group s)"
      "g_messages_queue ?g = g_messages_queue (rm_group s) @ [?m]"
    using room_okD(2) [OF d(1)] by (simp_all add: processReceivedMessage_def conns_users group_ok_def)
  have "room_message (g_groupName (rm_group s)) ?m"
    using ok by (simp add: room_message_def storable_def fits_packet_def)
  then have "talk_ok ?g" using room_okD(3) [OF d(1)] g by (simp add: talk_ok_def)
  moreover have talk: "same_talk s ?t" using g(3) by (simp add: same_talk_def)
  ultimately have "room_ok ?t"
    using room_ok_step [where i = i and j = "rm_entrants s ! i", OF d(1) talk] room_okD [OF d(1)] g d(2,3) by simp
  then show ?thesis using follows_unseen [OF f _ talk, of "[]"] g(1) by simp
qed

lemma follows_leave:
  assumes f: "follows i s" and away: "c \<noteq> f'" "if c = tag then f' \<noteq> en_front_end (rm_entrants s ! i) else c \<noteq> en_client (rm_entrants s ! i)"
    and leave: "handleDisconnectEvent tag (w_primary (rm_world s)) now c f' (rm_group s, rm_counts s) = Some (g, cs)"
  shows "follows i (s\<lparr>rm_group := g, rm_counts := cs\<rparr>)"
proof -
  let ?t = "s\<lparr>rm_group := g, rm_counts := cs\<rparr>" and ?P = "\<lambda>x. fst x = en_client (rm_entrants s ! i)"
  note d = followsD [OF f refl]
  note inv = handleDisconnectEvent_invariant [OF leave room_okD(2) [OF d(1)] away(1)]
  note con = handleDisconnectEvent_conns [OF leave room_okD(2) [OF d(1)] away(1)]
  have talk: "same_talk s ?t" using inv by (simp add: same_talk_def)
  have "set (conns g) \<subseteq> set (conns (rm_group s))" unfolding con
    using set_remove1_subset [of "(c, f')" "conns (rm_group s)"] by auto
  then have "\<forall>x\<in>set (conns g). NUL \<notin> set (fst x)" using room_okD(5) [OF d(1)] by blast
  then have ok: "room_ok ?t"
    using room_ok_step [where i = i and j = "rm_entrants s ! i", OF d(1) talk] room_okD [OF d(1)] inv d(2,3)
      handleDisconnectEvent_talk [OF leave] by simp
  have "filter ?P (conns g) = filter ?P (conns (rm_group s))"
  proof (cases "c = tag")
    case True
    have mine: "filter ?P (conns (rm_group s)) = [] \<or>
        filter ?P (conns (rm_group s)) = [(en_client (rm_entrants s ! i), en_front_end (rm_entrants s ! i))]"
      using stands_mine [OF d(4)] by presburger
    have "filter ?P (conns g) = filter (\<lambda>s. snd s \<noteq> f') (filter ?P (conns (rm_group s)))"
      using True unfolding con by (simp add: conj_commute)
    also have "\<dots> = filter ?P (conns (rm_group s))"
      using mine True away(2) by (elim disjE) (simp_all only: filter.simps snd_conv if_True simp_thms eq_commute [of _ f'])
    finally show ?thesis .
  next
    case False
    then show ?thesis using away(2) filter_remove1_other [of ?P "(c, f')" "conns (rm_group s)"] con by simp
  qed
  then show ?thesis using follows_unseen [OF f ok talk, of "[]"] by simp
qed

definition follows_as :: "nat \<Rightarrow> string \<Rightarrow> string \<Rightarrow> room \<Rightarrow> bool" where
  "follows_as i c f s \<longleftrightarrow> follows i s \<and> en_client (rm_entrants s ! i) = c \<and> en_front_end (rm_entrants s ! i) = f"

lemma room_step_names:
  assumes "room_step ev s = Some t" and "i < length (rm_entrants s)"
  shows "en_client (rm_entrants t ! i) = en_client (rm_entrants s ! i) \<and>
    en_front_end (rm_entrants t ! i) = en_front_end (rm_entrants s ! i)"
proof (cases ev)
  case (Enter i')
  then show ?thesis using assms
    by (cases "i' = i") (auto simp: entrant_step_def entrant_moves_def bind_iff Let_def case_prod_beta split: if_splits entering.splits)
next
  case (Consume e)
  then show ?thesis using assms
    by (auto simp: consumer_step_def bind_iff split: broadcasting.splits list.splits if_splits)
qed (use assms in auto)

lemma follows_step:
  assumes f: "follows_as i c f s" and ok: "room_event_ok c f ev" and step: "room_step ev s = Some t"
  shows "follows_as i c f t"
proof -
  have s: "follows i s" "en_client (rm_entrants s ! i) = c" "en_front_end (rm_entrants s ! i) = f"
    using f by (simp_all add: follows_as_def)
  have "follows i t"
  proof (cases ev)
    case (Consume e)
    then show ?thesis using follows_consumer [OF s(1)] ok step by simp
  next
    case (Enter i')
    then show ?thesis using follows_own [OF s(1)] follows_other [OF s(1), of i'] step by (cases "i' = i") simp_all
  next
    case (Say now n line)
    then show ?thesis using follows_say [OF s(1)] ok step by auto
  next
    case (Leave tag now c' f')
    then show ?thesis using follows_leave [OF s(1), of c' f' tag now] ok step s(2,3) by auto
  qed
  then show ?thesis using s room_step_names [OF step followsD(2) [OF s(1) refl]] by (simp add: follows_as_def)
qed

interpretation rooms: event_machine room_step "room_event_ok c f" "follows_as i c f" for c f :: string and i :: nat
  by unfold_locales (rule follows_step)

subsection \<open>A client's way into the room\<close>

lemma entrant_waits:
  assumes "room_step ev s = Some t" and "ev \<noteq> Enter i"
  shows "rm_entrants t ! i = rm_entrants s ! i"
proof (cases ev)
  case (Enter i')
  then show ?thesis using assms
    by (auto simp: entrant_step_def entrant_moves_def bind_iff Let_def case_prod_beta split: if_splits entering.splits)
next
  case (Consume e)
  then show ?thesis using assms
    by (auto simp: consumer_step_def bind_iff split: broadcasting.splits list.splits if_splits)
qed (use assms in auto)

lemma entrant_waits_run:
  assumes "foldM room_step evs s = Some t" and "\<forall>ev\<in>set evs. ev \<noteq> Enter i"
  shows "rm_entrants t ! i = rm_entrants s ! i"
  using assms
proof (induction evs arbitrary: s)
  case Nil
  then show ?case by simp
next
  case (Cons ev evs)
  then obtain u where "room_step ev s = Some u" "foldM room_step evs u = Some t" by (auto simp: bind_iff)
  then show ?case using Cons.IH [of u] Cons.prems(2) entrant_waits [of ev s u i] by simp
qed

lemma log_grows: "room_step ev s = Some t \<Longrightarrow> \<exists>ls. rm_log t = rm_log s @ ls"
proof (cases ev)
  case (Consume e)
  then show "room_step ev s = Some t \<Longrightarrow> ?thesis"
    by (auto simp: consumer_step_def bind_iff split: broadcasting.splits list.splits if_splits)
next
  case (Enter i')
  then show "room_step ev s = Some t \<Longrightarrow> ?thesis"
    by (auto simp: entrant_step_def entrant_moves_def bind_iff Let_def case_prod_beta split: if_splits entering.splits)
qed auto

lemma log_grows_run: "foldM room_step evs s = Some t \<Longrightarrow> \<exists>ls. rm_log t = rm_log s @ ls"
proof (induction evs arbitrary: s)
  case Nil
  then show ?case by simp
next
  case (Cons ev evs)
  then obtain u where "room_step ev s = Some u" "foldM room_step evs u = Some t" by (auto simp: bind_iff)
  then show ?case using Cons.IH [of u] log_grows [of ev s u] by fastforce
qed

text \<open>The two halves of the way: the accept packet and the reading, the history and the entry.\<close>

lemma reads_log:
  assumes f: "follows i s" and at: "en_at (rm_entrants s ! i) = Arriving" and run: "foldM room_step [Enter i, Enter i] s = Some u"
  shows "en_read (rm_entrants u ! i) = length (rm_log s) \<and> rm_log u = rm_log s \<and> rm_cast u = rm_cast s \<and>
    rm_group u = rm_group s \<and> rm_thread u = rm_thread s"
proof -
  note d = followsD [OF f refl]
  obtain v where v: "entrant_step i s = Some v" "entrant_step i v = Some u" using run by (auto simp: bind_iff)
  have a: "room_ok v" "same_talk s v" "rm_entrants v = (rm_entrants s)[i := (rm_entrants s ! i)\<lparr>en_at := Accepted\<rparr>]"
      "rm_group v = rm_group s"
    using entrant_accepted [OF d(1,2) refl at v(1)] by blast+
  have "same_talk v u" "rm_group u = rm_group v" "rm_entrants u ! i = (rm_entrants v ! i)\<lparr>en_at :=
      Greeting (last_n (history_limit (g_maxMessages (rm_group v))) (rm_log v)), en_read := length (rm_log v)\<rparr>"
    using entrant_reads [OF a(1) _ refl _ v(2)] a(3) d(2) by simp_all
  then show ?thesis using a(2,4) by (simp add: same_talk_def)
qed

lemma enters_cast:
  assumes f: "follows i v" and at: "en_at (rm_entrants v ! i) = Greeting ms" and run: "foldM room_step [Enter i, Enter i] v = Some t"
  shows "en_from (rm_entrants t ! i) = length (rm_cast v) \<and> en_read (rm_entrants t ! i) = en_read (rm_entrants v ! i) \<and>
    rm_log t = rm_log v \<and> rm_cast t = rm_cast v \<and> rm_thread t = rm_thread v"
proof -
  note d = followsD [OF f refl]
  obtain u where u: "entrant_step i v = Some u" "entrant_step i u = Some t" using run by (auto simp: bind_iff)
  have a: "room_ok u" "same_talk v u" "rm_entrants u = (rm_entrants v)[i := (rm_entrants v ! i)\<lparr>en_at := Greeted\<rparr>]"
    using entrant_greets [OF d(1,2) refl at u(1)] by blast+
  obtain r where "same_talk u t" "rm_entrants t ! i = (rm_entrants u ! i)\<lparr>en_at := Entered r, en_from := length (rm_cast u)\<rparr>"
    using entrant_enters [OF a(1) _ refl _ u(2)] a(3) d(2) by auto
  then show ?thesis using a(2,3) d(2) by (simp add: same_talk_def)
qed

lemma reads_then_greets:
  assumes "follows i s" and "en_at (rm_entrants s ! i) = Arriving" and "foldM room_step [Enter i, Enter i] s = Some u"
  shows "\<exists>ms. en_at (rm_entrants u ! i) = Greeting ms"
proof -
  note d = followsD [OF assms(1) refl]
  obtain v where v: "entrant_step i s = Some v" "entrant_step i v = Some u" using assms(3) by (auto simp: bind_iff)
  have a: "room_ok v" "rm_entrants v = (rm_entrants s)[i := (rm_entrants s ! i)\<lparr>en_at := Accepted\<rparr>]"
    using entrant_accepted [OF d(1,2) refl assms(2) v(1)] by blast+
  show ?thesis using entrant_reads [OF a(1) _ refl _ v(2)] a(2) d(2) by simp
qed

lemma entered_waits_run:
  assumes "en_at (rm_entrants s ! i) = Entered r" and "foldM room_step evs s = Some t"
  shows "rm_entrants t ! i = rm_entrants s ! i"
  using assms
proof (induction evs arbitrary: s)
  case Nil
  then show ?case by simp
next
  case (Cons ev evs)
  then obtain u where u: "room_step ev s = Some u" "foldM room_step evs u = Some t" by (auto simp: bind_iff)
  have "ev \<noteq> Enter i" using u(1) Cons.prems(1) by (auto simp: entrant_step_def Let_def split: if_splits)
  then show ?case using Cons.IH [of u] Cons.prems(1) u entrant_waits [of ev s u i] by simp
qed

lemma cast_grows_run: "foldM room_step evs s = Some t \<Longrightarrow> \<exists>ms. rm_cast t = rm_cast s @ ms"
proof (induction evs arbitrary: s)
  case Nil
  then show ?case by simp
next
  case (Cons ev evs)
  then obtain u where u: "room_step ev s = Some u" "foldM room_step evs u = Some t" by (auto simp: bind_iff)
  have "\<exists>ms. rm_cast u = rm_cast s @ ms"
    using u(1) by (cases ev) (auto simp: consumer_step_def entrant_step_def entrant_moves_def bind_iff Let_def case_prod_beta
        split: broadcasting.splits list.splits if_splits entering.splits)
  then show ?case using Cons.IH [OF u(2)] by fastforce
qed

text \<open>What a client has seen that entered, whatever else went on before, meanwhile and afterwards.\<close>

lemma follows_view:
  assumes "follows i s" and "en_at (rm_entrants s ! i) = Entered 0" and "rm_entrants s ! i = j"
  shows "seen_by (en_client j) (socket_of (w_book (rm_world s)) (en_front_end j)) (w_sent (rm_world s)) =
      map said (last_n (history_limit (g_maxMessages (rm_group s))) (take (en_read j) (rm_log s)) @ drop (en_from j) (rm_cast s))"
    "en_read j \<le> length (chats (take (en_from j) (rm_cast s))) + 1" "en_from j \<le> length (rm_cast s)"
  using followsD(4) [OF assms(1,3)] assms(2,3) by (simp_all add: stands_def history_seen_def)

lemma chats_after:
  assumes "room_ok s"
  shows "chats (drop k (rm_cast s)) @ in_hand s = drop (length (chats (take k (rm_cast s)))) (rm_log s)"
proof -
  have "rm_log s = chats (take k (rm_cast s)) @ chats (drop k (rm_cast s)) @ in_hand s"
    using assms by (simp add: room_ok_def chats_def flip: filter_append append_assoc)
  then show ?thesis by simp
qed

text \<open>The consumer thread with one chat message.\<close>

lemma consumer_takes:
  assumes "rm_thread s = Drawing" and "g_messages_queue (rm_group s) = m # ms" and "\<not> m_isNotification m"
    and "foldM room_step [Consume e, Consume e] s = Some t"
  shows "rm_thread t = Sending_Out m \<and> rm_log t = rm_log s @ [m] \<and> rm_cast t = rm_cast s \<and> rm_entrants t = rm_entrants s"
  using assms by (auto simp: consumer_step_def chats_def)

lemma consumer_sends:
  assumes "rm_thread s = Sending_Out m" and "room_step (Consume e) s = Some t"
  shows "rm_log t = rm_log s \<and> rm_cast t = rm_cast s @ [m] \<and> rm_entrants t = rm_entrants s"
  using assms by (auto simp: consumer_step_def bind_iff)

lemma accepts_only:
  assumes f: "follows i s" and at: "en_at (rm_entrants s ! i) = Arriving" and step: "room_step (Enter i) s = Some t"
  shows "en_at (rm_entrants t ! i) = Accepted \<and> rm_log t = rm_log s \<and> rm_cast t = rm_cast s \<and>
    rm_group t = rm_group s \<and> rm_thread t = rm_thread s"
proof -
  note d = followsD [OF f refl]
  have st: "entrant_step i s = Some t" using step by simp
  from entrant_accepted [OF d(1,2) refl at st] d(2) show ?thesis by (auto simp: same_talk_def)
qed

lemma reads_now:
  assumes f: "follows i s" and at: "en_at (rm_entrants s ! i) = Accepted" and step: "room_step (Enter i) s = Some t"
  shows "(\<exists>ms. en_at (rm_entrants t ! i) = Greeting ms) \<and> en_read (rm_entrants t ! i) = length (rm_log s) \<and>
    rm_log t = rm_log s \<and> rm_cast t = rm_cast s \<and> rm_thread t = rm_thread s"
proof -
  note d = followsD [OF f refl]
  have st: "entrant_step i s = Some t" using step by simp
  from entrant_reads [OF d(1,2) refl at st] d(2) show ?thesis by (simp add: same_talk_def)
qed

end
