(* ===== verification/Screens.thy ===== *)
theory Screens
  imports Join_Window
begin

section \<open>From a group to the screens of its members\<close>

text \<open>
  What a room sends to a front end, carried on to the lines that a client shows: the thread of the
  front end that reads from the server (\<open>ProxyFE::listenServerCommunication\<close>) gets packets of
  several types for several clients and passes to each client its own, and the thread of the client
  (\<open>Client::receiveFromServer\<close>) shows the chat messages among them.
\<close>

subsection \<open>What is sent\<close>

text \<open>A packet that the wire carries and the front end can look up.\<close>

definition named_packet :: "packet \<Rightarrow> bool" where
  "named_packet p \<longleftrightarrow> packet_sized p \<and> c_str (p_user_id p) \<noteq> None"

definition sends_named :: "room \<Rightarrow> room \<Rightarrow> bool" where
  "sends_named s t \<longleftrightarrow> socket_of (w_book (rm_world t)) = socket_of (w_book (rm_world s)) \<and>
     (\<exists>out. w_sent (rm_world t) = w_sent (rm_world s) @ out \<and> (\<forall>x\<in>set out. named_packet (snd x)))"

lemma sends_named_refl [simp]: "sends_named s s"
  by (simp add: sends_named_def)

lemma sends_named_trans: "sends_named s t \<Longrightarrow> sends_named t u \<Longrightarrow> sends_named s u"
  by (auto simp: sends_named_def)

lemma packet_for_named: "env_ok e \<Longrightarrow> length c < UUID_SIZE \<Longrightarrow> NUL \<notin> set c \<Longrightarrow> named_packet (packet_for e c m)"
  using packet_for_props [of e c m] by (simp add: named_packet_def)

lemma history_packets_named:
  assumes "env_ok e" and "length c < UUID_SIZE" and "NUL \<notin> set c"
  shows "\<forall>x\<in>set (history_packets e c k ms). named_packet (snd x)"
  using packet_for_named [OF assms] by (auto simp: history_packets_def packet_for_def)

lemma queue_packets_named:
  assumes "env_ok e" and "\<forall>x\<in>set cs. length (fst x) < UUID_SIZE \<and> NUL \<notin> set (fst x)"
  shows "\<forall>x\<in>set (queue_packets e book cs ms). named_packet (snd x)"
  using packet_for_named [OF assms(1)] assms(2) by (auto simp: queue_packets_def broadcast_packets_for)

lemma consumer_sends_named:
  assumes ok: "room_ok s" and e: "env_ok e" and step: "consumer_step e s = Some t"
  shows "sends_named s t"
proof -
  have cs: "\<forall>x\<in>set (conns (rm_group s)). length (fst x) < UUID_SIZE \<and> NUL \<notin> set (fst x)"
    using room_okD(2,5) [OF ok] group_ok_conns by blast
  show ?thesis
    using consumer_step_effect [OF ok e step] queue_packets_named [OF e cs] unfolding sends_named_def by blast
qed

lemma entrant_sends_named:
  assumes ok: "room_ok s" and step: "entrant_step i s = Some t"
  shows "sends_named s t"
proof -
  let ?j = "rm_entrants s ! i"
  have i: "i < length (rm_entrants s)" using step by (simp add: entrant_step_def split: if_splits)
  have j: "env_ok (en_env ?j)" "length (en_client ?j) < UUID_SIZE" "NUL \<notin> set (en_client ?j)"
    using ok i by (auto simp: room_ok_def entrant_ok_def)
  show ?thesis
  proof (cases "en_at ?j")
    case Arriving
    obtain a w where a: "sendAcceptToUser (en_env ?j) (en_client ?j) (en_front_end ?j) (rm_world s) = Some w"
        "packet_sized a" "c_str (p_user_id a) = Some (en_client ?j)"
        "sends_only [(socket_of (w_book (rm_world s)) (en_front_end ?j), a)] (rm_world s) w"
      using sendAcceptToUser_effect [OF j, of "en_front_end ?j" "rm_world s"] by blast
    have "rm_world t = w" using step i Arriving a(1) room_okD(1) [OF ok] by (auto simp: entrant_step_def Let_def)
    then show ?thesis using a(2-4) by (auto simp: sends_named_def named_packet_def sends_only_def)
  next
    case Accepted
    then show ?thesis using entrant_reads [OF ok i refl Accepted step] by (simp add: sends_named_def same_talk_def)
  next
    case (Greeting ms)
    then show ?thesis using entrant_greets [OF ok i refl Greeting step] history_packets_named [OF j]
      unfolding sends_named_def same_talk_def by blast
  next
    case Greeted
    then show ?thesis using entrant_enters [OF ok i refl Greeted step] by (simp add: sends_named_def same_talk_def)
  next
    case (Entered r)
    then show ?thesis using step i by (simp add: entrant_step_def Let_def)
  qed
qed

lemma room_sends_named:
  assumes "room_ok s" and "room_event_ok c f ev" and "room_step ev s = Some t"
  shows "sends_named s t"
  using assms consumer_sends_named entrant_sends_named by (cases ev) (auto simp: sends_named_def)

lemma run_sends_named:
  assumes "foldM room_step evs s = Some t" and "\<forall>ev\<in>set evs. room_event_ok c f ev" and "follows_as i c f s"
  shows "sends_named s t"
proof -
  have "sends_named s t \<and> follows_as i c f t"
    using assms(1)
  proof (rule foldM_invariant)
    show "sends_named s s \<and> follows_as i c f s" using assms(3) by simp
    fix ev u v
    assume ev: "ev \<in> set evs" and u: "sends_named s u \<and> follows_as i c f u" and st: "room_step ev u = Some v"
    have "room_event_ok c f ev" using assms(2) ev by blast
    moreover have "room_ok u" using u followsD(1) by (auto simp: follows_as_def)
    ultimately show "sends_named s v \<and> follows_as i c f v"
      using room_sends_named [OF _ _ st] sends_named_trans u follows_step [OF _ _ st] by blast
  qed
  then show ?thesis ..
qed

subsection \<open>Through the front end\<close>

definition messages :: "packet list \<Rightarrow> packet list" where
  "messages = filter (\<lambda>p. p_type p = MESSAGE_PACKET)"

lemma routed_named:
  assumes e: "env_ok e" and ps: "\<forall>p\<in>set ps. named_packet p"
    and sw: "sw c = Some s" "\<forall>u. sw u = Some s \<longrightarrow> u = c"
  shows "(\<forall>q\<in>set (sent_to s (concat (map (routed sw) (map (Pair e) ps)))). packet_sized q) \<and>
    messages (sent_to s (concat (map (routed sw) (map (Pair e) ps)))) =
      filter (\<lambda>p. p_type p = MESSAGE_PACKET \<and> c_str (p_user_id p) = Some c) ps"
  using ps
proof (induction ps)
  case Nil
  then show ?case by (simp add: messages_def)
next
  case (Cons p ps)
  obtain u where u: "c_str (p_user_id p) = Some u" "packet_sized p" using Cons.prems by (auto simp: named_packet_def)
  have reply: "client_reply e p = Some q \<Longrightarrow> packet_sized q \<and> p_type q = p_type p" for q
    using Packet_of_type_defined [of "e_mem e" "e_uuid e" "p_type p"] e u(2)
    by (auto simp: client_reply_def env_ok_def UUID_SIZE_def split: if_splits)
  have whole: "p_type p = MESSAGE_PACKET \<Longrightarrow> client_reply e p = Some p" by (simp add: client_reply_def)
  have "(\<forall>q\<in>set (sent_to s (routed sw (e, p))). packet_sized q) \<and> messages (sent_to s (routed sw (e, p))) =
      filter (\<lambda>p. p_type p = MESSAGE_PACKET \<and> c_str (p_user_id p) = Some c) [p]"
  proof (cases "sw u = Some s")
    case True
    then have "u = c" using sw(2) by simp
    then have c: "c_str (p_user_id p) = Some c" "sw c = Some s" using u(1) sw(1) by simp_all
    show ?thesis
    proof (cases "client_reply e p")
      case None
      then show ?thesis using whole by (auto simp: routed_def messages_def)
    next
      case (Some q)
      then show ?thesis using c reply [OF Some] whole by (auto simp: routed_def messages_def)
    qed
  next
    case False
    then have "u \<noteq> c" using sw(1) by auto
    then show ?thesis using False u
      by (cases "client_reply e p"; cases "sw u") (auto simp: routed_def messages_def)
  qed
  then show ?case using Cons by (auto simp: messages_def)
qed

lemma front_end_passes_on:
  assumes e: "env_ok e" and ps: "\<forall>p\<in>set ps. named_packet p" and px: "tables_ok px" "switch px c = Some s"
    and wire: "wire_carries ps as"
  shows "\<exists>px'. packets_read as = Some ps \<and> listenServerCommunication (map (Pair e) ps) sock px = Some px' \<and>
    (\<forall>q\<in>set (sent_to s (drop (length (px_sent px)) (px_sent px'))). packet_sized q) \<and>
    messages (sent_to s (drop (length (px_sent px)) (px_sent px'))) =
      filter (\<lambda>p. p_type p = MESSAGE_PACKET \<and> c_str (p_user_id p) = Some c) ps"
proof -
  have read: "packets_read as = Some ps" using packets_read_carried [OF wire] ps by (simp add: named_packet_def)
  obtain px' where px': "listenServerCommunication (map (Pair e) ps) sock px = Some px'"
    using listenServerCommunication_returns [of "map (Pair e) ps" sock px] ps e by (auto simp: named_packet_def)
  have sent: "px_sent px' = px_sent px @ concat (map (routed (switch px)) (map (Pair e) ps))"
    using listenServerCommunication_routes [OF px'] by blast
  have "\<forall>u. switch px u = Some s \<longrightarrow> u = c" using switch_injective [OF px(1) _ px(2)] by blast
  note routed_named [OF e ps px(2) this]
  then show ?thesis using read px' sent by auto
qed

subsection \<open>On the screen\<close>

text \<open>The lines of a client with this name are these messages, each shown at some time of day.\<close>

definition shown_as :: "string \<Rightarrow> string list \<Rightarrow> message list \<Rightarrow> bool" where
  "shown_as me = list_all2 (\<lambda>l m. l \<in> range (\<lambda>now. chat_line me now m))"

lemma receiveFromServer_shows:
  assumes "map (\<lambda>p. (c_str (p_username p), c_str (p_message p))) (messages qs) = map said ms"
  shows "\<exists>lines acks. receiveFromServer clock qs cl = Some (lines, acks) \<and> shown_as (cl_username cl) lines ms"
  using assms
proof (induction qs arbitrary: ms)
  case Nil
  then show ?case by (simp add: messages_def shown_as_def)
next
  case (Cons q qs)
  show ?case
  proof (cases "p_type q = MESSAGE_PACKET")
    case True
    then obtain m ms' where ms: "ms = m # ms'" "c_str (p_username q) = Some (m_user m)" "c_str (p_message q) = Some (m_text m)"
        "map (\<lambda>p. (c_str (p_username p), c_str (p_message p))) (messages qs) = map said ms'"
      using Cons.prems by (cases ms) (auto simp: messages_def said_def)
    have "showMessage (clock q) q cl = Some (chat_line (cl_username cl) (clock q) m)"
      using ms(2,3) by (simp add: showMessage_def chat_line_def case_prod_beta Let_def)
    then show ?thesis using Cons.IH [OF ms(4)] True ms(1) by (auto simp: shown_as_def)
  next
    case False
    then obtain lines acks where "receiveFromServer clock qs cl = Some (lines, acks)" "shown_as (cl_username cl) lines ms"
      using Cons.IH [of ms] Cons.prems by (auto simp: messages_def)
    then show ?thesis using False by simp
  qed
qed

text \<open>
  All the way: what a room has sent since a client's thread arrived, through a front end into which the client is
  plugged, to the client's screen.
\<close>

lemma room_to_screen:
  assumes start: "follows_as i c f s" "en_at (rm_entrants s ! i) = Arriving"
    and run: "foldM room_step evs s = Some t" "\<forall>ev\<in>set evs. room_event_ok c f ev"
    and seen: "seen_by c (socket_of (w_book (rm_world t)) f) (w_sent (rm_world t)) = map said ms"
    and px: "tables_ok px" "switch px c = Some cs" and e: "env_ok e"
    and wire: "wire_carries (sent_to (socket_of (w_book (rm_world t)) f)
      (drop (length (w_sent (rm_world s))) (w_sent (rm_world t)))) as"
  shows "\<exists>ps px'. packets_read as = Some ps \<and> listenServerCommunication (map (Pair e) ps) sock px = Some px' \<and>
    (\<forall>as'. wire_carries (sent_to cs (drop (length (px_sent px)) (px_sent px'))) as' \<longrightarrow>
      (\<exists>ps' lines acks. packets_read as' = Some ps' \<and> receiveFromServer clock ps' cl = Some (lines, acks) \<and>
        shown_as (cl_username cl) lines ms))"
proof -
  let ?k = "socket_of (w_book (rm_world t)) f"
  obtain out where out: "w_sent (rm_world t) = w_sent (rm_world s) @ out" "\<forall>x\<in>set out. named_packet (snd x)"
      "socket_of (w_book (rm_world t)) = socket_of (w_book (rm_world s))"
    using run_sends_named [OF run start(1)] by (auto simp: sends_named_def)
  have fs: "follows i s" "en_client (rm_entrants s ! i) = c" "en_front_end (rm_entrants s ! i) = f"
    using start(1) by (simp_all add: follows_as_def)
  have "seen_by c (socket_of (w_book (rm_world s)) f) (w_sent (rm_world s)) = []"
    using followsD(4) [OF fs(1) refl] start(2) fs(2,3) by (simp add: stands_def Let_def)
  then have mine: "seen_by c ?k out = map said ms" using seen out(1,3) by simp
  have named: "\<forall>p\<in>set (sent_to ?k out). named_packet p" using out(2) by (auto simp: sent_to_def)
  have w: "wire_carries (sent_to ?k out) as" using wire out(1) by simp
  from front_end_passes_on [OF e named px w] obtain px' where
      fwd: "packets_read as = Some (sent_to ?k out)" "listenServerCommunication (map (Pair e) (sent_to ?k out)) sock px = Some px'"
        "\<forall>q\<in>set (sent_to cs (drop (length (px_sent px)) (px_sent px'))). packet_sized q"
        "messages (sent_to cs (drop (length (px_sent px)) (px_sent px'))) =
          filter (\<lambda>p. p_type p = MESSAGE_PACKET \<and> c_str (p_user_id p) = Some c) (sent_to ?k out)"
    by blast
  have "map (\<lambda>p. (c_str (p_username p), c_str (p_message p))) (messages (sent_to cs (drop (length (px_sent px)) (px_sent px')))) = map said ms"
    using mine unfolding fwd(4) by (simp add: seen_by_def)
  note receiveFromServer_shows [OF this, of clock cl]
  then show ?thesis using fwd(1,2) packets_read_carried fwd(3) by blast
qed

end
