(* ===== verification/File_Race.thy ===== *)
theory File_Race
  imports History_Log
begin

section \<open>The file of a group, used by several threads\<close>

text \<open>
  No semaphore protects the file of a group: its consumer thread appends to it
  (\<open>appendGroupMessageToHistory\<close>) while any number of listening threads read it for clients that
  join (\<open>readGroupHistoryMessages\<close>), and both first crop it (\<open>cropToFileHistoryLimit\<close>) through the same
  temporary file. Here the file system has directory entries that point to files, as a stream
  goes on with the file it has opened when the entry is removed or renamed; each call of
  the operating system is a step: opening a stream for appending, each line written (\<open>endl\<close> flushes
  it), \<open>remove\<close> and \<open>rename\<close>. Reading all lines of a file is one step.
\<close>

record posix =
  ps_dir :: "(string, nat) cmap"
  ps_data :: "string list"

definition path_content :: "posix \<Rightarrow> string \<Rightarrow> string" where
  "path_content fs path = (case map_find (ps_dir fs) path of None \<Rightarrow> [] | Some k \<Rightarrow> ps_data fs ! k)"

definition open_append :: "posix \<Rightarrow> string \<Rightarrow> nat \<times> posix" where
  "open_append fs path = (case map_find (ps_dir fs) path of
     Some k \<Rightarrow> (k, fs)
   | None \<Rightarrow> (length (ps_data fs),
       fs\<lparr>ps_dir := map_assign (ps_dir fs) path (length (ps_data fs)), ps_data := ps_data fs @ [[]]\<rparr>))"

definition write_to :: "nat \<Rightarrow> string \<Rightarrow> posix \<Rightarrow> posix" where
  "write_to k txt fs = fs\<lparr>ps_data := (ps_data fs)[k := ps_data fs ! k @ txt]\<rparr>"

definition unlink :: "string \<Rightarrow> posix \<Rightarrow> posix" where
  "unlink path fs = fs\<lparr>ps_dir := map_erase (ps_dir fs) path\<rparr>"

definition rename_path :: "string \<Rightarrow> string \<Rightarrow> posix \<Rightarrow> posix" where
  "rename_path old new fs = (case map_find (ps_dir fs) old of
     None \<Rightarrow> fs
   | Some k \<Rightarrow> fs\<lparr>ps_dir := map_assign (map_erase (ps_dir fs) old) new k\<rparr>)"

datatype file_job = Append message | Read

datatype file_at =
  Opening | Cropping "string list" | Copying nat "string list" | Renaming | Ready | Appending nat
| Finished "string list"  \<comment> \<open>the lines that a reader has read\<close>

record file_thread =
  ft_job :: file_job
  ft_at :: file_at

record file_state =
  fl_fs :: posix
  fl_threads :: "file_thread list"

definition kept_lines :: "int \<Rightarrow> bool \<Rightarrow> string list \<Rightarrow> string list" where
  \<comment> \<open>the lines that the loop of \<open>cropToFileHistoryLimit\<close> copies\<close>
  "kept_lines limit isWrite lines =
     map (\<lambda>i. lines ! nat i)
       (filter (\<lambda>i. i > 0) [int (length lines) - (limit - (if isWrite then 1 else 0))..int (length lines) - 1])"

definition thread_moves :: "nat \<Rightarrow> file_at \<Rightarrow> posix \<Rightarrow> file_state \<Rightarrow> file_state" where
  "thread_moves i a fs s =
     s\<lparr>fl_fs := fs, fl_threads := (fl_threads s)[i := (fl_threads s ! i)\<lparr>ft_at := a\<rparr>]\<rparr>"

definition file_step :: "int \<Rightarrow> string \<Rightarrow> nat \<Rightarrow> file_state \<Rightarrow> file_state option" where
  \<comment> \<open>for the group \<open>grp\<close>, whose file system manager has the limit \<open>maxMessages\<close>\<close>
  "file_step maxMessages grp i s =
     (if i < length (fl_threads s) then
        (let job = ft_job (fl_threads s ! i); fs = fl_fs s; limit = getMaxNumberOfMessagesInHistory maxMessages in
         case ft_at (fl_threads s ! i) of
           Opening \<Rightarrow>
             (let lines = getlines LF (path_content fs (groupFile grp))
              in if int (length lines) > limit
                 then Some (thread_moves i (Cropping (kept_lines limit (job \<noteq> Read) lines)) fs s)
                 else Some (thread_moves i Ready fs s))
         | Cropping ls \<Rightarrow>
             (let (k, fs') = open_append fs (tempGroupFile grp) in Some (thread_moves i (Copying k ls) fs' s))
         | Copying k (l # ls) \<Rightarrow> Some (thread_moves i (Copying k ls) (write_to k (l @ [LF]) fs) s)
         | Copying k [] \<Rightarrow> Some (thread_moves i Renaming (unlink (groupFile grp) fs) s)
         | Renaming \<Rightarrow> Some (thread_moves i Ready (rename_path (tempGroupFile grp) (groupFile grp) fs) s)
         | Ready \<Rightarrow>
             (case job of
                Append m \<Rightarrow> (let (k, fs') = open_append fs (groupFile grp) in Some (thread_moves i (Appending k) fs' s))
              | Read \<Rightarrow> Some (thread_moves i (Finished (getlines LF (path_content fs (groupFile grp)))) fs s))
         | Appending k \<Rightarrow>
             (case job of
                Append m \<Rightarrow> Some (thread_moves i (Finished []) (write_to k (message_line m @ [LF]) fs) s)
              | Read \<Rightarrow> None)
         | Finished ls \<Rightarrow> None)
      else None)"

subsection \<open>The file system\<close>

text \<open>What the names stand for, as the map from paths to contents of the other theories.\<close>

definition flat :: "posix \<Rightarrow> files" where
  "flat fs = map (\<lambda>(p, k). (p, ps_data fs ! k)) (ps_dir fs)"

definition posix_ok :: "posix \<Rightarrow> bool" where
  "posix_ok fs \<longleftrightarrow> map_wf (ps_dir fs) \<and>
     (\<forall>p k. map_find (ps_dir fs) p = Some k \<longrightarrow> k < length (ps_data fs)) \<and>
     (\<forall>p q k. map_find (ps_dir fs) p = Some k \<longrightarrow> map_find (ps_dir fs) q = Some k \<longrightarrow> p = q)"

lemma flat_find: "map_find (flat fs) p = map_option ((!) (ps_data fs)) (map_find (ps_dir fs) p)"
  unfolding flat_def by (rule map_find_map)

lemma flat_wf: "posix_ok fs \<Longrightarrow> map_wf (flat fs)"
  by (simp add: flat_def posix_ok_def)

lemma flat_content: "file_content (flat fs) p = path_content fs p"
  by (simp add: file_content_def path_content_def flat_find split: option.split)

lemma open_append_ok:
  assumes "posix_ok fs" and "open_append fs path = (k, fs')"
  shows "posix_ok fs'" "map_find (ps_dir fs') path = Some k" "path_content fs' q = path_content fs q"
    "k < length (ps_data fs')"
proof -
  have fresh: "map_find (ps_dir fs) q \<noteq> Some (length (ps_data fs))" for q
    using assms(1) by (auto simp: posix_ok_def)
  have old: "map_find (ps_dir fs) q = Some j \<Longrightarrow> j < length (ps_data fs)" for q j
    using assms(1) by (simp add: posix_ok_def)
  show "posix_ok fs'"
    using assms fresh by (auto simp: open_append_def posix_ok_def less_Suc_eq split: option.splits if_splits)
  show "map_find (ps_dir fs') path = Some k" "k < length (ps_data fs')"
    using assms(2) old by (auto simp: open_append_def split: option.splits)
  show "path_content fs' q = path_content fs q"
    using assms(2) old by (auto simp: open_append_def path_content_def nth_append split: option.splits if_splits)
qed

lemma write_to_ok:
  assumes "posix_ok fs"
  shows "posix_ok (write_to k line fs)" "ps_dir (write_to k line fs) = ps_dir fs"
    "map_find (ps_dir fs) p = Some k \<Longrightarrow> path_content (write_to k line fs) q = path_content fs q @ (if q = p then line else [])"
  using assms by (auto simp: write_to_def posix_ok_def path_content_def nth_list_update split: option.splits)

lemma unlink_ok:
  assumes "posix_ok fs"
  shows "posix_ok (unlink path fs)" "flat (unlink path fs) = remove_file (flat fs) path"
proof -
  show ok: "posix_ok (unlink path fs)"
    using assms by (auto simp: unlink_def posix_ok_def split: if_splits)
  have wf: "map_wf (ps_dir fs)" using assms by (simp add: posix_ok_def)
  show "flat (unlink path fs) = remove_file (flat fs) path"
    by (rule map_ext) (use flat_wf [OF ok] flat_wf [OF assms] wf in \<open>auto simp: remove_file_def flat_find unlink_def\<close>)
qed

lemma rename_path_ok:
  assumes "posix_ok fs" and "old \<noteq> new"
  shows "posix_ok (rename_path old new fs)" "flat (rename_path old new fs) = rename_file (flat fs) old new"
proof -
  have wf: "map_wf (ps_dir fs)" using assms by (simp add: posix_ok_def)
  show ok: "posix_ok (rename_path old new fs)"
    using assms by (auto simp: rename_path_def posix_ok_def split: option.splits if_splits)
  show "flat (rename_path old new fs) = rename_file (flat fs) old new"
  proof (rule map_ext)
    show "map_wf (flat (rename_path old new fs))" by (rule flat_wf [OF ok])
    show "map_wf (rename_file (flat fs) old new)"
      using flat_wf [OF assms(1)] by (auto simp: rename_file_def split: option.split)
    show "map_find (flat (rename_path old new fs)) k = map_find (rename_file (flat fs) old new) k" for k
      using wf flat_wf [OF assms(1)] by (auto simp: rename_file_def rename_path_def flat_find split: option.split)
  qed
qed

lemma append_flat:
  assumes "posix_ok fs" and "open_append fs path = (k, fs')"
  shows "flat (write_to k txt fs') = append_file (flat fs) path txt"
proof (rule map_ext)
  note opened = open_append_ok [OF assms]
  show "map_wf (flat (write_to k txt fs'))" by (rule flat_wf [OF write_to_ok(1) [OF opened(1)]])
  show "map_wf (append_file (flat fs) path txt)" using flat_wf [OF assms(1)] by (simp add: append_file_def)
  show "map_find (flat (write_to k txt fs')) q = map_find (append_file (flat fs) path txt) q" for q
  proof (cases "q = path")
    case True
    have "path_content (write_to k txt fs') path = path_content fs path @ txt"
      using write_to_ok(3) [OF opened(1,2), where line = "txt" and q = path] opened(3) by simp
    moreover have "map_find (ps_dir (write_to k txt fs')) path = Some k"  using opened(2) by (simp add: write_to_def)
    ultimately show ?thesis using True by (simp add: flat_find append_file_def flat_content path_content_def)
  next
    case False
    have old: "map_find (ps_dir fs) q = Some j \<Longrightarrow> j < length (ps_data fs)" for j
      using assms(1) by (simp add: posix_ok_def)
    have apart: "map_find (ps_dir fs) q = Some j \<Longrightarrow> map_find (ps_dir fs) path \<noteq> Some j" for j
      using assms(1) False by (auto simp: posix_ok_def)
    show ?thesis
    proof (cases "map_find (ps_dir fs) path")
      case None
      then have fs': "k = length (ps_data fs)" "fs' = fs\<lparr>ps_dir := map_assign (ps_dir fs) path k, ps_data := ps_data fs @ [[]]\<rparr>"
        using assms(2) by (auto simp: open_append_def)
      then show ?thesis using False old
        by (cases "map_find (ps_dir fs) q") (auto simp: flat_find append_file_def write_to_def nth_append)
    next
      case (Some j)
      then have "k = j" "fs' = fs" using assms(2) by (simp_all add: open_append_def)
      then show ?thesis using False Some apart
        by (cases "map_find (ps_dir fs) q") (auto simp: flat_find append_file_def write_to_def)
    qed
  qed
qed

subsection \<open>The lines that cropping keeps\<close>

lemma kept_lines_written:
  "unlines LF (kept_lines limit w lines) = concat (map (\<lambda>i. if i > 0 then lines ! nat i @ [LF] else [])
     [int (length lines) - (limit - (if w then 1 else 0))..int (length lines) - 1])"
proof -
  have "unlines LF (map f (filter P xs)) = concat (map (\<lambda>i. if P i then f i @ [LF] else []) xs)"
    for f :: "int \<Rightarrow> string" and P xs
    by (induction xs) simp_all
  then show ?thesis by (simp add: kept_lines_def)
qed

lemma lines_from:
  "0 < s \<Longrightarrow> map (\<lambda>i. lines ! nat i) (filter (\<lambda>i. i > 0) [int s..int (length lines) - 1]) = drop s lines"
proof (induction "length lines - s" arbitrary: s)
  case 0
  then show ?case by simp
next
  case (Suc k)
  then have s: "s < length lines" by simp
  then have "[int s..int (length lines) - 1] = int s # [int (Suc s)..int (length lines) - 1]"
    by (simp add: upto_rec1 add.commute)
  moreover have "map (\<lambda>i. lines ! nat i) (filter (\<lambda>i. i > 0) [int (Suc s)..int (length lines) - 1]) = drop (Suc s) lines"
    using Suc.hyps by (intro Suc.hyps(1)) simp_all
  moreover have "drop s lines = lines ! s # drop (Suc s) lines" using s by (simp add: Cons_nth_drop_Suc)
  ultimately show ?case using Suc.prems by simp
qed

lemma kept_lines_last:
  assumes "history_limit mx < length lines"
  shows "kept_lines (getMaxNumberOfMessagesInHistory mx) w lines = last_n (history_limit mx - (if w then 1 else 0)) lines"
proof -
  let ?d = "if w then 1 else 0 :: nat"
  have "?d \<le> history_limit mx" by (cases w) (simp_all add: Suc_le_eq)
  then have eq: "int (length lines) - (getMaxNumberOfMessagesInHistory mx - (if w then 1 else 0)) =
      int (length lines - (history_limit mx - ?d))"
    using assms by (auto simp: getMax_history_limit)
  have "0 < length lines - (history_limit mx - ?d)" using assms by simp
  from lines_from [OF this] show ?thesis unfolding kept_lines_def last_n_def eq .
qed

subsection \<open>One thread alone\<close>

lemma thread_moves_simps [simp]:
  "fl_fs (thread_moves i a fs s) = fs" "length (fl_threads (thread_moves i a fs s)) = length (fl_threads s)"
  "i < length (fl_threads s) \<Longrightarrow> fl_threads (thread_moves i a fs s) ! i = (fl_threads s ! i)\<lparr>ft_at := a\<rparr>"
  "j \<noteq> i \<Longrightarrow> fl_threads (thread_moves i a fs s) ! j = fl_threads s ! j"
  "i < length (fl_threads s) \<Longrightarrow> thread_moves i a fs (thread_moves i b fs' s) = thread_moves i a fs s"
  by (simp_all add: thread_moves_def)

lemma copying_runs:
  assumes "i < length (fl_threads s)" and "ft_at (fl_threads s ! i) = Copying k ls" and "k < length (ps_data (fl_fs s))"
  shows "foldM (file_step mx grp) (replicate (length ls) i) s =
    Some (thread_moves i (Copying k []) (write_to k (unlines LF ls) (fl_fs s)) s)"
  using assms
proof (induction ls arbitrary: s)
  case Nil
  have "(fl_threads s)[i := (fl_threads s ! i)\<lparr>ft_at := Copying k []\<rparr>] = fl_threads s"
    using Nil.prems list_update_id [of "fl_threads s" i] by (cases "fl_threads s ! i") simp
  then show ?case using Nil.prems by (simp add: thread_moves_def write_to_def)
next
  case (Cons l ls)
  let ?t = "thread_moves i (Copying k ls) (write_to k (l @ [LF]) (fl_fs s)) s"
  have "file_step mx grp i s = Some ?t" using Cons.prems by (simp add: file_step_def Let_def)
  moreover have "foldM (file_step mx grp) (replicate (length ls) i) ?t =
      Some (thread_moves i (Copying k []) (write_to k (unlines LF ls) (fl_fs ?t)) ?t)"
    using Cons.prems by (intro Cons.IH) (simp_all add: write_to_def)
  moreover have "write_to k (unlines LF ls) (write_to k (l @ [LF]) (fl_fs s)) = write_to k (unlines LF (l # ls)) (fl_fs s)"
    using Cons.prems(3) by (simp add: write_to_def)
  ultimately show ?case using Cons.prems(1) by simp
qed

lemma crop_alone:
  assumes ok: "posix_ok (fl_fs s)" and i: "i < length (fl_threads s)" "ft_at (fl_threads s ! i) = Opening"
  shows "\<exists>n fs. foldM (file_step mx grp) (replicate n i) s = Some (thread_moves i Ready fs s) \<and> posix_ok fs \<and>
    flat fs = cropToFileHistoryLimit mx grp (ft_job (fl_threads s ! i) \<noteq> Read) (flat (fl_fs s))"
proof -
  let ?limit = "getMaxNumberOfMessagesInHistory mx" and ?w = "ft_job (fl_threads s ! i) \<noteq> Read" and ?fs = "fl_fs s"
  let ?lines = "getlines LF (path_content ?fs (groupFile grp))"
  show ?thesis
  proof (cases "int (length ?lines) > ?limit")
    case False
    then have "file_step mx grp i s = Some (thread_moves i Ready ?fs s)" using i by (simp add: file_step_def Let_def)
    then show ?thesis
      using ok False by (intro exI [of _ 1] exI [of _ ?fs]) (simp add: cropToFileHistoryLimit_def Let_def flat_content)
  next
    case True
    let ?ls = "kept_lines ?limit ?w ?lines"
    obtain k fs1 where op: "open_append ?fs (tempGroupFile grp) = (k, fs1)" by fastforce
    note opened = open_append_ok [OF ok op]
    let ?fs2 = "write_to k (unlines LF ?ls) fs1"
    let ?fs3 = "unlink (groupFile grp) ?fs2"
    let ?fs4 = "rename_path (tempGroupFile grp) (groupFile grp) ?fs3"
    have w: "posix_ok ?fs2" using write_to_ok(1) [OF opened(1)] .
    note u = unlink_ok [OF w, of "groupFile grp"]
    note r = rename_path_ok [OF u(1), of "tempGroupFile grp" "groupFile grp", simplified]
    let ?s1 = "thread_moves i (Cropping ?ls) ?fs s" and ?s2 = "thread_moves i (Copying k ?ls) fs1 s"
    have "file_step mx grp i s = Some ?s1" using i True by (simp add: file_step_def Let_def)
    moreover have "file_step mx grp i ?s1 = Some ?s2" using i op by (simp add: file_step_def Let_def)
    moreover have "foldM (file_step mx grp) (replicate (length ?ls) i) ?s2 = Some (thread_moves i (Copying k []) ?fs2 s)"
      using copying_runs [of i ?s2 k ?ls mx grp] i opened(4) by simp
    moreover have "file_step mx grp i (thread_moves i (Copying k []) ?fs2 s) = Some (thread_moves i Renaming ?fs3 s)"
      using i by (simp add: file_step_def Let_def)
    moreover have "file_step mx grp i (thread_moves i Renaming ?fs3 s) = Some (thread_moves i Ready ?fs4 s)"
      using i by (simp add: file_step_def Let_def)
    ultimately have "foldM (file_step mx grp) ([i, i] @ replicate (length ?ls) i @ [i, i]) s = Some (thread_moves i Ready ?fs4 s)"
      by (simp add: foldM_append)
    moreover have "[i, i] @ replicate (length ?ls) i @ [i, i] = replicate (length ?ls + 4) i"
      by (simp add: replicate_add numeral_eq_Suc replicate_app_Cons_same)
    moreover have "flat ?fs4 = cropToFileHistoryLimit mx grp ?w (flat ?fs)"
      using r(2) u(2) append_flat [OF ok op, of "unlines LF ?ls"] True
      by (simp add: cropToFileHistoryLimit_def Let_def flat_content kept_lines_written)
    ultimately show ?thesis using r(1) by metis
  qed
qed

text \<open>A thread that is not disturbed does what the operations of theory \<open>History\<close> do.\<close>

lemma append_alone:
  assumes ok: "posix_ok (fl_fs s)" and i: "i < length (fl_threads s)" "fl_threads s ! i = \<lparr>ft_job = Append m, ft_at = Opening\<rparr>"
    and m: "\<not> m_isNotification m" "m_group m = grp"
  shows "\<exists>n fs. foldM (file_step mx grp) (replicate n i) s = Some (thread_moves i (Finished []) fs s) \<and> posix_ok fs \<and>
    flat fs = appendGroupMessageToHistory mx m (flat (fl_fs s))"
proof -
  obtain n fs where crop: "foldM (file_step mx grp) (replicate n i) s = Some (thread_moves i Ready fs s)" "posix_ok fs"
      "flat fs = cropToFileHistoryLimit mx grp True (flat (fl_fs s))"
    using crop_alone [OF ok i(1), of mx grp] i(2) by auto
  obtain k fs1 where op: "open_append fs (groupFile grp) = (k, fs1)" by fastforce
  let ?fs2 = "write_to k (message_line m @ [LF]) fs1"
  have "file_step mx grp i (thread_moves i Ready fs s) = Some (thread_moves i (Appending k) fs1 s)"
    using i op by (simp add: file_step_def Let_def)
  moreover have "file_step mx grp i (thread_moves i (Appending k) fs1 s) = Some (thread_moves i (Finished []) ?fs2 s)"
    using i by (simp add: file_step_def Let_def)
  ultimately have "foldM (file_step mx grp) (replicate n i @ [i, i]) s = Some (thread_moves i (Finished []) ?fs2 s)"
    using crop(1) by (simp add: foldM_append)
  moreover have "replicate n i @ [i, i] = replicate (n + 2) i" by (simp add: replicate_app_Cons_same)
  moreover have "flat ?fs2 = appendGroupMessageToHistory mx m (flat (fl_fs s))"
    using append_flat [OF crop(2) op] crop(3) m by (simp add: appendGroupMessageToHistory_def)
  ultimately show ?thesis using write_to_ok(1) [OF open_append_ok(1) [OF crop(2) op]] by metis
qed

lemma read_alone:
  assumes ok: "posix_ok (fl_fs s)" and i: "i < length (fl_threads s)" "fl_threads s ! i = \<lparr>ft_job = Read, ft_at = Opening\<rparr>"
  shows "\<exists>n fs ls. foldM (file_step mx grp) (replicate n i) s = Some (thread_moves i (Finished ls) fs s) \<and> posix_ok fs \<and>
    readGroupHistoryMessages mx grp (flat (fl_fs s)) = map_option (\<lambda>ms. (ms, flat fs)) (parse_rows grp ls)"
proof -
  obtain n fs where crop: "foldM (file_step mx grp) (replicate n i) s = Some (thread_moves i Ready fs s)" "posix_ok fs"
      "flat fs = cropToFileHistoryLimit mx grp False (flat (fl_fs s))"
    using crop_alone [OF ok i(1), of mx grp] i(2) by auto
  let ?ls = "getlines LF (path_content fs (groupFile grp))"
  have "file_step mx grp i (thread_moves i Ready fs s) = Some (thread_moves i (Finished ?ls) fs s)"
    using i by (simp add: file_step_def Let_def)
  then have "foldM (file_step mx grp) (replicate n i @ [i]) s = Some (thread_moves i (Finished ?ls) fs s)"
    using crop(1) by (simp add: foldM_append)
  moreover have "replicate n i @ [i] = replicate (n + 1) i" by (simp add: replicate_app_Cons_same)
  moreover have "readGroupHistoryMessages mx grp (flat (fl_fs s)) = map_option (\<lambda>ms. (ms, flat fs)) (parse_rows grp ?ls)"
    by (simp add: readGroupHistoryMessages_def Let_def flip: crop(3) flat_content)
  ultimately show ?thesis using crop(2) by metis
qed

subsection \<open>Below the limit\<close>

text \<open>
  As long as the file cannot grow past the limit no thread crops it. Then every line written is
  there, after those before, whatever the schedule, and every reader has read a beginning of the file.
\<close>

definition appends :: "file_state \<Rightarrow> nat list" where
  "appends s = filter (\<lambda>i. ft_job (fl_threads s ! i) \<noteq> Read) [0..<length (fl_threads s)]"

definition line_of :: "file_state \<Rightarrow> nat \<Rightarrow> string" where
  "line_of s i = (case ft_job (fl_threads s ! i) of Append m \<Rightarrow> message_line m | Read \<Rightarrow> [])"

fun file_at_ok :: "string \<Rightarrow> posix \<Rightarrow> file_job \<Rightarrow> string list \<Rightarrow> file_at \<Rightarrow> bool" where
  "file_at_ok grp fs job lines Opening = True"
| "file_at_ok grp fs job lines Ready = True"
| "file_at_ok grp fs job lines (Appending k) \<longleftrightarrow> job \<noteq> Read \<and> map_find (ps_dir fs) (groupFile grp) = Some k"
| "file_at_ok grp fs job lines (Finished x) \<longleftrightarrow> (job = Read \<longrightarrow> (\<exists>n\<le>length lines. x = take n lines))"
| "file_at_ok grp fs job lines _ = False"

definition has_written :: "file_state \<Rightarrow> nat set" where
  "has_written s = {i. i < length (fl_threads s) \<and> ft_job (fl_threads s ! i) \<noteq> Read \<and>
     (\<exists>x. ft_at (fl_threads s ! i) = Finished x)}"

definition written_ok :: "string \<Rightarrow> string list \<Rightarrow> nat list \<Rightarrow> file_state \<Rightarrow> bool" where
  \<comment> \<open>the file began with \<open>ls\<close>, the threads \<open>order\<close> have written their lines\<close>
  "written_ok grp ls order s \<longleftrightarrow> posix_ok (fl_fs s) \<and>
     path_content (fl_fs s) (groupFile grp) = unlines LF (ls @ map (line_of s) order) \<and>
     distinct order \<and> set order = has_written s \<and>
     (\<forall>i<length (fl_threads s).
        file_at_ok grp (fl_fs s) (ft_job (fl_threads s ! i)) (ls @ map (line_of s) order) (ft_at (fl_threads s ! i)))"

definition below_limit :: "int \<Rightarrow> string list \<Rightarrow> file_state \<Rightarrow> bool" where
  "below_limit mx ls s \<longleftrightarrow> length ls + length (appends s) \<le> history_limit mx \<and>
     (\<forall>l\<in>set ls. LF \<notin> set l) \<and> (\<forall>i<length (fl_threads s). LF \<notin> set (line_of s i))"

lemma thread_moves_jobs [simp]:
  "ft_job (fl_threads (thread_moves i a fs s) ! j) = ft_job (fl_threads s ! j)"
  by (cases "j = i"; cases "i < length (fl_threads s)") (simp_all add: thread_moves_def list_update_beyond not_less)

lemma line_of_moved [simp]: "line_of (thread_moves i a fs s) = line_of s"
  by (simp add: line_of_def fun_eq_iff)

lemma appends_moved [simp]: "appends (thread_moves i a fs s) = appends s"
  by (simp add: appends_def)

lemma below_limit_moved [simp]: "below_limit mx ls (thread_moves i a fs s) = below_limit mx ls s"
  by (simp add: below_limit_def)

lemma written_okD:
  assumes "written_ok grp ls order s"
  shows "posix_ok (fl_fs s)" "path_content (fl_fs s) (groupFile grp) = unlines LF (ls @ map (line_of s) order)"
    "distinct order" "set order = has_written s"
    "\<And>i. i < length (fl_threads s) \<Longrightarrow>
      file_at_ok grp (fl_fs s) (ft_job (fl_threads s ! i)) (ls @ map (line_of s) order) (ft_at (fl_threads s ! i))"
  using assms unfolding written_ok_def by blast+

lemma written_few:
  assumes "written_ok grp ls order s"
  shows "length order \<le> length (appends s)"
proof -
  have "set order \<subseteq> set (appends s)" unfolding written_okD(4) [OF assms] by (auto simp: has_written_def appends_def)
  moreover have "distinct (appends s)" by (simp add: appends_def)
  ultimately show ?thesis using written_okD(3) [OF assms] by (metis card_mono List.finite_set distinct_card)
qed

lemma written_lines:
  assumes w: "written_ok grp ls order s" and b: "below_limit mx ls s"
  shows "getlines LF (path_content (fl_fs s) (groupFile grp)) = ls @ map (line_of s) order"
    "int (length ls + length order) \<le> getMaxNumberOfMessagesInHistory mx"
proof -
  have "\<forall>i\<in>set order. i < length (fl_threads s)" unfolding written_okD(4) [OF w] by (simp add: has_written_def)
  then have "\<forall>l\<in>set (ls @ map (line_of s) order). LF \<notin> set l" using b by (auto simp: below_limit_def)
  then show "getlines LF (path_content (fl_fs s) (groupFile grp)) = ls @ map (line_of s) order"
    unfolding written_okD(2) [OF w] by (rule getlines_unlines)
  show "int (length ls + length order) \<le> getMaxNumberOfMessagesInHistory mx"
    using written_few [OF w] b by (simp add: below_limit_def getMax_history_limit)
qed

lemma file_at_ok_later:
  assumes "file_at_ok grp fs job lines a"
    and "\<And>k. map_find (ps_dir fs) (groupFile grp) = Some k \<Longrightarrow> map_find (ps_dir fs') (groupFile grp) = Some k"
  shows "file_at_ok grp fs' job (lines @ extra) a"
proof (cases a)
  case (Finished x)
  have "\<exists>n\<le>length (lines @ extra). x = take n (lines @ extra)" if r: "job = Read"
  proof -
    obtain n where "n \<le> length lines" "x = take n lines" using assms(1) Finished r by auto
    then show ?thesis by (intro exI [of _ n]) simp
  qed
  then show ?thesis using Finished by simp
qed (use assms in auto)

text \<open>One thread moves; its line, if it has written it, is the last.\<close>

lemma written_moved:
  assumes w: "written_ok grp ls order s" and i: "i < length (fl_threads s)" "\<nexists>x. ft_at (fl_threads s ! i) = Finished x"
    and fs: "posix_ok fs" "path_content fs (groupFile grp) = unlines LF (ls @ map (line_of s) (order @ extra))"
      "\<And>k. map_find (ps_dir (fl_fs s)) (groupFile grp) = Some k \<Longrightarrow> map_find (ps_dir fs) (groupFile grp) = Some k"
    and a: "file_at_ok grp fs (ft_job (fl_threads s ! i)) (ls @ map (line_of s) (order @ extra)) a"
    and extra: "extra = (if ft_job (fl_threads s ! i) \<noteq> Read \<and> (\<exists>x. a = Finished x) then [i] else [])"
  shows "written_ok grp ls (order @ extra) (thread_moves i a fs s)"
proof -
  let ?t = "thread_moves i a fs s"
  have at: "ft_at (fl_threads ?t ! j) = (if j = i then a else ft_at (fl_threads s ! j))" for j using i(1) by simp
  have new: "i \<notin> set order" using i unfolding written_okD(4) [OF w] by (simp add: has_written_def)
  have "has_written ?t = has_written s \<union> set extra"
    unfolding has_written_def at extra using i by auto
  moreover have "file_at_ok grp fs (ft_job (fl_threads s ! j)) (ls @ map (line_of s) (order @ extra)) (ft_at (fl_threads ?t ! j))"
    if "j < length (fl_threads s)" for j
    using a file_at_ok_later [OF written_okD(5) [OF w that] fs(3), of "map (line_of s) extra"] unfolding at by simp
  ultimately show ?thesis using written_okD [OF w] fs(1,2) new extra by (auto simp: written_ok_def)
qed

lemma written_step:
  assumes w: "written_ok grp ls order s" and b: "below_limit mx ls s" and step: "file_step mx grp i s = Some t"
  shows "\<exists>extra. written_ok grp ls (order @ extra) t \<and> below_limit mx ls t"
proof -
  have i: "i < length (fl_threads s)" using step by (simp add: file_step_def split: if_splits)
  note ok = written_okD(1) [OF w] and lines = written_lines [OF w b] and at = written_okD(5) [OF w i]
  have "\<exists>a fs extra. t = thread_moves i a fs s \<and> written_ok grp ls (order @ extra) (thread_moves i a fs s)"
  proof (cases "ft_at (fl_threads s ! i)")
    case Opening
    then have "t = thread_moves i Ready (fl_fs s) s" using step i lines by (simp add: file_step_def Let_def)
    then show ?thesis
      using written_moved [OF w i _ ok, of "[]" Ready] written_okD(2) [OF w] Opening by fastforce
  next
    case Ready
    show ?thesis
    proof (cases "ft_job (fl_threads s ! i)")
      case Read
      let ?a = "Finished (ls @ map (line_of s) order)"
      have "t = thread_moves i ?a (fl_fs s) s" using step i Ready Read lines(1) by (simp add: file_step_def Let_def)
      moreover have "file_at_ok grp (fl_fs s) Read (ls @ map (line_of s) order) ?a"
        by (auto intro!: exI [of _ "length ls + length order"])
      ultimately show ?thesis
        using written_moved [OF w i _ ok, of "[]" ?a] written_okD(2) [OF w] Ready Read by fastforce
    next
      case (Append m)
      obtain k fs where op: "open_append (fl_fs s) (groupFile grp) = (k, fs)" by fastforce
      note opened = open_append_ok [OF ok op]
      have keep: "map_find (ps_dir (fl_fs s)) (groupFile grp) = Some k' \<Longrightarrow> map_find (ps_dir fs) (groupFile grp) = Some k'" for k'
        using op by (simp add: open_append_def)
      have "t = thread_moves i (Appending k) fs s" using step i Ready Append op by (simp add: file_step_def Let_def)
      then show ?thesis
        using written_moved [OF w i _ opened(1) _ keep, of "[]" "Appending k"] written_okD(2) [OF w] opened(2,3) Ready Append
        by fastforce
    qed
  next
    case (Appending k)
    then have k: "map_find (ps_dir (fl_fs s)) (groupFile grp) = Some k" and "ft_job (fl_threads s ! i) \<noteq> Read"
      using at by auto
    then obtain m where m: "ft_job (fl_threads s ! i) = Append m" by (cases "ft_job (fl_threads s ! i)") auto
    let ?fs = "write_to k (message_line m @ [LF]) (fl_fs s)"
    have t: "t = thread_moves i (Finished []) ?fs s" using step i Appending m by (simp add: file_step_def Let_def)
    have line: "line_of s i = message_line m" using m by (simp add: line_of_def)
    note wr = write_to_ok [OF ok, where k = k and line = "message_line m @ [LF]"]
    have "path_content ?fs (groupFile grp) = unlines LF (ls @ map (line_of s) (order @ [i]))"
      using wr(3) [OF k] written_okD(2) [OF w] line by simp
    then show ?thesis
      using written_moved [OF w i _ wr(1), of "[i]" "Finished []"] wr(2) Appending m t by fastforce
  next
    case (Finished x)
    then show ?thesis using step i by (simp add: file_step_def Let_def)
  qed (use at in simp_all)
  then show ?thesis using b by auto
qed

lemma written_run:
  assumes "foldM (file_step mx grp) sched s = Some t" and "written_ok grp ls order s" and "below_limit mx ls s"
  shows "\<exists>extra. written_ok grp ls (order @ extra) t"
  using assms
proof (induction sched arbitrary: s order)
  case Nil
  then show ?case by (metis append_Nil2 foldM.simps(1) option.inject)
next
  case (Cons i sched)
  then obtain u where u: "file_step mx grp i s = Some u" "foldM (file_step mx grp) sched u = Some t" by (auto simp: bind_iff)
  obtain extra where "written_ok grp ls (order @ extra) u" "below_limit mx ls u"
    using written_step [OF Cons.prems(2,3) u(1)] by blast
  then show ?case using Cons.IH [OF u(2)] by (metis append_assoc)
qed

subsection \<open>Past the limit\<close>

text \<open>
  Two threads that crop at the same time have the same temporary file open. When the first has renamed it
  to the group's file, the second removes this file, and finds no temporary file to rename.
\<close>

definition two_at :: "nat \<Rightarrow> nat \<Rightarrow> file_at \<Rightarrow> file_at \<Rightarrow> posix \<Rightarrow> file_state \<Rightarrow> file_state" where
  "two_at i j a b fs s = thread_moves i a fs (thread_moves j b fs s)"

lemma two_at_moves:
  assumes "i \<noteq> j" and "i < length (fl_threads s)" and "j < length (fl_threads s)"
  shows "thread_moves i a' fs' (two_at i j a b fs s) = two_at i j a' b fs' s"
    "thread_moves j b' fs' (two_at i j a b fs s) = two_at i j a b' fs' s"
    "fl_fs (two_at i j a b fs s) = fs" "length (fl_threads (two_at i j a b fs s)) = length (fl_threads s)"
    "fl_threads (two_at i j a b fs s) ! i = (fl_threads s ! i)\<lparr>ft_at := a\<rparr>"
    "fl_threads (two_at i j a b fs s) ! j = (fl_threads s ! j)\<lparr>ft_at := b\<rparr>"
  using assms by (simp_all add: two_at_def thread_moves_def list_update_swap)

lemma both_crop:
  assumes ij: "i \<noteq> j" "i < length (fl_threads s)" "j < length (fl_threads s)"
    and i: "fl_threads s ! i = \<lparr>ft_job = Append m, ft_at = Opening\<rparr>" and j: "fl_threads s ! j = \<lparr>ft_job = Read, ft_at = Opening\<rparr>"
    and ok: "posix_ok (fl_fs s)" "map_find (ps_dir (fl_fs s)) (tempGroupFile grp) = None"
    and full: "history_limit mx < length (getlines LF (path_content (fl_fs s) (groupFile grp)))"
    and m: "LF \<notin> set (message_line m)"
  shows "\<exists>sched t. foldM (file_step mx grp) sched s = Some t \<and> ft_at (fl_threads t ! i) = Finished [] \<and>
    ft_at (fl_threads t ! j) = Finished [message_line m] \<and>
    path_content (fl_fs t) (groupFile grp) = message_line m @ [LF]"
proof -
  let ?step = "file_step mx grp" and ?limit = "getMaxNumberOfMessagesInHistory mx" and ?two = "two_at i j" and ?fs = "fl_fs s"
  let ?lines = "getlines LF (path_content ?fs (groupFile grp))"
  let ?li = "kept_lines ?limit True ?lines" and ?lj = "kept_lines ?limit False ?lines"
  note two = two_at_moves [OF ij]
  have wf: "map_wf (ps_dir ?fs)" and len: "int (length ?lines) > ?limit"
    using ok(1) full by (simp_all add: posix_ok_def getMax_history_limit)
  let ?k = "length (ps_data ?fs)"
  let ?fs1 = "?fs\<lparr>ps_dir := map_assign (ps_dir ?fs) (tempGroupFile grp) ?k, ps_data := ps_data ?fs @ [[]]\<rparr>"
  let ?fs2 = "write_to ?k (unlines LF ?li) ?fs1"
  let ?fs3 = "write_to ?k (unlines LF ?lj) ?fs2"
  let ?fs4 = "unlink (groupFile grp) ?fs3"
  let ?fs5 = "rename_path (tempGroupFile grp) (groupFile grp) ?fs4"
  let ?fs6 = "unlink (groupFile grp) ?fs5"
  have s1: "?step i s = Some (thread_moves i (Cropping ?li) ?fs s)"
    using ij i len by (simp add: file_step_def Let_def)
  have s2: "?step j (thread_moves i (Cropping ?li) ?fs s) = Some (?two (Cropping ?li) (Cropping ?lj) ?fs s)"
    using ij j len by (simp add: file_step_def Let_def two_at_def thread_moves_def list_update_swap)
  have s3: "?step i (?two (Cropping ?li) (Cropping ?lj) ?fs s) = Some (?two (Copying ?k ?li) (Cropping ?lj) ?fs1 s)"
    using ij ok(2) by (simp add: file_step_def Let_def two open_append_def)
  have s4: "?step j (?two (Copying ?k ?li) (Cropping ?lj) ?fs1 s) = Some (?two (Copying ?k ?li) (Copying ?k ?lj) ?fs1 s)"
    using ij by (simp add: file_step_def Let_def two open_append_def)
  have s5: "foldM ?step (replicate (length ?li) i) (?two (Copying ?k ?li) (Copying ?k ?lj) ?fs1 s) =
      Some (?two (Copying ?k []) (Copying ?k ?lj) ?fs2 s)"
    using copying_runs [of i "?two (Copying ?k ?li) (Copying ?k ?lj) ?fs1 s" ?k ?li mx grp] ij by (simp add: two)
  have s6: "foldM ?step (replicate (length ?lj) j) (?two (Copying ?k []) (Copying ?k ?lj) ?fs2 s) =
      Some (?two (Copying ?k []) (Copying ?k []) ?fs3 s)"
    using copying_runs [of j "?two (Copying ?k []) (Copying ?k ?lj) ?fs2 s" ?k ?lj mx grp] ij by (simp add: two write_to_def)
  have s7: "foldM ?step [i, i, j] (?two (Copying ?k []) (Copying ?k []) ?fs3 s) = Some (?two Ready Renaming ?fs6 s)"
    using ij by (simp add: file_step_def Let_def two)
  have gone: "map_find (ps_dir ?fs6) (groupFile grp) = None" "map_find (ps_dir ?fs6) (tempGroupFile grp) = None"
    using wf by (simp_all add: unlink_def rename_path_def write_to_def)
  have s8: "?step j (?two Ready Renaming ?fs6 s) = Some (?two Ready Ready ?fs6 s)"
    using ij gone by (simp add: file_step_def Let_def two rename_path_def)
  obtain k' fs7 where op: "open_append ?fs6 (groupFile grp) = (k', fs7)" by fastforce
  have new: "path_content fs7 (groupFile grp) = []" "map_find (ps_dir fs7) (groupFile grp) = Some k'" "k' < length (ps_data fs7)"
    using op gone by (auto simp: open_append_def path_content_def)
  let ?fs8 = "write_to k' (message_line m @ [LF]) fs7"
  have end_content: "path_content ?fs8 (groupFile grp) = message_line m @ [LF]"
    using new by (simp add: path_content_def write_to_def)
  have s9: "foldM ?step [i, i] (?two Ready Ready ?fs6 s) = Some (?two (Finished []) Ready ?fs8 s)"
    using ij i op by (simp add: file_step_def Let_def two)
  have s10: "?step j (?two (Finished []) Ready ?fs8 s) = Some (?two (Finished []) (Finished [message_line m]) ?fs8 s)"
    using ij j end_content getlines_delim [OF m, of "[]"] by (simp add: file_step_def Let_def two)
  have run: "foldM ?step ([i] @ [j] @ [i] @ [j] @ replicate (length ?li) i @ replicate (length ?lj) j @ [i, i, j] @ [j] @ [i, i] @ [j]) s =
      Some (?two (Finished []) (Finished [message_line m]) ?fs8 s)"
    using s1 s2 s3 s4 s5 s6 s7 s8 s9 s10 by (simp only: foldM_append foldM.simps bind_foldM_Nil Option.bind.bind_lunit)
  show ?thesis
    by (rule exI, rule exI, rule conjI, rule run) (use end_content ij in \<open>simp add: two\<close>)
qed

end
