(* ===== verification/Group_Properties.thy ===== *)
theory Group_Properties
  imports Message_Properties Edge_Properties Screens File_Race
begin

section \<open>Properties of a group between its threads\<close>

text \<open>
  A group with its consumer thread, the threads that add and remove sessions and the file of its
  history, at the grain of their critical sections and system calls: what a client sees that joins while others
  talk, the order in which members see messages, and what becomes of the history.
\<close>

subsection \<open>What members see\<close>

text \<open>A room in which one message waits and two clients, carl and dora, are about to join.\<close>

definition sample_entrant :: "string \<Rightarrow> string \<Rightarrow> string \<Rightarrow> entrant" where
  "sample_entrant c f n = \<lparr>en_env = sample_env, en_client = c, en_front_end = f, en_user = n, en_at = Arriving,
     en_read = 0, en_from = 0\<rparr>"

definition sample_talk :: room where
  "sample_talk = \<lparr>rm_group = sample_room\<lparr>g_messages_queue := [sample_message]\<rparr>, rm_world = sample_world,
     rm_counts = [(''anna'', 2), (''bob'', 1)], rm_thread = Drawing,
     rm_entrants = [sample_entrant ''id-carl'' fe2 ''carl'', sample_entrant ''id-dora'' fe1 ''dora''],
     rm_log = [], rm_cast = []\<rparr>"

definition sample_turns :: "room_event list" where
  "sample_turns = [Enter 0, Enter 0, Enter 0, Enter 1, Enter 1, Enter 0, Consume sample_env, Enter 1, Consume sample_env,
     Enter 1, Consume sample_env]"

lemma sample_talk_ok: "room_ok sample_talk"
proof -
  have g: "group_ok sample_room" using sample_server_ok [of True]
    by (auto simp: server_ok_def groups_ok_def groups_of_def sample_server_def)
  have m: "fits_packet sample_message" by (simp add: fits_packet_def sample_message_def size_defs)
  have rest: "w_primary sample_world" "\<forall>u\<in>set (g_users sample_room). name_fits (u_username u)"
      "\<forall>x\<in>set (conns sample_room). NUL \<notin> set (fst x)" "g_groupName sample_room = ''room''"
    by code_simp+
  have "entrant_ok (sample_entrant ''id-carl'' fe2 ''carl'')" "entrant_ok (sample_entrant ''id-dora'' fe1 ''dora'')"
    using sample_env_ok by (simp_all add: entrant_ok_def sample_entrant_def name_fits_def fe1_def fe2_def size_defs)
  then show ?thesis
    using g m rest empty_history [of "g_maxMessages sample_room" "g_groupName sample_room"] sample_message_storable
    by (simp add: room_ok_def sample_talk_def room_message_def in_hand_def)
qed

lemma sample_talk_follows: "follows_as 0 ''id-carl'' fe2 sample_talk" "follows_as 1 ''id-dora'' fe1 sample_talk"
proof -
  have "filter (\<lambda>x. fst x = ''id-carl'') (conns sample_room) = []" "filter (\<lambda>x. fst x = ''id-dora'') (conns sample_room) = []"
    by code_simp+
  moreover have "w_sent sample_world = []" by (simp add: sample_world_def sample_server_def)
  ultimately show "follows_as 0 ''id-carl'' fe2 sample_talk" "follows_as 1 ''id-dora'' fe1 sample_talk"
    using sample_talk_ok
    by (simp_all add: follows_as_def follows_def stands_def sample_talk_def sample_entrant_def Let_def)
qed

lemma sample_talk_at: "en_at (rm_entrants sample_talk ! 0) = Arriving"
  by (simp add: sample_talk_def sample_entrant_def)




definition sample_switch :: "proxy_event list" where
  \<comment> \<open>dora and carl join through one front end\<close>
  "sample_switch = [Client_Packet 100 (sample_packet JOIN_PACKET ''id-dora'' ''dora'' '''') 7,
     Client_Packet 101 (sample_packet JOIN_PACKET ''id-carl'' ''carl'' '''') 8]"


text \<open>
  C34: The order of the critical sections can make a joining client miss a message or see it twice. When the consumer
  thread takes a chat message, stores it and sends it out between the reading of the history and
  the entry of the session, the client is told that it has joined and never sees the message,
  though all others do and the history has it; when it has stored the message before the
  reading and sends it out after the entry, the client sees it twice.
\<close>

theorem join_misses_or_repeats:
  assumes start: "follows_as i c f s" "en_at (rm_entrants s ! i) = Arriving"
    and talk: "rm_thread s = Drawing" "g_messages_queue (rm_group s) = m # ms" "\<not> m_isNotification m" "env_ok e"
    and missed: "foldM room_step [Enter i, Enter i, Consume e, Consume e, Consume e, Enter i, Enter i] s = Some t"
      "en_at (rm_entrants t ! i) = Entered 0"
    and twice: "foldM room_step [Enter i, Consume e, Consume e, Enter i, Enter i, Enter i, Consume e] s = Some t'"
      "en_at (rm_entrants t' ! i) = Entered 0"
  shows "rm_log t = rm_log s @ [m] \<and>
    seen_by c (socket_of (w_book (rm_world t)) f) (w_sent (rm_world t)) =
      map said (last_n (history_limit (g_maxMessages (rm_group t))) (rm_log s)) \<and>
    seen_by c (socket_of (w_book (rm_world t')) f) (w_sent (rm_world t')) =
      map said (last_n (history_limit (g_maxMessages (rm_group t'))) (rm_log s @ [m]) @ [m])"
proof -
  note fs = start(1) [unfolded follows_as_def, THEN conjunct1]
  obtain u x v where m: "foldM room_step [Enter i, Enter i] s = Some u" "foldM room_step [Consume e, Consume e] u = Some x"
      "room_step (Consume e) x = Some v" "foldM room_step [Enter i, Enter i] v = Some t"
    using missed(1) by (auto simp: bind_iff)
  have v: "follows_as i c f v" using rooms.run_inv [of "[Enter i, Enter i, Consume e, Consume e, Consume e]" s v c f i] m start(1) talk(4)
    by (auto simp: bind_iff)
  note r = reads_log [OF fs start(2) m(1)]
  note x = consumer_takes [OF _ _ talk(3) m(2), of ms, simplified r, OF talk(1,2)]
  note y = consumer_sends [OF _ m(3)]
  obtain hs where hs: "en_at (rm_entrants v ! i) = Greeting hs" using reads_then_greets [OF fs start(2) m(1)] x y by auto
  note z = enters_cast [OF v [unfolded follows_as_def, THEN conjunct1] hs m(4)]
  have ft: "follows_as i c f t" using rooms.run_inv [OF m(4) _ v] by simp
  have one: "en_read (rm_entrants t ! i) = length (rm_log s)" "en_from (rm_entrants t ! i) = length (rm_cast t)"
      "rm_log t = rm_log s @ [m]"
    using r x y z by simp_all
  obtain a b d g where n: "room_step (Enter i) s = Some a" "foldM room_step [Consume e, Consume e] a = Some b"
      "room_step (Enter i) b = Some d" "foldM room_step [Enter i, Enter i] d = Some g" "room_step (Consume e) g = Some t'"
    using twice(1) by (auto simp: bind_iff)
  have b: "follows_as i c f b" using rooms.run_inv [of "[Enter i, Consume e, Consume e]" s b c f i] n start(1) talk(4)
    by (auto simp: bind_iff)
  have d: "follows_as i c f d" using rooms.run_inv [of "[Enter i]" b d c f i] n b by simp
  have ft': "follows_as i c f t'" using rooms.run_inv [of "[Enter i, Enter i, Consume e]" d t' c f i] n d talk(4)
    by (auto simp: bind_iff)
  note p = accepts_only [OF fs start(2) n(1)]
  have q: "rm_thread b = Sending_Out m \<and> rm_log b = rm_log s @ [m] \<and> rm_cast b = rm_cast s \<and> rm_entrants b = rm_entrants a"
    using consumer_takes [OF _ _ talk(3) n(2), of ms] p talk(1,2) by simp
  have at: "en_at (rm_entrants b ! i) = Accepted" using p q by simp
  note k = reads_now [OF b [unfolded follows_as_def, THEN conjunct1] at n(3)]
  then obtain gs where gs: "en_at (rm_entrants d ! i) = Greeting gs" by blast
  note l = enters_cast [OF d [unfolded follows_as_def, THEN conjunct1] gs n(4)]
  have w: "rm_log t' = rm_log g \<and> rm_cast t' = rm_cast g @ [m] \<and> rm_entrants t' = rm_entrants g"
    using consumer_sends [OF _ n(5)] k l q by simp
  have two: "en_read (rm_entrants t' ! i) = length (rm_log s @ [m])" "en_from (rm_entrants t' ! i) = length (rm_cast s)"
      "rm_log t' = rm_log s @ [m]" "rm_cast t' = rm_cast s @ [m]"
    using q k l w by simp_all
  show ?thesis
    using follows_view(1) [OF ft [unfolded follows_as_def, THEN conjunct1] missed(2) refl]
      follows_view(1) [OF ft' [unfolded follows_as_def, THEN conjunct1] twice(2) refl] one two ft ft'
    by (simp add: follows_as_def)
qed

theorem join_misses_or_repeats_witness:
  "\<exists>t t'. foldM room_step [Enter 0, Enter 0, Consume sample_env, Consume sample_env, Consume sample_env, Enter 0, Enter 0] sample_talk = Some t \<and>
     foldM room_step [Enter 0, Consume sample_env, Consume sample_env, Enter 0, Enter 0, Enter 0, Consume sample_env] sample_talk = Some t' \<and>
     rm_log t = [sample_message] \<and>
     seen_by ''id-carl'' (socket_of (w_book (rm_world t)) fe2) (w_sent (rm_world t)) = [] \<and>
     seen_by ''id-carl'' (socket_of (w_book (rm_world t')) fe2) (w_sent (rm_world t')) = [said sample_message, said sample_message]"
proof -
  let ?c = "Consume sample_env"
  have "map_option (\<lambda>t. en_at (rm_entrants t ! 0)) (foldM room_step [Enter 0, Enter 0, ?c, ?c, ?c, Enter 0, Enter 0] sample_talk) =
      Some (Entered 0) \<and>
    map_option (\<lambda>t. (en_at (rm_entrants t ! 0), g_maxMessages (rm_group t)))
      (foldM room_step [Enter 0, ?c, ?c, Enter 0, Enter 0, Enter 0, ?c] sample_talk) = Some (Entered 0, 0)"
    by code_simp
  then obtain t t' where t: "foldM room_step [Enter 0, Enter 0, ?c, ?c, ?c, Enter 0, Enter 0] sample_talk = Some t"
      "en_at (rm_entrants t ! 0) = Entered 0"
      "foldM room_step [Enter 0, ?c, ?c, Enter 0, Enter 0, Enter 0, ?c] sample_talk = Some t'"
      "en_at (rm_entrants t' ! 0) = Entered 0" "g_maxMessages (rm_group t') = 0"
    by auto
  have st: "rm_thread sample_talk = Drawing" "g_messages_queue (rm_group sample_talk) = sample_message # []"
      "\<not> m_isNotification sample_message" "rm_log sample_talk = []"
    by (simp_all add: sample_talk_def sample_message_def)
  have lim: "history_limit 0 = 10"
    by (simp add: history_limit_def getMaxNumberOfMessagesInHistory_def DEFAULT_NUMBER_OF_RECORDED_MESSAGES_def)
  show ?thesis
    using join_misses_or_repeats [OF sample_talk_follows(1) sample_talk_at st(1-3) sample_env_ok t(1-4)] t st(4) lim
    by (simp add: last_n_def)
qed

subsection \<open>The history on disk\<close>

text \<open>
  C17: While the file of a group stays below the limit, the threads that use it need no semaphore: whatever
  the schedule, the file has its first lines and then the line of every thread that has
  appended its message, each once, in the order in which they wrote, and every reader has read a beginning of these
  lines.
\<close>

theorem history_kept_below_limit:
  assumes start: "posix_ok (fl_fs s)" "path_content (fl_fs s) (groupFile grp) = unlines LF ls"
      "\<forall>th\<in>set (fl_threads s). ft_at th = Opening"
    and few: "below_limit mx ls s" and run: "foldM (file_step mx grp) sched s = Some t"
  shows "\<exists>order. distinct order \<and> set order = has_written t \<and>
    path_content (fl_fs t) (groupFile grp) = unlines LF (ls @ map (line_of t) order) \<and>
    (\<forall>i x. i < length (fl_threads t) \<longrightarrow> ft_job (fl_threads t ! i) = Read \<longrightarrow> ft_at (fl_threads t ! i) = Finished x \<longrightarrow>
       (\<exists>n. x = take n (ls @ map (line_of t) order)))"
proof -
  have "has_written s = {}" using start(3) by (auto simp: has_written_def)
  then have "written_ok grp ls [] s" using start by (simp add: written_ok_def)
  then obtain order where w: "written_ok grp ls order t" using written_run [OF run _ few] by fastforce
  have "\<exists>n. x = take n (ls @ map (line_of t) order)"
    if "i < length (fl_threads t)" "ft_job (fl_threads t ! i) = Read" "ft_at (fl_threads t ! i) = Finished x" for i x
    using written_okD(5) [OF w that(1)] that(2,3) by auto
  then show ?thesis using written_okD(2-4) [OF w] by blast
qed

definition sample_files :: "nat \<Rightarrow> file_state" where
  \<comment> \<open>a file of so many lines, a thread that appends and one that reads\<close>
  "sample_files n = \<lparr>fl_fs = \<lparr>ps_dir = [(groupFile ''room'', 0)], ps_data = [unlines LF (replicate n (message_line sample_message))]\<rparr>,
     fl_threads = [\<lparr>ft_job = Append (Message ''new'' ''bob'' ''room'' 9), ft_at = Opening\<rparr>, \<lparr>ft_job = Read, ft_at = Opening\<rparr>]\<rparr>"

lemma sample_files_ok: "posix_ok (fl_fs (sample_files n))"
  "path_content (fl_fs (sample_files n)) (groupFile ''room'') = unlines LF (replicate n (message_line sample_message))"
  by (simp_all add: posix_ok_def sample_files_def path_content_def map_wf_def)

theorem history_kept_below_limit_witness:
  "\<exists>t order. foldM (file_step 3 ''room'') [0, 1, 0, 1, 0] (sample_files 2) = Some t \<and> set order = has_written t \<and>
     path_content (fl_fs t) (groupFile ''room'') =
       unlines LF (replicate 2 (message_line sample_message) @ map (line_of t) order)"
proof -
  have "foldM (file_step 3 ''room'') [0, 1, 0, 1, 0] (sample_files 2) \<noteq> None" by code_simp
  then obtain t where t: "foldM (file_step 3 ''room'') [0, 1, 0, 1, 0] (sample_files 2) = Some t" by blast
  have at: "\<forall>th\<in>set (fl_threads (sample_files 2)). ft_at th = Opening" by (simp add: sample_files_def)
  have "appends (sample_files 2) = [0]" "history_limit 3 = 3"
    by (simp_all add: appends_def sample_files_def history_limit_def getMaxNumberOfMessagesInHistory_def upt_rec)
  moreover have "LF \<notin> set (message_line sample_message)" using message_line_no_LF sample_message_storable by blast
  moreover have "LF \<notin> set (message_line (Message ''new'' ''bob'' ''room'' 9))"
    by (rule message_line_no_LF) (simp add: storable_def FILE_SEPARATOR_def)
  ultimately have few: "below_limit 3 (replicate 2 (message_line sample_message)) (sample_files 2)"
    by (auto simp: below_limit_def line_of_def sample_files_def nth_Cons split: nat.splits)
  show ?thesis
    using history_kept_below_limit [OF sample_files_ok at few t] t by blast
qed

text \<open>
  C35: Past the limit two threads that use the file at the same time can lose the whole history. Whenever
  it has more lines than the limit, which is so after every append to a full file, there is a schedule of the
  consumer thread, which appends a message, and a thread that reads for a client that joins, after which the
  new line is all that is left of the file and all that the client is sent.
\<close>

theorem concurrent_crops_lose_history:
  assumes threads: "i \<noteq> j" "i < length (fl_threads s)" "j < length (fl_threads s)"
      "fl_threads s ! i = \<lparr>ft_job = Append m, ft_at = Opening\<rparr>" "fl_threads s ! j = \<lparr>ft_job = Read, ft_at = Opening\<rparr>"
    and files: "posix_ok (fl_fs s)" "map_find (ps_dir (fl_fs s)) (tempGroupFile grp) = None"
      "history_limit mx < length (getlines LF (path_content (fl_fs s) (groupFile grp)))"
    and m: "storable m" "m_group m = grp"
  shows "\<exists>sched t. foldM (file_step mx grp) sched s = Some t \<and> ft_at (fl_threads t ! i) = Finished [] \<and>
    ft_at (fl_threads t ! j) = Finished [message_line m] \<and> parse_rows grp [message_line m] = Some [m] \<and>
    path_content (fl_fs t) (groupFile grp) = unlines LF [message_line m]"
  using both_crop [OF threads files message_line_no_LF [OF m(1)]] parse_rows_message_lines [of "[m]" grp] m by simp

theorem concurrent_crops_lose_history_witness:
  "\<exists>sched t. foldM (file_step 1 ''room'') sched (sample_files 2) = Some t \<and>
     path_content (fl_fs t) (groupFile ''room'') = unlines LF [message_line (Message ''new'' ''bob'' ''room'' 9)]"
proof -
  have th: "(0::nat) \<noteq> 1" "0 < length (fl_threads (sample_files 2))" "1 < length (fl_threads (sample_files 2))"
      "fl_threads (sample_files 2) ! 0 = \<lparr>ft_job = Append (Message ''new'' ''bob'' ''room'' 9), ft_at = Opening\<rparr>"
      "fl_threads (sample_files 2) ! 1 = \<lparr>ft_job = Read, ft_at = Opening\<rparr>"
    by (simp_all add: sample_files_def)
  have temp: "map_find (ps_dir (fl_fs (sample_files 2))) (tempGroupFile ''room'') = None" by (simp add: sample_files_def)
  have "LF \<notin> set (message_line sample_message)" using message_line_no_LF sample_message_storable by blast
  then have "getlines LF (path_content (fl_fs (sample_files 2)) (groupFile ''room'')) = replicate 2 (message_line sample_message)"
    unfolding sample_files_ok(2) by (intro getlines_unlines) simp
  then have full: "history_limit 1 < length (getlines LF (path_content (fl_fs (sample_files 2)) (groupFile ''room'')))"
    by (simp add: history_limit_def getMaxNumberOfMessagesInHistory_def)
  have m: "storable (Message ''new'' ''bob'' ''room'' 9)" "m_group (Message ''new'' ''bob'' ''room'' 9) = ''room''"
    by (simp_all add: storable_def FILE_SEPARATOR_def)
  show ?thesis using concurrent_crops_lose_history [OF th sample_files_ok(1) temp full m] by blast
qed

end
