(* ===== verification/Registration_Path.thy ===== *)
theory Registration_Path
  imports Message_Path Server_Types
begin

section \<open>A registration from end to end\<close>

text \<open>
  The composition of \<open>Client::registerToServer\<close>, the front end's \<open>registerUserSocket\<close>, the
  server's handler of the join (\<open>registerUserToServer\<close>, \<open>Group::registerNewSession\<close>), the thread of the
  front end that routes the replies, and the loop in which the client waits for the answer.
\<close>

subsection \<open>What the server answers\<close>

definition answers :: "env \<Rightarrow> string \<Rightarrow> bool \<Rightarrow> message list \<Rightarrow> packet list \<Rightarrow> bool" where
  \<comment> \<open>to the client \<open>uid\<close>: the accept packet and the history, or the refusal\<close>
  "answers e uid accepted log replies \<longleftrightarrow>
     (\<forall>p\<in>set replies. packet_sized p \<and> c_str (p_user_id p) = Some uid) \<and>
     (if accepted then \<exists>a. p_type a = ACCEPT_PACKET \<and> replies = a # map (packet_for e uid) log
      else \<exists>a. p_type a = CONNECTION_REFUSED_PACKET \<and> replies = [a])"

lemma registerUserToServer_answers:
  assumes ok: "server_ok s" and e: "env_ok e" and prim: "w_primary (s_world s)"
    and p: "c_str (p_username p) = Some name" "c_str (p_user_id p) = Some uid" "c_str (p_group p) = Some gname"
      "ids_apart p f"
    and log: "history_rep (limit_of s gname) gname log (w_files (s_world s))"
    and reg: "registerUserToServer e p f s = Some (r, s')"
  shows "\<exists>replies. w_sent (s_world s') =
      w_sent (s_world s) @ map (Pair (socket_of (w_book (s_world s)) f)) replies \<and>
    answers e uid (total_sessions name (groups_of s) < MAX_NUMBER_OF_SIMULTANEOUS_CONNECTIONS)
      (last_n (history_limit (limit_of s gname)) log) replies"
  using ok reg
proof (cases rule: register_cases)
  case (refused name')
  then have n: "name' = name" using p(1) by simp
  obtain pk where "p_type pk = CONNECTION_REFUSED_PACKET" "c_str (p_user_id pk) = Some uid" "packet_sized pk"
      "w_sent (s_world s') = w_sent (s_world s) @ [(socket_of (w_book (s_world s)) f, pk)]"
    using register_refused [OF ok refused reg] p(2) prim e by (auto simp: sends_only_def env_ok_def)
  then show ?thesis using refused(2) n by (intro exI [of _ "[pk]"]) (simp add: answers_def)
next
  case (accepted name')
  then have n: "name' = name" and room: "total_sessions name (groups_of s) < MAX_NUMBER_OF_SIMULTANEOUS_CONNECTIONS"
    using p(1) by simp_all
  let ?inc = "incrementNumberOfConnectionsFromUser name (s_connectionsCount s)"
  have "fst ?inc \<noteq> USER_SESSIONS_LIMIT_REACHED" using increment_full [OF ok] room by simp
  then obtain m w where rg: "registerUserToGroup e (uid, f) name gname (s_manager s, s_world s) = Some (r, m, w)"
      "s_world s' = w"
    using reg p by (auto simp: registerUserToServer_def registerUser_def bind_iff case_prod_beta Let_def)
  let ?g = "case map_find (groups_of s) gname of Some g \<Rightarrow> g
    | None \<Rightarrow> configureGroup (gm_maxMessages (s_manager s)) (Group (e_int e) gname)"
  have "map_find (groups_of s) gname = Some g \<Longrightarrow> g_groupName g = gname" for g
    using ok groups_ok_find by (auto simp: server_ok_def)
  then have g: "g_groupName ?g = gname" "g_maxMessages ?g = limit_of s gname"
    by (auto simp: limit_of_def configureGroup_def Group_def split: option.split)
  obtain g' where rn: "registerNewSession e uid f name (?g, s_world s) = Some (r, g', w)"
    using rg(1) by (auto simp: registerUserToGroup_def groupExists_def groups_of_def bind_iff split: option.splits if_splits)
  have c: "length uid < UUID_SIZE" "NUL \<notin> set uid"
    using p(2,4) c_str_length [OF p(2)] c_str_no_NUL by (auto simp: ids_apart_def packet_sized_def)
  obtain a where "p_type a = ACCEPT_PACKET" "packet_sized a" "c_str (p_user_id a) = Some uid"
      "w_sent w = w_sent (s_world s) @ (socket_of (w_book (s_world s)) f, a) #
        history_packets e uid (socket_of (w_book (s_world s)) f) (last_n (history_limit (limit_of s gname)) log)"
    using registerNewSession_sends [OF e c prim, of ?g log f name] rn log g by auto
  then show ?thesis
    using rg(2) room n packet_for_props [OF e c]
    by (intro exI [of _ "a # map (packet_for e uid) (last_n (history_limit (limit_of s gname)) log)"])
      (simp add: answers_def history_packets_def packet_for_def)
qed

text \<open>The packets to the replicas go to other sockets.\<close>

lemma replication_step_sends:
  assumes "replication_step confirms f p s = Some (q, t)"
  shows "w_files (s_world t) = w_files (s_world s) \<and> w_primary (s_world t) = w_primary (s_world s) \<and>
    (\<exists>out. w_sent (s_world t) = w_sent (s_world s) @ out \<and> fst ` set out \<subseteq> fst ` set (s_rm_sockets s))"
  using assms
  by (fastforce simp: replication_step_def bind_iff Let_def replicate_packet_char image_image split: if_splits)

lemma join_answered:
  assumes ok: "server_ok s" and e: "env_ok e" and prim: "w_primary (s_world s)"
    and p: "p_type p = JOIN_PACKET" "c_str (p_username p) = Some name" "c_str (p_user_id p) = Some uid"
      "c_str (p_group p) = Some gname" "ids_apart p f"
    and log: "history_rep (limit_of s gname) gname log (w_files (s_world s))"
    and fe: "socket_of (w_book (s_world s)) f \<notin> fst ` set (s_rm_sockets s)"
    and run: "handleFrontEndPacket e tag confirms f sock p s = Some s'"
  shows "answers e uid (total_sessions name (groups_of s) < MAX_NUMBER_OF_SIMULTANEOUS_CONNECTIONS)
      (last_n (history_limit (limit_of s gname)) log)
      (sent_to (socket_of (w_book (s_world s)) f) (drop (length (w_sent (s_world s))) (w_sent (s_world s'))))"
    and "total_sessions k (groups_of s') = total_sessions k (groups_of s) +
      (if k = name \<and> total_sessions name (groups_of s) < MAX_NUMBER_OF_SIMULTANEOUS_CONNECTIONS then 1 else 0)"
proof -
  obtain q t where q: "replication_step confirms f p s = Some (q, t)"
    using run by (auto simp: handleFrontEndPacket_def bind_iff)
  note keeps = replication_step_keeps [OF q]
  have kinds: "\<not> isMessage q" "\<not> isKeepAlive q" "isJoinMessage q"
    using keeps p(1) by (simp_all add: packet_kind_defs packet_type_defs)
  obtain r where reg: "registerUserToServer e q f t = Some (r, s')"
    using run q kinds by (auto simp: handleFrontEndPacket_def)
  obtain out where out: "w_sent (s_world t) = w_sent (s_world s) @ out" "fst ` set out \<subseteq> fst ` set (s_rm_sockets s)"
      "w_files (s_world t) = w_files (s_world s)" "w_primary (s_world t)"
    using replication_step_sends [OF q] prim by auto
  have same: "groups_of t = groups_of s" "limit_of t gname = limit_of s gname" "server_ok t"
    using keeps ok server_ok_cong [of t s] by (simp_all add: groups_of_def limit_of_def split: option.split)
  obtain replies where replies: "w_sent (s_world s') = w_sent (s_world t) @ map (Pair (socket_of (w_book (s_world t)) f)) replies"
      "answers e uid (total_sessions name (groups_of s) < MAX_NUMBER_OF_SIMULTANEOUS_CONNECTIONS)
        (last_n (history_limit (limit_of s gname)) log) replies"
    using registerUserToServer_answers [OF same(3) e out(4) _ _ _ _ _ reg, of name uid gname log] p log keeps same out(3)
    by (auto simp: ids_apart_def)
  have "sent_to (socket_of (w_book (s_world s)) f) out = []"
    using out(2) fe by (force simp: sent_to_def filter_empty_conv)
  moreover have "sent_to k (map (Pair k) ps) = ps" for k and ps :: "packet list"
    by (induction ps) simp_all
  ultimately show "answers e uid (total_sessions name (groups_of s) < MAX_NUMBER_OF_SIMULTANEOUS_CONNECTIONS)
      (last_n (history_limit (limit_of s gname)) log)
      (sent_to (socket_of (w_book (s_world s)) f) (drop (length (w_sent (s_world s))) (w_sent (s_world s'))))"
    using replies out(1) keeps by simp
  have name: "c_str (p_username q) = Some name" and ids: "ids_apart q f" using p keeps by (auto simp: ids_apart_def)
  from same(3) reg show "total_sessions k (groups_of s') = total_sessions k (groups_of s) +
      (if k = name \<and> total_sessions name (groups_of s) < MAX_NUMBER_OF_SIMULTANEOUS_CONNECTIONS then 1 else 0)"
  proof (cases rule: register_cases)
    case (refused n)
    then have "groups_of s' = groups_of t" using register_refused [OF same(3) refused reg] by (simp add: groups_of_def)
    then show ?thesis using refused name same(1) by simp
  next
    case (accepted n)
    then show ?thesis using register_accepted [OF same(3) accepted ids reg] name same(1) by simp
  qed
qed

subsection \<open>What the client gets\<close>

lemma register_loop_answers:
  "answers e uid accepted log replies \<Longrightarrow> register_loop replies = Some (if accepted then 0 else -1)"
  by (auto simp: answers_def packet_type_defs)

text \<open>The front end passes an answer on as a fresh packet of its type and the history as it is.\<close>

definition passed_on :: "env \<Rightarrow> env \<Rightarrow> string \<Rightarrow> bool \<Rightarrow> message list \<Rightarrow> packet list \<Rightarrow> bool" where
  "passed_on e' e uid accepted log ps \<longleftrightarrow>
     (\<exists>a. p_type a = (if accepted then ACCEPT_PACKET else CONNECTION_REFUSED_PACKET) \<and> packet_sized a \<and>
        ps = a # (if accepted then map (packet_for e uid) log else []))"

lemma answers_routed:
  assumes ans: "answers e uid accepted log replies" and e: "env_ok e" "env_ok e'"
    and c: "length uid < UUID_SIZE" "NUL \<notin> set uid" and sw: "sw uid = Some s"
  shows "passed_on e' e uid accepted log (sent_to s (concat (map (routed sw) (map (Pair e') replies))))"
proof -
  obtain q where q: "Packet_of_type (e_mem e') (e_uuid e') ty = Some (q ty)" "packet_sized (q ty)" "p_type (q ty) = ty" for ty
    using Packet_of_type_defined [of "e_mem e'" "e_uuid e'"] e(2) unfolding env_ok_def UUID_SIZE_def
    by (metis (no_types) eval_nat_numeral(3) lessI less_Suc_eq)
  have one: "routed sw (e', a) = [(s, q (p_type a))]"
    if "p_type a = ACCEPT_PACKET \<or> p_type a = CONNECTION_REFUSED_PACKET" "c_str (p_user_id a) = Some uid" for a
    using that q sw by (auto simp: routed_def client_reply_def packet_type_defs)
  have "routed sw (e', packet_for e uid m) = [(s, packet_for e uid m)]" for m
    using packet_for_props [OF e(1) c] sw by (simp add: routed_def client_reply_def)
  then have hist: "sent_to s (concat (map (routed sw) (map (Pair e' \<circ> packet_for e uid) ms))) = map (packet_for e uid) ms" for ms
    by (induction ms) simp_all
  show ?thesis
  proof (cases accepted)
    case True
    then obtain a where "p_type a = ACCEPT_PACKET" "replies = a # map (packet_for e uid) log" "c_str (p_user_id a) = Some uid"
      using ans by (auto simp: answers_def)
    then show ?thesis using True one [of a] hist q by (auto simp: passed_on_def)
  next
    case False
    then obtain a where "p_type a = CONNECTION_REFUSED_PACKET" "replies = [a]" "c_str (p_user_id a) = Some uid"
      using ans by (auto simp: answers_def)
    then show ?thesis using False one [of a] q by (auto simp: passed_on_def)
  qed
qed

lemma passed_on_registers:
  assumes "passed_on e' e uid accepted log ps" and "env_ok e" and "length uid < UUID_SIZE" and "NUL \<notin> set uid"
    and "\<forall>m\<in>set log. fits_packet m"
  shows "register_loop ps = Some (if accepted then 0 else -1)" "\<forall>p\<in>set ps. packet_sized p"
    "accepted \<Longrightarrow> receiveFromServer clock (tl ps) cl =
      Some (map (\<lambda>m. chat_line (cl_username cl) (clock (packet_for e uid m)) m) log, 0)"
  using assms packet_for_props(1) [OF assms(2-4)] receiveFromServer_messages [OF assms(2-5)]
  by (auto simp: passed_on_def packet_type_defs split: if_splits)

subsection \<open>The whole way\<close>

lemma client_packet_fields:
  assumes build: "client_buildPacket e line ty c = Some p" and mem: "packet_sized (e_mem e)"
    and names: "NUL \<notin> set (cl_username c)" "NUL \<notin> set (cl_group c)" "NUL \<notin> set line" "NUL \<notin> set (cl_userId c)"
  shows "packet_sized p" "p_type p = ty" "c_str (p_user_id p) = Some (cl_userId c)"
proof -
  have f: "Packet_full (e_mem e) (e_uuid e) (take 19 (cl_username c)) (take 19 (cl_group c)) (take 253 line)
      (word_of_int (e_now e)) (cl_userId c) ty = Some p"
    using build unfolding client_buildPacket_char [OF names(1-3)] .
  show "packet_sized p" by (rule Packet_full_sized [OF f mem])
  show "p_type p = ty" using f by (auto simp: Packet_full_def bind_iff dest: sym)
  show "c_str (p_user_id p) = Some (cl_userId c)" by (rule Packet_full_user_id [OF f names(4)])
qed

text \<open>The front end plugs the client in and passes the packet on with the number of its socket.\<close>

lemma front_end_registers:
  assumes ok: "tables_ok px" and p: "p_type p = JOIN_PACKET" "c_str (p_user_id p) = Some uid"
    and step: "guarded proxy_may proxy_step (proxy_event.Client_Packet now p sock) px = Some px1"
  shows "tables_ok px1" "switch px1 uid = Some sock"
    "\<exists>server. px_sent px1 = px_sent px @ [(server, p\<lparr>p_clientSocket := word_of_int sock\<rparr>)]"
proof -
  show "tables_ok px1" by (rule tables_step [OF ok step])
  show "switch px1 uid = Some sock" using switch_proxy_step [OF ok step] p by simp
  have "registerUserSocket p sock px = Some px1"
    using step p by (simp add: guarded_Some processClientPacket_def packet_type_defs)
  then show "\<exists>server. px_sent px1 = px_sent px @ [(server, p\<lparr>p_clientSocket := word_of_int sock\<rparr>)]"
    using p(2) by (auto simp: registerUserSocket_def Let_def dest: sendToServer_char)
qed

text \<open>From the answers to the client.\<close>

lemma front_end_answers:
  assumes ans: "answers e uid accepted log (sent_to f out)" and e: "env_ok e" "env_ok e'"
    and c: "length uid < UUID_SIZE" "NUL \<notin> set uid" and sw: "switch px uid = Some s"
    and wire: "wire_carries (sent_to f out) as"
  shows "\<exists>ps px'. packets_read as = Some ps \<and> listenServerCommunication (map (Pair e') ps) sock px = Some px' \<and>
    passed_on e' e uid accepted log (sent_to s (drop (length (px_sent px)) (px_sent px')))"
proof -
  let ?ps = "sent_to f out"
  have sized: "\<forall>p\<in>set ?ps. packet_sized p \<and> c_str (p_user_id p) = Some uid" using ans by (simp add: answers_def)
  have read: "packets_read as = Some ?ps" using packets_read_carried [OF wire] sized by blast
  obtain px' where px': "listenServerCommunication (map (Pair e') ?ps) sock px = Some px'"
    using listenServerCommunication_returns [of "map (Pair e') ?ps" sock px] sized e(2) by auto
  show ?thesis
    using answers_routed [where sw = "switch px", OF ans e c sw] listenServerCommunication_routes [OF px'] read px' by auto
qed

end
