(* ===== verification/Departure_Path.thy ===== *)
theory Departure_Path
  imports Message_Path Membership
begin

section \<open>A departure from end to end\<close>

text \<open>
  The composition of the end of \<open>ProxyFE::listenClientCommunication\<close> (\<open>disconnectUser\<close>,
  \<open>handleSocketDisconnection\<close>), the server's handler of the disconnection
  (\<open>closeClientConnection\<close>, \<open>propagateSocketDisconnectionEvent\<close>, \<open>Group::disconnectSession\<close>), and the
  notice it queues for those who stay.
\<close>

subsection \<open>The notice\<close>

definition left_notices :: "timestamp \<Rightarrow> session \<Rightarrow> chat_group \<Rightarrow> message list" where
  \<comment> \<open>for a user whose only session in the group goes; one with another session leaves silently\<close>
  "left_notices now x g = map (\<lambda>u. setIsNotification (Message LEFT_GROUP_MESSAGE (u_username u) (g_groupName g) now) True)
     (filter (\<lambda>u. u_clientIdentifiers u = [x]) (g_users g))"

lemma disconnectSession_notices:
  assumes d: "disconnectSession primary now c f (g, cs) = Some (g', cs')" and "c \<noteq> f" and one: "distinct (conns g)"
  shows "g_messages_queue g' = g_messages_queue g @ (if primary then left_notices now (c, f) g else [])"
proof (cases "getUserFromConnectionId c f g")
  case None
  then have "\<forall>u\<in>set (g_users g). (c, f) \<notin> set (u_clientIdentifiers u)"
    by (auto simp: getUserFromConnectionId_def getActiveConnections_def find_index_None_iff)
  then have "filter (\<lambda>u. u_clientIdentifiers u = [(c, f)]) (g_users g) = []" by (auto simp: filter_empty_conv)
  then show ?thesis using d None by (simp add: disconnectSession_def left_notices_def)
next
  case (Some i)
  then obtain A u B where us: "g_users g = A @ u # B" "length A = i" "(c, f) \<in> set (u_clientIdentifiers u)"
    unfolding getUserFromConnectionId_def getActiveConnections_def by (auto dest!: find_index_split)
  have nth: "g_users g ! i = u" using us by auto
  obtain u' where rel: "releaseSession u c f = Some u'"
    using d Some nth by (auto simp: disconnectSession_def bind_iff Let_def)
  have nb: "c \<notin> fst ` set (butlast (u_clientIdentifiers u))"
    using rel releaseSession_defined_iff [OF assms(2), of u] by blast
  define xs where "xs = butlast (u_clientIdentifiers u)"
  have "u_clientIdentifiers u = xs @ [last (u_clientIdentifiers u)]" using us(3) by (simp add: xs_def) (metis append_butlast_last_id empty_iff list.set(1))
  then have lst: "u_clientIdentifiers u = xs @ [(c, f)]"
    using us(3) nb xs_def by (metis UnE fst_conv image_eqI list.set(1,2) set_append singletonD)
  have u': "u' = u\<lparr>u_clientIdentifiers := xs\<rparr>"
    using releaseSession_newest [OF assms(2) lst] nb rel by (simp add: xs_def)
  have "(c, f) \<notin> set (concat (map u_clientIdentifiers (A @ B)))" using one us(1) lst by (auto simp: conns_users)
  then have "filter (\<lambda>u. u_clientIdentifiers u = [(c, f)]) A = []" "filter (\<lambda>u. u_clientIdentifiers u = [(c, f)]) B = []"
    by (fastforce simp: filter_empty_conv)+
  then have "left_notices now (c, f) g = (if xs = []
      then [setIsNotification (Message LEFT_GROUP_MESSAGE (u_username u) (g_groupName g) now) True] else [])"
    using us(1) lst by (simp add: left_notices_def)
  then show ?thesis
    using d Some nth rel u'
    by (auto simp: disconnectSession_def Let_def getActiveConnections_def sendActivityMessage_def
        addMessageToMessageQueue_def split: if_splits)
qed

lemma propagate_loop_notices:
  assumes "propagate_loop tag primary now (c, f) gs cs = Some (gs', cs')" and "c \<noteq> tag" and "c \<noteq> f"
    and "\<forall>e\<in>set gs. distinct (conns (snd e))" and "map_find gs k = Some g"
  shows "\<exists>g'. map_find gs' k = Some g' \<and>
    g_messages_queue g' = g_messages_queue g @ (if primary then left_notices now (c, f) g else [])"
  using assms
proof (induction gs arbitrary: cs gs')
  case Nil
  then show ?case by simp
next
  case (Cons e gs)
  obtain j h where e: "e = (j, h)" by (cases e)
  obtain h1 cs1 gs1 where d: "disconnectSession primary now c f (h, cs) = Some (h1, cs1)"
    and rest: "propagate_loop tag primary now (c, f) gs cs1 = Some (gs1, cs')" and res: "gs' = (j, h1) # gs1"
    using Cons.prems(1,2) by (auto simp: bind_iff e handleDisconnectEvent_eq)
  show ?case
  proof (cases "k = j")
    case True
    then show ?thesis using disconnectSession_notices [OF d Cons.prems(3)] Cons.prems(4,5) by (simp add: e res)
  next
    case False
    then show ?thesis using Cons.IH [OF rest Cons.prems(2,3)] Cons.prems(4,5) by (simp add: e res)
  qed
qed

subsection \<open>The server\<close>

lemma departure_handled:
  assumes ok: "table_ok s" and d: "p_type d = DISCONNECT_PACKET" "c_str (p_user_id d) = Some uid"
    and ids: "uid \<noteq> f" "uid \<noteq> tag" and run: "handleFrontEndPacket e tag confirms f sock d s = Some s'"
  shows "members (groups_of s') = filter_mset (\<lambda>m. snd (snd m) \<noteq> (uid, f)) (members (groups_of s))"
    and "map_find (groups_of s) k = Some g \<Longrightarrow> \<exists>g'. map_find (groups_of s') k = Some g' \<and> g_messages_queue g' =
      g_messages_queue g @ (if w_primary (s_world s) then left_notices (e_now e) (uid, f) g else [])"
proof -
  obtain q t where q: "replication_step confirms f d s = Some (q, t)"
    using run by (auto simp: handleFrontEndPacket_def bind_iff)
  note keeps = replication_step_keeps [OF q]
  have kinds: "\<not> isMessage q" "\<not> isKeepAlive q" "\<not> isJoinMessage q" "isDisconnect q" "c_str (p_user_id q) = Some uid"
    using keeps d by (simp_all add: packet_kind_defs packet_type_defs)
  have close: "closeClientConnection tag (e_now e) (uid, f) t = Some s'"
    using run q kinds by (simp add: handleFrontEndPacket_def)
  have same: "groups_of t = groups_of s" "table_ok t" "w_primary (s_world t) = w_primary (s_world s)"
    using keeps ok server_ok_cong [of t s] table_of_cong [of t s] q
    by (auto simp: groups_of_def table_ok_def replication_step_def bind_iff Let_def replicate_packet_char split: if_splits)
  show "members (groups_of s') = filter_mset (\<lambda>m. snd (snd m) \<noteq> (uid, f)) (members (groups_of s))"
    using closeClientConnection_members [OF same(2) close ids(1)] same(1) ids(2) by (simp add: stays_def)
  obtain groups cs where pl: "propagate_loop tag (w_primary (s_world t)) (e_now e) (uid, f)
      (groups_of t) (s_connectionsCount t) = Some (groups, cs)" and s': "groups_of s' = groups"
    using close by (auto simp: closeClientConnection_def propagateSocketDisconnectionEvent_def bind_iff groups_of_def)
  have "\<forall>e\<in>set (groups_of t). distinct (conns (snd e))"
    using same(2) own_identifiers_conns [of "groups_of t"] by (auto simp: table_ok_def table_of_def distinct_map)
  from propagate_loop_notices [OF pl ids(2,1) this, of k g]
  show "map_find (groups_of s) k = Some g \<Longrightarrow> \<exists>g'. map_find (groups_of s') k = Some g' \<and> g_messages_queue g' =
      g_messages_queue g @ (if w_primary (s_world s) then left_notices (e_now e) (uid, f) g else [])"
    using same s' by simp
qed

subsection \<open>The front end\<close>

lemma front_end_tells_departure:
  assumes ok: "tables_ok px" and step: "guarded proxy_may proxy_step (Client_Ends e (Some uid) sock) px = Some px1"
    and e: "packet_sized (e_mem e)" "NUL \<notin> set uid"
  shows "\<exists>server d. px_sent px1 = px_sent px @ [(server, d)] \<and> packet_sized d \<and>
      p_type d = DISCONNECT_PACKET \<and> c_str (p_user_id d) = Some uid"
    and "sock \<in> set (px_closed px1)" "switch px1 u \<noteq> Some sock"
proof -
  obtain q where q: "disconnectUser e uid px = Some q" and px1: "px1 = handleSocketDisconnection sock q"
    using step by (auto simp: guarded_Some bind_iff)
  obtain d where d: "Packet_for_user (e_mem e) (e_uuid e) DISCONNECT_PACKET uid = Some d"
    and send: "sendToServer d (px_attempts px) px = Some q"
    using q by (auto simp: disconnectUser_def bind_iff)
  have "p_type d = DISCONNECT_PACKET" using d by (auto simp: Packet_for_user_def bind_iff)
  moreover have "packet_sized d"
    using d e(1) by (auto simp: Packet_for_user_def bind_iff packet_sized_def length_strcpy)
  moreover have "c_str (p_user_id d) = Some uid"
    using d e(2) by (auto simp: Packet_for_user_def bind_iff intro: c_str_strcpy)
  moreover obtain server where "px_sent q = px_sent px @ [(server, d)]"
    using sendToServer_char [OF send] by auto
  ultimately show "\<exists>server d. px_sent px1 = px_sent px @ [(server, d)] \<and> packet_sized d \<and>
      p_type d = DISCONNECT_PACKET \<and> c_str (p_user_id d) = Some uid"
    by (auto simp: px1 handleSocketDisconnection_def Let_def)
  show "sock \<in> set (px_closed px1)" by (simp add: px1 handleSocketDisconnection_def Let_def)
  show "switch px1 u \<noteq> Some sock"
    using switch_proxy_step [OF ok step] by (simp add: unplug_def)
qed

end
