(* ===== verification/Spec2Isabelle.thy ===== *)
theory Spec2Isabelle
  imports Server_Properties Message_Properties Thread_Properties Ring_Properties Edge_Properties
    Concurrency_Properties Group_Properties Registration_Path Departure_Path
begin

text \<open>
  A verification library for the replicated instant messenger of this repository (C++ under
  \<open>src/\<close>, headers under \<open>include/\<close>).

  THE PROGRAM. A client (\<open>src/client/client.cpp\<close>) sends what its user types to a front end
  (\<open>src/proxy_fe/ProxyFE.cpp\<close>), which passes every packet to the primary server and routes the
  server's packets back to the client they name. The server (\<open>src/server/server.cpp\<close>) keeps
  groups of users (\<open>server_group_manager.cpp\<close>, \<open>Group.cpp\<close>, \<open>util/user.cpp\<close>), queues the
  messages of each group for a consumer thread that writes the history
  (\<open>util/file_system_manager.cpp\<close>) and sends the message to every session of the group
  (\<open>server_message_manager.cpp\<close>, \<open>FeAddressBook.cpp\<close>). Servers replicate passively: the
  primary repeats every packet that changes its state to the backups. The servers also form a ring
  (\<open>ServersRing.cpp\<close>) in which the loss of the primary is noticed and a new one is elected
  (\<open>Election.cpp\<close>). All processes exchange one structure, \<open>Packet\<close>, over TCP
  (\<open>util/Socket.cpp\<close>), and watch each other with keep-alives (\<open>util/ConnectionMonitor.cpp\<close>,
  \<open>util/ConnectionKeeper.cpp\<close>). Shared tables are protected by \<open>util/Semaphore.cpp\<close>.

  CONVENTIONS. The state of an object or process is a record passed through its operations; every
  operation of the code is a definition of the same name. \<open>None\<close> is undefined behaviour of C++
  (a string without terminator, a copy that does not fit, a read past a vector, a write past an
  array), or, where the definition says so, a call that does not return. \<open>Inl\<close> is an exception
  nobody catches or an exit of the process. What the code takes from outside is an argument: the
  results of system calls; the record \<open>env\<close> with the time, the identifier that
  \<open>generate_uuid_v4\<close> returns and the earlier content of the storage an object is built in, since
  several constructors leave members unwritten; the bytes that arrive on a connection, in pieces
  of any size; and each read of \<open>FE_DISCONNECT\<close>, which points into freed storage. Integers of the
  packet are words of 32 and 64 bits; sockets, times and counters, which the code does not bring
  near their bounds, are integers. A \<open>std::map\<close> is an association list in key order, whose
  \<open>operator[]\<close> stores a default value when it reads a missing key.

  THE THEORIES, in the order they are built.
    \<open>Prelude\<close>: constants of \<open>util/definitions.hpp\<close>, loops in the option monad, the
      range-based \<open>for\<close> that erases from its own vector, and three contracts for machines that
      take events: \<open>event_machine\<close> (an invariant), \<open>refined_machine\<close> (an abstract view) and
      \<open>typed_machine\<close> (progress and preservation), with what they give for whole runs.
    \<open>Std_Map\<close>, \<open>C_Text\<close>: the parts of the standard library that the code uses: maps, fixed
      character buffers, \<open>getline\<close>, \<open>stoi\<close>, \<open>to_string\<close>.
    \<open>Semaphores\<close>: \<open>util/Semaphore.cpp\<close> as a step relation over any number of threads.
    \<open>Lock_Order\<close>: threads over several semaphores as sequences of waits and posts, and the
      contract \<open>ranked_locks\<close>: an order of the semaphores that every thread keeps to.
    \<open>Users\<close>, \<open>Packets\<close>, \<open>Sockets\<close>: \<open>util/message.cpp\<close>, \<open>util/user.cpp\<close>,
      \<open>include/util/Packet.hpp\<close> with the layout of a packet in memory, \<open>util/Uuid.cpp\<close>,
      \<open>readPacket\<close> and \<open>sendPacket\<close>.
    \<open>History\<close>, \<open>History_Log\<close>: the files of a group, and the bounded log they implement.
    \<open>Delivery\<close>, \<open>Chat_Groups\<close>, \<open>Group_Sessions\<close>, \<open>Group_Delivery\<close>, \<open>Group_Manager\<close>:
      addresses, sending, groups, and what joining, leaving and a round of the consumer do.
    \<open>Keep_Alive\<close>: the monitor over timed events, the sender over the results of its writes.
    \<open>Handoff\<close>: the three queues between threads (of a group, of a client, the front end's slot),
      each a step relation in which every access to shared data is one step.
    \<open>Server_State\<close>, \<open>Server_Invariant\<close>, \<open>Server_Threads\<close>: the handlers of the server, its
      events and the invariant of its sessions, its listening threads from start to end.
    \<open>Replication\<close>: primary and backup under the same packets.
    \<open>Membership\<close>: the server as an implementation of a table of members.
    \<open>Server_Types\<close>, \<open>Server_Progress\<close>: which inputs keep the server in defined behaviour.
    \<open>Elections\<close>, \<open>Ring\<close>, \<open>Ring_Election\<close>, \<open>Listening\<close>, \<open>Ring_Threads\<close>: one server's part in
      an election, the ports and the connections of the ring, the election around a whole ring,
      the listening sockets, the threads, and fail-over as their composition.
    \<open>Proxy_FE\<close>, \<open>Proxy_Threads\<close>: the front end's handlers and threads, and the switch it implements.
    \<open>Clients\<close>, \<open>Message_Path\<close>: the client; the way of a message from a group's queue to the
      lines that its members see.
    \<open>Apps\<close>: the three \<open>main\<close> functions, their command lines and signal handlers.
    \<open>Server_Locks\<close>, \<open>Proxy_Locks\<close>: for every operation and thread of the server and of the front
      end, the waits and posts it makes, in the code's order; the signal handler that runs in one of them.
    \<open>Thread_Start\<close>: the starting of the server's two threads for a front end, which are handed the
      address of one variable.
    \<open>Join_Race\<close>, \<open>Close_Race\<close>: \<open>registerUserToGroup\<close> and \<open>closeFrontEndConnection\<close> broken up into
      their critical sections, run by several threads over one heap.
    \<open>Join_Window\<close>: a group whose consumer thread, the threads inside \<open>registerNewSession\<close>, and those
      that say something or remove sessions take turns between the critical sections. \<open>Screens\<close>: what such a group sends, carried on through
      front end and wire to the lines that its members see.
    \<open>File_Race\<close>: the file of a group as an entry of a directory that several threads open, crop, rename and append
      to, one call of the operating system at a time.
    \<open>Link_Order\<close>, \<open>Stale_Reader\<close>: the front end's threads over one connection to the server, and the
      confirmations that a new primary waits for while its old reading thread is still there.
    \<open>Registration_Path\<close>, \<open>Departure_Path\<close>: the registration of a client through front end and
      server and back, and its departure.
    \<open>Samples\<close> has the concrete states of the witnesses; \<open>Server_Properties\<close>,
    \<open>Message_Properties\<close>, \<open>Thread_Properties\<close>, \<open>Ring_Properties\<close>, \<open>Edge_Properties\<close>,
    \<open>Concurrency_Properties\<close>, \<open>Group_Properties\<close> and this theory state the properties, each with a witness where it has
    hypotheses.

  THE INTERFACES. \<open>map_table\<close>: the laws of the tables, interpreted on the association lists
  (\<open>std_map\<close>). \<open>history_store\<close>: a store that answers with the last messages appended,
  interpreted on the file operations (\<open>csv\<close>). \<open>courier\<close>: what sending a message to a list of
  sessions puts on the wire, interpreted on \<open>sendMessageToSession\<close> (\<open>direct\<close>).
  \<open>signalled_queue\<close>: a queue whose consumer sleeps on a mutex, interpreted on all three queues
  (\<open>group_queue\<close>, \<open>client_queue\<close>, \<open>fe_slot\<close>). \<open>event_machine\<close>: interpreted on the server
  (\<open>server\<close>), on a primary with its backup (\<open>pair\<close>), twice on the front end (\<open>proxy\<close>,
  \<open>proxy_connection\<close>), on threads that register at once (\<open>joins\<close>), on threads that close
  connections at once (\<open>closers\<close>) and on a group between its threads (\<open>rooms\<close>). \<open>ranked_locks\<close>: the semaphores of the server
  (\<open>server_semaphores\<close>) and of the front end (\<open>proxy_semaphores\<close>). \<open>refined_machine\<close>: the server as a table of members (\<open>membership\<close>)
  and the front end as a switch (\<open>front_end\<close>). \<open>typed_machine\<close>: the server (\<open>typed_server\<close>).

  WHAT IS SHOWN. Sessions: counts agree with groups under every sequence of events, the limit of
  two sessions, the exact effect of joining, leaving and of losing a front end, and all of it as
  the refinement of a multiset of members. Replication: a backup stays in step under replicated
  packets, and the event that breaks this. Definedness: well-typed input never takes the server out of
  defined behaviour, and the exact condition under which a session can leave. Messages: from a typed
  line to the queue of its group, and from the queue to the lines its members see; the history as a
  bounded log; packets from byte streams however they are cut. Threads: exclusion and freedom from
  deadlock of the semaphore and what a spurious wake-up does, the three queues lose, duplicate and
  reorder nothing, the monitor times out exactly the silent connections. Ring: the first free port,
  the elected server, recovery from the loss of the primary. Front end: inverse tables, routing,
  reconnection, delivery to the server, the number of clients it can take. Registration: what a
  client asks and what it is told, through both processes; departure: what both forget, and whom
  the others are told has left. A group between its threads: a client that joins while others talk sees the history as it was when it was read and everything sent
  out after its entry, the screens of all members show one order of messages, and what is sent out in between is missed
  or repeated; the file of the history is safe without a semaphore below its limit, and can be lost
  to two threads that crop it at once. Concurrency: no set of threads of
  the server, or of the front end, waits for each other's semaphores for ever, however the
  threads alternate; a signal that arrives inside a critical section does. Registrations that overlap
  have the effect of some order of them once their group exists, and lose a session when they
  create it together; closings that overlap remove each session once, write a count that nobody lost, but
  shut the same descriptor down twice when both were started for one front end, and miss a
  session that joins behind them. The packets of a client keep their order up to the one in
  the front end's slot, which a disconnection overtakes. After a fail-over the new primary gets each
  confirmation within five steps of its threads, though its old reading thread still reads from the
  same connections.

  BOUNDS. Loops that wait for other processes are either \<open>partial_function\<close>s or recursions on
  the list of what the environment answers: an answer list that ends is a loop still waiting, and
  the theorems say how long a list is enough. The bind loop returns when one of the ports of the
  file is free and does not when none is (\<open>server_takes_first_free_port\<close>). An election of
  \<open>n\<close> servers needs at most \<open>3 * n\<close> hops (\<open>election_elects_largest\<close>). The connect loop needs one
  attempt for each dead server and one more (\<open>failover_elects_successor\<close>). \<open>sendToServer\<close>
  returns exactly when one of the attempts succeeds (\<open>sent_to_server_once\<close>). The threads of
  \<open>n\<close> front ends are started after at most \<open>9 * n + 3\<close> steps (\<open>start_ends\<close>). A run of threads over semaphores
  needs no bound: from every reachable state some thread can step, and every step shortens what is left.

  NOT MODELLED. Output to the terminal and what only prints (\<open>printPortNumber\<close>,
  \<open>printRMConnections\<close>, \<open>printSockets\<close>), getters and setters without a caller, the creation of
  threads beyond the fact that they run, the waiting loops of the server's \<open>main\<close>, the
  installation of signal handlers, failures of the file system, memory that is never freed and
  double frees. Interleavings are modelled where threads share data without a lock around the whole
  operation (the queues, the semaphore, the monitor, the registrations, the closings, the entry into a group that
  talks, the file of a group, the start of threads, the front end's connection); all lines of a file are read in
  one step; in the other theories an operation under a semaphore is a
  single step, and everywhere one access to shared memory is one: the data races that C++ leaves undefined
  are reported where they occur, not given a meaning. Waiting for the network inside a critical
  section is not part of the model of the semaphores. The constant \<open>FE_DISCONNECT\<close> is not a definition, as its storage is gone when it is read.
  Headers and sources without code that anything calls (\<open>user_interface\<close>,
  \<open>client_message_manager\<close>, \<open>client_communication\<close>, \<open>server_communication_manager.h\<close>) and the build files have
  no counterpart.
\<close>

section \<open>Across the components\<close>

lemma client_message_packet:
  assumes build: "client_buildPacket e line MESSAGE_PACKET c = Some p" and mem: "packet_sized (e_mem e)"
    and names: "NUL \<notin> set (cl_username c)" "NUL \<notin> set (cl_group c)" "NUL \<notin> set line"
  shows "packet_sized p \<and> p_type p = MESSAGE_PACKET"
  using build mem unfolding client_buildPacket_char [OF names]
  by (auto simp: Packet_full_sized) (auto simp: Packet_full_def bind_iff)

lemma message_packet_queued:
  assumes run: "handleFrontEndPacket e tag confirms f sock p s = Some s'" and ty: "p_type p = MESSAGE_PACKET"
    and texts: "c_str (p_username p) = Some name" "c_str (p_message p) = Some t" "c_str (p_group p) = Some gname"
    and g: "map_find (groups_of s) gname = Some g" and ok: "server_ok s"
  shows "map_find (groups_of s') gname = Some (addMessageToMessageQueue (Message t name gname (e_now e)) g) \<and>
    (\<forall>k. k \<noteq> gname \<longrightarrow> map_find (groups_of s') k = map_find (groups_of s) k)"
proof -
  obtain q u v where q: "replication_step confirms f p s = Some (q, u)"
    and v: "sendAck e sock q u = Some v" "handleMessage e q v = Some s'"
    using run ty replication_step_keeps
    by (fastforce simp: handleFrontEndPacket_def bind_iff packet_kind_defs packet_type_defs split: if_splits)
  have keep: "p_username q = p_username p" "p_group q = p_group p" "p_message q = p_message p"
      "s_manager v = s_manager s"
    using replication_step_keeps [OF q] v(1) by (auto simp: sendAck_def bind_iff Let_def)
  have "g_groupName g = gname" using ok g groups_ok_find by (auto simp: server_ok_def)
  then show ?thesis
    using v(2) keep texts g
    by (auto simp: handleMessage_def processReceivedPacket_def groups_of_def processReceivedMessage_def)
qed

text \<open>
  C3: A line typed by a client reaches its group: the packet built from it survives the wire
  however its bytes are cut up, the front end stores and forwards it unchanged, and the server that
  receives it appends exactly one message to the group's queue, with the first 253 characters of the
  line, the client's name and the server's time; no other group changes.
\<close>

theorem typed_line_reaches_group:
  assumes build: "client_buildPacket e line MESSAGE_PACKET c = Some p" and mem: "packet_sized (e_mem e)"
    and names: "NUL \<notin> set (cl_username c)" "NUL \<notin> set (cl_group c)" "NUL \<notin> set line"
      "length (cl_username c) < 19" "length (cl_group c) < 19"
    and wire: "length pad = 11" "stream_bytes arrivals = packet_image pad p" "chunks_ok arrivals" "closes arrivals"
    and fe: "processClientPacket now p sock px = Some px1" "forwardMessage p px1 = Some px2"
    and server: "server_ok s" "map_find (groups_of s) (cl_group c) = Some g"
      "handleFrontEndPacket e' tag confirms f feSocket p s = Some s'"
  shows "map_option (map image_packet) (receive_loop arrivals) = Some [p] \<and>
    px_stored px1 = px_stored px @ [p] \<and> (\<exists>server. px_sent px2 = px_sent px @ [(server, p)]) \<and>
    map_find (groups_of s') (cl_group c) = Some (addMessageToMessageQueue
      (Message (take 253 line) (cl_username c) (cl_group c) (e_now e')) g) \<and>
    (\<forall>k. k \<noteq> cl_group c \<longrightarrow> map_find (groups_of s') k = map_find (groups_of s) k)"
proof -
  have p: "packet_sized p" "p_type p = MESSAGE_PACKET"
    using client_message_packet [OF build mem names(1-3)] by simp_all
  have "receive_loop arrivals = Some [packet_image pad p]"
    using receive_loop_images [of "[packet_image pad p]" arrivals] wire length_packet_image [OF p(1) wire(1)] by simp
  moreover have px1: "px1 = processIncomingClientMessage p px"
    using fe(1) p(2) by (simp add: processClientPacket_def)
  moreover have "px_sent px1 = px_sent px" using px1 by (simp add: processIncomingClientMessage_def)
  then have "\<exists>server. px_sent px2 = px_sent px @ [(server, p)]"
    using sendToServer_char [OF fe(2) [unfolded forwardMessage_def]] by auto
  moreover have "c_str (p_username p) = Some (cl_username c)" "c_str (p_group p) = Some (cl_group c)"
      "c_str (p_message p) = Some (take 253 line)"
    using client_buildPacket_names [OF build names] client_buildPacket_message [OF build names(1-3)] by simp_all
  ultimately show ?thesis
    using message_packet_queued [OF server(3) p(2) _ _ _ server(2,1)] image_packet_image [OF p(1) wire(1)]
    by (simp add: processIncomingClientMessage_def)
qed

theorem typed_line_reaches_group_witness:
  "\<exists>p s'. client_buildPacket sample_env ''hello'' MESSAGE_PACKET (sample_client ''anna'') = Some p \<and>
     handleFrontEndPacket sample_env ''fe-gone'' (\<lambda>r. True) fe1 5 p (sample_server True) = Some s' \<and>
     map_find (groups_of s') ''room'' =
       Some (addMessageToMessageQueue (Message ''hello'' ''anna'' ''room'' 100) sample_room)"
proof -
  let ?c = "sample_client ''anna''"
  have "map_option (\<lambda>p. handleFrontEndPacket sample_env ''fe-gone'' (\<lambda>r. True) fe1 5 p (sample_server True) \<noteq> None \<and>
      processClientPacket 100 p 7 sample_proxy \<noteq> None \<and>
      Option.bind (processClientPacket 100 p 7 sample_proxy) (forwardMessage p) \<noteq> None)
    (client_buildPacket sample_env ''hello'' MESSAGE_PACKET ?c) = Some True"
    by code_simp
  then obtain p s' px1 px2 where run: "client_buildPacket sample_env ''hello'' MESSAGE_PACKET ?c = Some p"
      "handleFrontEndPacket sample_env ''fe-gone'' (\<lambda>r. True) fe1 5 p (sample_server True) = Some s'"
      "processClientPacket 100 p 7 sample_proxy = Some px1" "forwardMessage p px1 = Some px2"
    by (auto simp: bind_iff)
  have mem: "packet_sized (e_mem sample_env)" using sample_env_ok by (simp add: env_ok_def)
  have c: "NUL \<notin> set (cl_username ?c)" "NUL \<notin> set (cl_group ?c)" "NUL \<notin> set ''hello''"
      "length (cl_username ?c) < 19" "length (cl_group ?c) < 19" "cl_group ?c = ''room''" "cl_username ?c = ''anna''"
    by (simp_all add: sample_client_def)
  let ?im = "packet_image (replicate 11 CHR ''x'') p"
  have ne: "?im \<noteq> []"
    using client_message_packet [OF run(1) mem c(1-3)] length_packet_image [of p "replicate 11 CHR ''x''"]
    by (auto simp: packetSize_def)
  have w: "length (replicate 11 CHR ''x'') = 11" "stream_bytes [Bytes ?im, Closed] = ?im"
      "chunks_ok [Bytes ?im, Closed]" "closes [Bytes ?im, Closed]"
    using ne by (simp_all add: chunks_ok_def)
  have g: "map_find (groups_of (sample_server True)) (cl_group ?c) = Some sample_room" by code_simp
  have "e_now sample_env = 100" "take 253 ''hello'' = ''hello''" by (simp_all add: sample_env_def)
  then show ?thesis
    using typed_line_reaches_group [OF run(1) mem c(1-5) w run(3,4) sample_server_ok g run(2)] run(1,2) c(6,7)
    by simp
qed

lemma consumeGroup_sends:
  assumes typed: "server_typed s" and e: "env_ok e" and g: "map_find (groups_of s) gname = Some g"
    and run: "\<not> g_consumer_locked g" "w_primary (s_world s)" "consumeGroup e gname s = Some s'"
  shows "w_sent (s_world s') = w_sent (s_world s) @
    queue_packets e (w_book (s_world s)) (conns g) (g_messages_queue g)"
proof -
  note gt = server_typedD(4) [OF typed g]
  obtain log where log: "history_rep (g_maxMessages g) (g_groupName g) log (w_files (s_world s))"
    using gt by (auto simp: group_typed_def readable_def)
  have "\<forall>m\<in>set (g_messages_queue g). m_isNotification m \<or> storable m \<and> m_group m = g_groupName g"
    using gt by (simp add: group_typed_def queue_typed_def)
  from consumeMessageQueue_effect [OF e _ run(1) log this] gt show ?thesis
    using g run(2,3) by (auto simp: consumeGroup_def groups_of_def Let_def)
qed

text \<open>
  C4: What is queued in a group reaches its members: one round of the consumer thread, the wire, a
  front end in any state its threads can bring about, the wire again and the client's receiving
  thread together show a member whose client is plugged into the front end exactly the messages
  of the queue, each once and in order, as lines with sender and text; however the bytes are cut
  up on the way.
\<close>

theorem queue_shown_to_members:
  assumes typed: "server_typed s" and envs: "env_ok e" "env_ok e'"
    and g: "map_find (groups_of s) gname = Some g" "\<not> g_consumer_locked g" "w_primary (s_world s)"
    and consumer: "consumeGroup e gname s = Some s'"
    and ids: "own_identifiers (members (groups_of s))" "\<forall>x\<in>set (conns g). NUL \<notin> set (fst x)"
    and msgs: "\<forall>m\<in>set (g_messages_queue g). fits_packet m"
    and member: "(c, f) \<in> set (conns g)"
    and fe: "foldM (guarded proxy_may proxy_step) evs (ProxyFE attempts) = Some px"
      "fold switch_step evs Map.empty c = Some cs"
    and wire: "wire_carries (sent_to (socket_of (w_book (s_world s)) f)
      (drop (length (w_sent (s_world s))) (w_sent (s_world s')))) as"
  shows "\<exists>ps px'. packets_read as = Some ps \<and> listenServerCommunication (map (Pair e') ps) sock px = Some px' \<and>
    (\<forall>as'. wire_carries (sent_to cs (drop (length (px_sent px)) (px_sent px'))) as' \<longrightarrow>
      (\<exists>ps'. packets_read as' = Some ps' \<and> receiveFromServer clock ps' cl =
        Some (map (\<lambda>m. chat_line (cl_username cl) (clock (packet_for e c m)) m) (g_messages_queue g), 0)))"
proof -
  note gt = server_typedD(4) [OF typed g(1)]
  have cs: "\<forall>x\<in>set (conns g). length (fst x) < UUID_SIZE \<and> NUL \<notin> set (fst x)"
    using group_ok_conns(1) [of g] gt ids(2) by blast
  have one: "distinct (map fst (conns g))"
    using own_identifiers_conns [OF ids(1)] map_find_in_set [OF g(1)] by force
  have px: "tables_ok px" "switch px c = Some cs"
    using proxy.run_inv [OF fe(1)] front_end.run_view [OF fe(1)] tables_ok_ProxyFE fe(2)
    by (simp_all add: switch_ProxyFE)
  have "wire_carries (sent_to (socket_of (w_book (s_world s)) f)
      (queue_packets e (w_book (s_world s)) (conns g) (g_messages_queue g))) as"
    using wire consumeGroup_sends [OF typed envs(1) g consumer] by simp
  from front_end_forwards_round [OF envs cs one member px this] obtain ps px' where
      fwd: "packets_read as = Some ps" "listenServerCommunication (map (Pair e') ps) sock px = Some px'"
        "sent_to cs (drop (length (px_sent px)) (px_sent px')) = map (packet_for e c) (g_messages_queue g)"
    by blast
  have c: "length c < UUID_SIZE" "NUL \<notin> set c" using cs member by force+
  have "\<forall>p\<in>set (map (packet_for e c) (g_messages_queue g)). packet_sized p"
    using packet_for_props(1) [OF envs(1) c] by simp
  then show ?thesis
    using fwd packets_read_carried receiveFromServer_messages [OF envs(1) c msgs] by metis
qed

lemma sample_server_typed: "server_typed (sample_server True)"
proof -
  have g: "map_find (groups_of (sample_server True)) k = Some g \<Longrightarrow> queue_typed k g" for k g
    by (auto simp: sample_server_def groups_of_def queue_typed_def sample_room_def split: if_splits)
  have "limit_of (sample_server True) k = 0" for k
    by (auto simp: limit_of_def sample_server_def groups_of_def sample_room_def)
  moreover have "w_files (s_world (sample_server True)) = []" "w_sent (s_world (sample_server True)) = []"
    by (simp_all add: sample_server_def)
  ultimately show ?thesis
    using sample_server_ok no_files_readable g
    by (simp add: server_typed_def sent_typed_def)
qed

theorem queue_shown_to_members_witness:
  "\<exists>s s' px px' ps as' ps'. server_step (from_fe1 say_anna) (sample_server True) = Some s \<and>
     consumeGroup sample_env ''room'' s = Some s' \<and>
     foldM (guarded proxy_may proxy_step) sample_joins (ProxyFE [(4, True), (4, True)]) = Some px \<and>
     listenServerCommunication (map (Pair sample_env) ps) 4 px = Some px' \<and>
     wire_carries (sent_to 8 (drop (length (px_sent px)) (px_sent px'))) as' \<and> packets_read as' = Some ps' \<and>
     receiveFromServer (\<lambda>p. (9, 5, 0)) ps' (sample_client ''bob'') =
       Some ([chat_line ''bob'' (9, 5, 0) (Message ''hello'' ''anna'' ''room'' 100)], 0)"
proof -
  let ?m = "Message ''hello'' ''anna'' ''room'' 100"
  let ?g = "addMessageToMessageQueue ?m sample_room"
  let ?joins = "foldM (guarded proxy_may proxy_step) sample_joins (ProxyFE [(4, True), (4, True)])"
  have "(map_option (\<lambda>s. map_find (groups_of s) ''room'' = Some ?g \<and> w_primary (s_world s) \<and>
      distinct (map fst (all_conns (groups_of s))) \<and> consumeGroup sample_env ''room'' s \<noteq> None)
    (server_step (from_fe1 say_anna) (sample_server True)) = Some True \<and> ?joins \<noteq> None \<and>
    event_typed (from_fe1 say_anna) \<and> \<not> isDisconnect say_anna \<and>
    fold switch_step sample_joins Map.empty ''id-bob'' = Some 8 \<and> \<not> g_consumer_locked ?g \<and>
    (''id-bob'', fe1) \<in> set (conns ?g) \<and> list_all (\<lambda>x. NUL \<notin> set (fst x)) (conns ?g) \<and> g_messages_queue ?g = [?m])"
    by code_simp
  then obtain s s' px where s: "server_step (from_fe1 say_anna) (sample_server True) = Some s"
      "map_find (groups_of s) ''room'' = Some ?g" "w_primary (s_world s)" "distinct (map fst (all_conns (groups_of s)))"
      "consumeGroup sample_env ''room'' s = Some s'"
    and px: "?joins = Some px" "fold switch_step sample_joins Map.empty ''id-bob'' = Some 8"
    and t: "event_typed (from_fe1 say_anna)" "\<not> isDisconnect say_anna"
    and g: "\<not> g_consumer_locked ?g" "(''id-bob'', fe1) \<in> set (conns ?g)" "\<forall>x\<in>set (conns ?g). NUL \<notin> set (fst x)"
      "g_messages_queue ?g = [?m]"
    by (auto simp only: list_all_iff map_option_eq_Some not_None_eq option.inject)
  have typed: "server_typed s" using server_progress [OF sample_server_typed t(1)] t(2) s(1) by auto
  have fits: "\<forall>m\<in>set (g_messages_queue ?g). fits_packet m"
    unfolding g(4) by (simp add: fits_packet_def Message_def size_defs)
  have env: "env_ok sample_env" by (rule sample_env_ok)
  have own: "own_identifiers (members (groups_of s))" using s(4) by (simp add: own_identifiers_distinct)
  obtain as where as: "wire_carries (sent_to (socket_of (w_book (s_world s)) fe1)
      (drop (length (w_sent (s_world s))) (w_sent (s_world s')))) as"
    using wire_carries_some by blast
  obtain ps px' where r: "listenServerCommunication (map (Pair sample_env) ps) 4 px = Some px'"
      "\<forall>as'. wire_carries (sent_to 8 (drop (length (px_sent px)) (px_sent px'))) as' \<longrightarrow>
        (\<exists>ps'. packets_read as' = Some ps' \<and> receiveFromServer (\<lambda>p. (9, 5, 0)) ps' (sample_client ''bob'') =
          Some (map (\<lambda>m. chat_line ''bob'' (9, 5, 0) m) [?m], 0))"
    using queue_shown_to_members [OF typed env env s(2) g(1) s(3,5) own g(3) fits g(2) px as,
      of 4 "\<lambda>p. (9, 5, 0)" "sample_client ''bob''"]
    unfolding g(4) by (auto simp: sample_client_def)
  obtain as' where "wire_carries (sent_to 8 (drop (length (px_sent px)) (px_sent px'))) as'"
    using wire_carries_some by blast
  then show ?thesis using s(1,5) px(1) r by fastforce
qed

text \<open>
  C5: A registration from end to end: the client's join packet goes through a front end in any
  state its threads can bring about to the primary, whose answer and history come back the
  same way, however the bytes are cut up. The client is told it has joined exactly when its user
  has fewer than two sessions, which is exactly when the server counts one more session of this
  user and of nobody else; it then shows the last messages of the group, oldest first.
\<close>

theorem registration_end_to_end:
  assumes join: "client_buildPacket e0 ''<Entered the group>'' JOIN_PACKET c = Some p" "packet_sized (e_mem e0)"
    and names: "NUL \<notin> set (cl_username c)" "NUL \<notin> set (cl_group c)" "length (cl_username c) < 19" "length (cl_group c) < 19"
    and uid: "NUL \<notin> set (cl_userId c)" "length (cl_userId c) < UUID_SIZE" "cl_userId c \<noteq> f"
    and fe: "foldM (guarded proxy_may proxy_step) evs (ProxyFE attempts) = Some px"
      "guarded proxy_may proxy_step (proxy_event.Client_Packet now p sock) px = Some px1"
    and server: "server_ok s" "w_primary (s_world s)" "env_ok e"
      "history_rep (limit_of s (cl_group c)) (cl_group c) log (w_files (s_world s))" "\<forall>m\<in>set log. fits_packet m"
      "socket_of (w_book (s_world s)) f \<notin> fst ` set (s_rm_sockets s)"
      "handleFrontEndPacket e tag confirms f feSocket (p\<lparr>p_clientSocket := word_of_int sock\<rparr>) s = Some s'"
    and answer: "wire_carries (sent_to (socket_of (w_book (s_world s)) f)
        (drop (length (w_sent (s_world s))) (w_sent (s_world s')))) as" "env_ok e'"
    and accepted: "accepted \<longleftrightarrow> total_sessions (cl_username c) (groups_of s) < MAX_NUMBER_OF_SIMULTANEOUS_CONNECTIONS"
    and shown: "shown = last_n (history_limit (limit_of s (cl_group c))) log"
  shows "(\<exists>server. px_sent px1 = px_sent px @ [(server, p\<lparr>p_clientSocket := word_of_int sock\<rparr>)]) \<and>
    total_sessions n (groups_of s') = total_sessions n (groups_of s) + (if n = cl_username c \<and> accepted then 1 else 0) \<and>
    (\<exists>ps px2. packets_read as = Some ps \<and> listenServerCommunication (map (Pair e') ps) rm px1 = Some px2 \<and>
      (\<forall>as'. wire_carries (sent_to sock (drop (length (px_sent px1)) (px_sent px2))) as' \<longrightarrow>
        (\<exists>ps'. packets_read as' = Some ps' \<and>
          registerToServer e0 ps' c = Some (if accepted then (Some 0, c, p) else (Some (-1), c\<lparr>cl_sockfd := -1\<rparr>, p)) \<and>
          (accepted \<longrightarrow> receiveFromServer clock (tl ps') c =
            Some (map (\<lambda>m. chat_line (cl_username c) (clock (packet_for e (cl_userId c) m)) m) shown, 0)))))"
proof -
  let ?q = "p\<lparr>p_clientSocket := word_of_int sock\<rparr>"
  have line: "NUL \<notin> set ''<Entered the group>''" by simp
  note fields = client_packet_fields [OF join names(1,2) line uid(1)]
  have px: "tables_ok px" using proxy.run_inv [OF fe(1)] tables_ok_ProxyFE by simp
  note front = front_end_registers [OF px fields(2,3) fe(2)]
  have q: "p_type ?q = JOIN_PACKET" "c_str (p_username ?q) = Some (cl_username c)" "c_str (p_user_id ?q) = Some (cl_userId c)"
      "c_str (p_group ?q) = Some (cl_group c)" "ids_apart ?q f"
    using fields client_buildPacket_names [OF join(1) names(1,2) line names(3,4)] uid(3)
    by (simp_all add: ids_apart_def packet_sized_def)
  note answered = join_answered [OF server(1,3,2) q server(4,6,7), folded accepted shown]
  obtain ps px2 where run: "packets_read as = Some ps" "listenServerCommunication (map (Pair e') ps) rm px1 = Some px2"
      "passed_on e' e (cl_userId c) accepted shown (sent_to sock (drop (length (px_sent px1)) (px_sent px2)))"
    using front_end_answers [OF answered(1) server(3) answer(2) uid(2,1) front(2) answer(1)] by blast
  have "\<forall>m\<in>set shown. fits_packet m" using server(5) set_last_n [of "history_limit (limit_of s (cl_group c))" log] unfolding shown by blast
  note client = passed_on_registers [OF run(3) server(3) uid(2,1) this]
  have "registerToServer e0 ps' c = Some (if accepted then (Some 0, c, p) else (Some (-1), c\<lparr>cl_sockfd := -1\<rparr>, p))"
    if "ps' = sent_to sock (drop (length (px_sent px1)) (px_sent px2))" for ps'
    using client(1) join(1) that by (simp add: registerToServer_def)
  then have "\<forall>as'. wire_carries (sent_to sock (drop (length (px_sent px1)) (px_sent px2))) as' \<longrightarrow>
      (\<exists>ps'. packets_read as' = Some ps' \<and>
        registerToServer e0 ps' c = Some (if accepted then (Some 0, c, p) else (Some (-1), c\<lparr>cl_sockfd := -1\<rparr>, p)) \<and>
        (accepted \<longrightarrow> receiveFromServer clock (tl ps') c =
          Some (map (\<lambda>m. chat_line (cl_username c) (clock (packet_for e (cl_userId c) m)) m) shown, 0)))"
    using packets_read_carried client(2,3) by blast
  then show ?thesis using front(3) answered(2) run(1,2) by blast
qed

theorem registration_end_to_end_witness:
  "\<exists>p s' px px1 px2 ps as' ps'.
     client_buildPacket sample_env ''<Entered the group>'' JOIN_PACKET ((sample_client ''bob'')\<lparr>cl_userId := ''id-bob-2''\<rparr>) = Some p \<and>
     foldM (guarded proxy_may proxy_step) sample_joins (ProxyFE [(4, True), (4, True), (4, True)]) = Some px \<and>
     proxy_step (proxy_event.Client_Packet 102 p 9) px = Some px1 \<and>
     handleFrontEndPacket sample_env ''fe-gone'' (\<lambda>r. True) fe1 5 (p\<lparr>p_clientSocket := 9\<rparr>)
       ((sample_server True)\<lparr>s_world := spoken_world\<rparr>) = Some s' \<and>
     total_sessions ''bob'' (groups_of s') = 2 \<and>
     listenServerCommunication (map (Pair sample_env) ps) 4 px1 = Some px2 \<and>
     wire_carries (sent_to 9 (drop (length (px_sent px1)) (px_sent px2))) as' \<and> packets_read as' = Some ps' \<and>
     (\<exists>cl. registerToServer sample_env ps' ((sample_client ''bob'')\<lparr>cl_userId := ''id-bob-2''\<rparr>) = Some (Some 0, cl, p)) \<and>
     receiveFromServer (\<lambda>p. (9, 5, 0)) (tl ps') ((sample_client ''bob'')\<lparr>cl_userId := ''id-bob-2''\<rparr>) =
       Some ([chat_line ''bob'' (9, 5, 0) sample_message], 0)"
proof -
  let ?c = "(sample_client ''bob'')\<lparr>cl_userId := ''id-bob-2''\<rparr>"
  let ?s = "(sample_server True)\<lparr>s_world := spoken_world\<rparr>"
  let ?joins = "foldM (guarded proxy_may proxy_step) sample_joins (ProxyFE [(4, True), (4, True), (4, True)])"
  let ?p = "client_buildPacket sample_env ''<Entered the group>'' JOIN_PACKET ?c"
  have "map_option (\<lambda>p. handleFrontEndPacket sample_env ''fe-gone'' (\<lambda>r. True) fe1 5 (p\<lparr>p_clientSocket := word_of_int 9\<rparr>) ?s \<noteq> None) ?p =
      Some True \<and> Option.bind ?p (\<lambda>p. map_option (\<lambda>px. guarded proxy_may proxy_step (proxy_event.Client_Packet 102 p 9) px \<noteq> None) ?joins) = Some True \<and>
      total_sessions ''bob'' (groups_of ?s) = 1 \<and> limit_of ?s ''room'' = 0 \<and> s_rm_sockets ?s = [] \<and> w_primary (s_world ?s)"
    by code_simp
  then obtain p s' px px1 where run: "?p = Some p" "?joins = Some px"
      "handleFrontEndPacket sample_env ''fe-gone'' (\<lambda>r. True) fe1 5 (p\<lparr>p_clientSocket := word_of_int 9\<rparr>) ?s = Some s'"
      "guarded proxy_may proxy_step (proxy_event.Client_Packet 102 p 9) px = Some px1"
    and st: "total_sessions ''bob'' (groups_of ?s) = 1" "limit_of ?s ''room'' = 0" "s_rm_sockets ?s = []" "w_primary (s_world ?s)"
    by auto
  have c: "cl_username ?c = ''bob''" "cl_group ?c = ''room''" "cl_userId ?c = ''id-bob-2''" by (simp_all add: sample_client_def)
  have mem: "packet_sized (e_mem sample_env)" using sample_env_ok by (simp add: env_ok_def)
  have names: "NUL \<notin> set (cl_username ?c)" "NUL \<notin> set (cl_group ?c)" "length (cl_username ?c) < 19" "length (cl_group ?c) < 19"
      "NUL \<notin> set (cl_userId ?c)" "length (cl_userId ?c) < UUID_SIZE" "cl_userId ?c \<noteq> fe1"
    unfolding c by (simp_all add: UUID_SIZE_def fe1_def)
  have ok: "server_ok ?s" using sample_server_ok [of True] server_ok_cong [of ?s "sample_server True"] by simp
  have log: "history_rep (limit_of ?s (cl_group ?c)) (cl_group ?c) [sample_message] (w_files (s_world ?s))"
    using spoken_history st(2) c(2) by simp
  have fits: "\<forall>m\<in>set [sample_message]. fits_packet m"
    by (simp add: fits_packet_def sample_message_def Message_def size_defs)
  have rm: "socket_of (w_book (s_world ?s)) fe1 \<notin> fst ` set (s_rm_sockets ?s)" using st(3) by simp
  have lim: "history_limit 0 = 10"
    by (simp add: history_limit_def getMaxNumberOfMessagesInHistory_def DEFAULT_NUMBER_OF_RECORDED_MESSAGES_def)
  have acc: "True \<longleftrightarrow> total_sessions (cl_username ?c) (groups_of ?s) < MAX_NUMBER_OF_SIMULTANEOUS_CONNECTIONS"
    using st(1) c(1) by (simp add: MAX_NUMBER_OF_SIMULTANEOUS_CONNECTIONS_def)
  have shown: "[sample_message] = last_n (history_limit (limit_of ?s (cl_group ?c))) [sample_message]"
    unfolding c(2) st(2) lim by simp
  obtain as where as: "wire_carries (sent_to (socket_of (w_book (s_world ?s)) fe1)
      (drop (length (w_sent (s_world ?s))) (w_sent (s_world s')))) as"
    using wire_carries_some by blast
  note whole = registration_end_to_end [OF run(1) mem names run(2,4) ok st(4) sample_env_ok log fits rm run(3) as sample_env_ok acc shown,
      of "''bob''" 4 "\<lambda>p. (9, 5, 0)", unfolded c(1)]
  then obtain ps px2 where r: "listenServerCommunication (map (Pair sample_env) ps) 4 px1 = Some px2"
      "\<forall>as'. wire_carries (sent_to 9 (drop (length (px_sent px1)) (px_sent px2))) as' \<longrightarrow>
        (\<exists>ps'. packets_read as' = Some ps' \<and> registerToServer sample_env ps' ?c = Some (Some 0, ?c, p) \<and>
          receiveFromServer (\<lambda>p. (9, 5, 0)) (tl ps') ?c = Some ([chat_line ''bob'' (9, 5, 0) sample_message], 0))"
    by auto
  have total: "total_sessions ''bob'' (groups_of s') = 2" using whole st(1) by simp
  obtain as' where "wire_carries (sent_to 9 (drop (length (px_sent px1)) (px_sent px2))) as'"
    using wire_carries_some by blast
  then show ?thesis using run total r by (fastforce simp: guarded_Some)
qed

text \<open>
  C6: A departure reaches everyone it concerns: when the thread of a client ends, its socket is closed, the
  front end routes nothing to that socket any more, and the one packet it sends makes the server forget exactly the
  session of this client behind this front end, in every group; in each group the primary queues
  the notice that a user has left exactly for the users whose last session there this was, behind the
  messages that were queued before.
\<close>

theorem departure_end_to_end:
  assumes fe: "foldM (guarded proxy_may proxy_step) evs (ProxyFE attempts) = Some px"
      "guarded proxy_may proxy_step (Client_Ends e (Some uid) sock) px = Some px1" "packet_sized (e_mem e)"
    and uid: "NUL \<notin> set uid" "uid \<noteq> f" "uid \<noteq> tag"
    and wire: "wire_carries (map snd (drop (length (px_sent px)) (px_sent px1))) as"
    and server: "table_ok s" "packets_read as = Some ds"
      "foldM (handleFrontEndPacket e' tag confirms f feSocket) ds s = Some s'"
  shows "sock \<in> set (px_closed px1) \<and> switch px1 u \<noteq> Some sock \<and> length ds = 1 \<and>
    members (groups_of s') = filter_mset (\<lambda>m. snd (snd m) \<noteq> (uid, f)) (members (groups_of s)) \<and>
    (\<forall>k g. map_find (groups_of s) k = Some g \<longrightarrow> (\<exists>g'. map_find (groups_of s') k = Some g' \<and>
      g_messages_queue g' = g_messages_queue g @
        (if w_primary (s_world s) then left_notices (e_now e') (uid, f) g else [])))"
proof -
  have px: "tables_ok px" using proxy.run_inv [OF fe(1)] tables_ok_ProxyFE by simp
  note tells = front_end_tells_departure [OF px fe(2,3) uid(1)]
  then obtain server d where d: "px_sent px1 = px_sent px @ [(server, d)]" "packet_sized d"
      "p_type d = DISCONNECT_PACKET" "c_str (p_user_id d) = Some uid" by blast
  have ds: "ds = [d]" using packets_read_carried [OF wire] server(2) d(1,2) by simp
  then have run: "handleFrontEndPacket e' tag confirms f feSocket d s = Some s'" using server(3) by simp
  show ?thesis using tells(2,3) departure_handled [OF server(1) d(3,4) uid(2,3) run] ds by simp
qed

theorem departure_end_to_end_witness:
  "\<exists>px px1 as ds s'. foldM (guarded proxy_may proxy_step) sample_joins (ProxyFE [(4, True), (4, True), (4, True)]) = Some px \<and>
     proxy_step (Client_Ends sample_env (Some ''id-bob'') 8) px = Some px1 \<and> 8 \<in> set (px_closed px1) \<and>
     wire_carries (map snd (drop (length (px_sent px)) (px_sent px1))) as \<and> packets_read as = Some ds \<and>
     foldM (handleFrontEndPacket sample_env ''fe-gone'' (\<lambda>r. True) fe1 5) ds (sample_server True) = Some s' \<and>
     members (groups_of s') = filter_mset (\<lambda>m. snd (snd m) \<noteq> (''id-bob'', fe1)) (members (groups_of (sample_server True))) \<and>
     (\<exists>g'. map_find (groups_of s') ''room'' = Some g' \<and>
       map (\<lambda>m. (m_user m, m_text m)) (g_messages_queue g') = [(''bob'', ''<Left the group>'')])"
proof -
  let ?joins = "foldM (guarded proxy_may proxy_step) sample_joins (ProxyFE [(4, True), (4, True), (4, True)])"
  let ?ends = "guarded proxy_may proxy_step (Client_Ends sample_env (Some ''id-bob'') 8)"
  let ?server = "foldM (handleFrontEndPacket sample_env ''fe-gone'' (\<lambda>r. True) fe1 5)"
  have "Option.bind ?joins (\<lambda>px. map_option (\<lambda>px1. (list_all packet_sized (map snd (drop (length (px_sent px)) (px_sent px1))),
      ?server (map snd (drop (length (px_sent px)) (px_sent px1))) (sample_server True) \<noteq> None)) (?ends px)) = Some (True, True)"
    by code_simp
  then obtain px px1 s' where run: "?joins = Some px" "?ends px = Some px1"
      "?server (map snd (drop (length (px_sent px)) (px_sent px1))) (sample_server True) = Some s'"
    and sized: "\<forall>p\<in>set (map snd (drop (length (px_sent px)) (px_sent px1))). packet_sized p"
    by (auto simp: bind_iff list_all_iff)
  obtain as where as: "wire_carries (map snd (drop (length (px_sent px)) (px_sent px1))) as"
    using wire_carries_some by blast
  note read = packets_read_carried [OF as sized]
  have mem: "packet_sized (e_mem sample_env)" using sample_env_ok by (simp add: env_ok_def)
  have ids: "NUL \<notin> set ''id-bob''" "''id-bob'' \<noteq> fe1" "''id-bob'' \<noteq> ''fe-gone''" by (simp_all add: fe1_def)
  have room: "map_find (groups_of (sample_server True)) ''room'' = Some sample_room" "w_primary (s_world (sample_server True))"
      "map (\<lambda>m. (m_user m, m_text m)) (g_messages_queue sample_room @ left_notices (e_now sample_env) (''id-bob'', fe1) sample_room) =
        [(''bob'', ''<Left the group>'')]"
    by code_simp+
  show ?thesis
    using departure_end_to_end [OF run(1,2) mem ids as sample_table_ok read run(3)] run as read room
    by (fastforce simp: guarded_Some)
qed

end
